(* ===== verification/BB_Prelude.thy ===== *)
theory BB_Prelude
  imports Main "HOL-Library.Word" "HOL-Library.Multiset" "HOL-Library.AList"
    "HOL-Library.Sublist"
begin

text \<open>
  Shared vocabulary of the blackboxd development: the type names used by every component
  (Go strings and byte slices as lists of bytes, results as sums with the error on the left),
  the collections of facts the component theories fill, and the generic lemmas on lists,
  sums and association lists that their proofs share.
\<close>

section \<open>Collections\<close>

named_theorems go_defs \<open>definitions that unfold to elementary list functions\<close>
named_theorems inv_intros \<open>invariant preservation facts\<close>
named_theorems result_elims \<open>inversion of successful results\<close>

section \<open>Names of the model's types\<close>

text \<open>A Go \<^verbatim>\<open>string\<close> and a Go \<^verbatim>\<open>[]byte\<close> are both byte sequences; \<^typ>\<open>char\<close> has
  exactly 256 values.\<close>

type_synonym bytes = string

text \<open>A function \<^verbatim>\<open>func f(...) (T, error)\<close> returns \<open>Inl e\<close> for a non-nil error and
  \<open>Inr v\<close> for a nil one.\<close>

type_synonym ('e, 'a) result = "'e + 'a"

text \<open>A Go \<^verbatim>\<open>map[string]string\<close> that is ranged over: an association list with distinct keys.\<close>

type_synonym strmap = "(string \<times> string) list"

abbreviation ok :: "('e, 'a) result \<Rightarrow> bool" where
  "ok r \<equiv> \<not> isl r"

section \<open>Sequencing of fallible calls\<close>

definition rbind :: "('e, 'a) result \<Rightarrow> ('a \<Rightarrow> ('e, 'b) result) \<Rightarrow> ('e, 'b) result" where
  "rbind r f = (case r of Inl e \<Rightarrow> Inl e | Inr v \<Rightarrow> f v)"

definition map_err :: "('e \<Rightarrow> 'f) \<Rightarrow> ('e, 'a) result \<Rightarrow> ('f, 'a) result" where
  "map_err g r = (case r of Inl e \<Rightarrow> Inl (g e) | Inr v \<Rightarrow> Inr v)"

lemma rbind_Inl [simp]: "rbind (Inl e) f = Inl e"
  by (simp add: rbind_def)

lemma rbind_Inr [simp]: "rbind (Inr v) f = f v"
  by (simp add: rbind_def)

lemma rbind_eq_Inr [result_elims]: "rbind r f = Inr w \<longleftrightarrow> (\<exists>v. r = Inr v \<and> f v = Inr w)"
  by (cases r) simp_all

lemma rbind_eq_Inl: "rbind r f = Inl e \<longleftrightarrow> r = Inl e \<or> (\<exists>v. r = Inr v \<and> f v = Inl e)"
  by (cases r) auto

lemma map_err_Inl [simp]: "map_err g (Inl e) = Inl (g e)"
  by (simp add: map_err_def)

lemma map_err_Inr [simp]: "map_err g (Inr v) = Inr v"
  by (simp add: map_err_def)

lemma map_err_eq_Inr [result_elims]: "map_err g r = Inr v \<longleftrightarrow> r = Inr v"
  by (cases r) simp_all

text \<open>A check that returns early: \<^verbatim>\<open>if !b { return e }\<close>. The collection inverts successful chains of checks.\<close>

definition require :: "bool \<Rightarrow> 'e \<Rightarrow> ('e, unit) result" where
  "require b e = (if b then Inr () else Inl e)"

named_theorems accepts \<open>when a chain of checks succeeds\<close>

lemma require_accepts [accepts]: "require b e = Inr u \<longleftrightarrow> b"
  by (simp add: require_def)

lemma require_rbind_accepts [accepts]: "rbind (require b e) f = Inr w \<longleftrightarrow> b \<and> f () = Inr w"
  by (simp add: require_def)

lemma unit_rbind_accepts [accepts]: "rbind r f = Inr w \<longleftrightarrow> r = Inr () \<and> f () = Inr w" for r :: "('e, unit) result"
  by (cases r) simp_all

text \<open>The checks of a loop body, in order; the first failure is returned.\<close>

fun each :: "('a \<Rightarrow> ('e, unit) result) \<Rightarrow> 'a list \<Rightarrow> ('e, unit) result" where
  "each f [] = Inr ()"
| "each f (x # xs) = rbind (f x) (\<lambda>_. each f xs)"

lemma each_accepts [accepts]: "each f xs = Inr u \<longleftrightarrow> (\<forall>x\<in>set xs. f x = Inr ())"
  by (induction xs) (simp_all add: unit_rbind_accepts)

text \<open>A property of every successful result, carried through a chain of calls by \<^verbatim>\<open>intro\<close>.\<close>

definition on_ok :: "('a \<Rightarrow> bool) \<Rightarrow> ('e, 'a) result \<Rightarrow> bool" where
  "on_ok P r = (case r of Inl _ \<Rightarrow> True | Inr v \<Rightarrow> P v)"

named_theorems on_ok_intros \<open>introduction rules for on_ok\<close>

lemma on_ok_Inl [on_ok_intros, simp]: "on_ok P (Inl e)"
  by (simp add: on_ok_def)

lemma on_ok_Inr [simp]: "on_ok P (Inr v) = P v"
  by (simp add: on_ok_def)

lemma on_okD: "on_ok P r \<Longrightarrow> r = Inr v \<Longrightarrow> P v"
  by simp

lemma on_ok_rbind [on_ok_intros]: "(\<And>v. on_ok P (f v)) \<Longrightarrow> on_ok P (rbind r f)"
  by (cases r) simp_all

lemma on_ok_case_prod [on_ok_intros]: "(\<And>a b. on_ok P (f a b)) \<Longrightarrow> on_ok P (case p of (a, b) \<Rightarrow> f a b)"
  by (cases p) simp

lemma on_ok_if [on_ok_intros]: "(c \<Longrightarrow> on_ok P a) \<Longrightarrow> (\<not> c \<Longrightarrow> on_ok P b) \<Longrightarrow> on_ok P (if c then a else b)"
  by simp

lemma on_ok_option [on_ok_intros]:
  "on_ok P a \<Longrightarrow> (\<And>v. x = Some v \<Longrightarrow> on_ok P (f v)) \<Longrightarrow> on_ok P (case x of None \<Rightarrow> a | Some v \<Rightarrow> f v)"
  by (cases x) simp_all

lemma on_ok_Let [on_ok_intros]: "(\<And>v. v = e \<Longrightarrow> on_ok P (f v)) \<Longrightarrow> on_ok P (Let e f)"
  by (simp add: Let_def)

section \<open>Lists\<close>

lemma sum_list_map_append [simp]:
  "sum_list (map f (xs @ ys)) = sum_list (map f xs) + (sum_list (map f ys) :: int)"
  by simp

lemma sum_list_int_nonneg: "(\<And>x. x \<in> set xs \<Longrightarrow> 0 \<le> f x) \<Longrightarrow> 0 \<le> (\<Sum>x\<leftarrow>xs. f x :: int)"
  by (induction xs) auto

lemma drop_append_single: "n \<le> length xs \<Longrightarrow> drop n (xs @ [x]) = drop n xs @ [x]"
  by simp

lemma take_sep: "take (length h) (h @ c # m) = h"
  by simp

lemma drop_sep: "drop (length h + 1) (h @ c # m) = m"
  by simp

lemma sorted_wrt_drop: "sorted_wrt R xs \<Longrightarrow> sorted_wrt R (drop n xs)"
  by (metis append_take_drop_id sorted_wrt_append)

lemma takeWhile_append_stop: "(\<forall>x\<in>set ys. P x) \<Longrightarrow> \<not> P z \<Longrightarrow> takeWhile P (ys @ z # zs) = ys"
  by (induction ys) auto

lemma dropWhile_append_stop: "(\<forall>x\<in>set ys. P x) \<Longrightarrow> \<not> P z \<Longrightarrow> dropWhile P (ys @ z # zs) = z # zs"
  by (induction ys) auto

section \<open>Association lists\<close>

lemma map_of_update [simp]: "map_of (AList.update k v al) = (map_of al)(k \<mapsto> v)"
  by (simp add: AList.update_conv')

lemma distinct_keys_update [simp]:
  "distinct (map fst al) \<Longrightarrow> distinct (map fst (AList.update k v al))"
  by (rule AList.distinct_update)

end
