(* ===== verification/Go_Strings.thy ===== *)
theory Go_Strings
  imports BB_Prelude
begin

text \<open>
  What the program uses of the Go packages \<^verbatim>\<open>strings\<close>, \<^verbatim>\<open>strconv\<close> and \<^verbatim>\<open>unicode/utf8\<close>,
  as total functions on byte lists. An index of \<open>-1\<close> is \<^const>\<open>None\<close>.
\<close>

section \<open>Searching and slicing\<close>

fun index_where :: "('a \<Rightarrow> bool) \<Rightarrow> 'a list \<Rightarrow> nat option" where
  "index_where P [] = None"
| "index_where P (x # xs) = (if P x then Some 0 else map_option Suc (index_where P xs))"

text \<open>\<^verbatim>\<open>strings.IndexByte\<close> and, for a set of ASCII bytes, \<^verbatim>\<open>strings.IndexAny\<close>.\<close>

definition IndexByte :: "string \<Rightarrow> char \<Rightarrow> nat option" where
  [go_defs]: "IndexByte s c = index_where (\<lambda>x. x = c) s"

definition IndexAny :: "string \<Rightarrow> string \<Rightarrow> nat option" where
  [go_defs]: "IndexAny s cs = index_where (\<lambda>x. x \<in> set cs) s"

definition HasPrefix :: "string \<Rightarrow> string \<Rightarrow> bool" where
  [go_defs]: "HasPrefix s p \<longleftrightarrow> take (length p) s = p"

definition HasSuffix :: "string \<Rightarrow> string \<Rightarrow> bool" where
  "HasSuffix s p \<longleftrightarrow> length p \<le> length s \<and> drop (length s - length p) s = p"

definition TrimPrefix :: "string \<Rightarrow> string \<Rightarrow> string" where
  "TrimPrefix s p = (if HasPrefix s p then drop (length p) s else s)"

definition TrimLeft :: "string \<Rightarrow> string \<Rightarrow> string" where
  "TrimLeft s cutset = dropWhile (\<lambda>c. c \<in> set cutset) s"

text \<open>\<^verbatim>\<open>strings.Split(s, sep)\<close> for a one-byte separator: never empty.\<close>

fun split_on :: "char \<Rightarrow> string \<Rightarrow> string list" where
  "split_on c [] = [[]]"
| "split_on c (x # xs) =
     (if x = c then [] # split_on c xs
      else (case split_on c xs of [] \<Rightarrow> [[x]] | seg # segs \<Rightarrow> (x # seg) # segs))"

text \<open>\<^verbatim>\<open>strings.SplitN(s, sep, n)\<close> for \<open>n > 0\<close>: at most \<open>n\<close> pieces, the last one unsplit.\<close>

fun SplitN :: "string \<Rightarrow> char \<Rightarrow> nat \<Rightarrow> string list" where
  "SplitN s c 0 = []"
| "SplitN s c (Suc 0) = [s]"
| "SplitN s c (Suc (Suc n)) =
     (case IndexByte s c of
        None \<Rightarrow> [s]
      | Some i \<Rightarrow> take i s # SplitN (drop (Suc i) s) c (Suc n))"

definition join_with :: "char \<Rightarrow> string list \<Rightarrow> string" where
  "join_with c segs = concat (map (\<lambda>s. c # s) segs)"

section \<open>Decimal integers\<close>

definition is_digit :: "char \<Rightarrow> bool" where
  "is_digit c \<longleftrightarrow> 48 \<le> (of_char c :: nat) \<and> (of_char c :: nat) \<le> 57"

definition digit_val :: "char \<Rightarrow> nat" where
  "digit_val c = of_char c - 48"

definition digit_char :: "nat \<Rightarrow> char" where
  "digit_char d = char_of (48 + d)"

definition digits_val :: "string \<Rightarrow> nat" where
  "digits_val s = foldl (\<lambda>n c. n * 10 + digit_val c) 0 s"

text \<open>\<^verbatim>\<open>strconv.ParseInt(s, 10, bits)\<close>, and \<^verbatim>\<open>strconv.Atoi\<close> where \<^verbatim>\<open>int\<close> has 64 bits: an optional
  sign, at least one digit, digits only, and a range check on the value.\<close>

definition ParseInt :: "nat \<Rightarrow> string \<Rightarrow> int option" where
  "ParseInt bits s =
     (let (neg, ds) =
        (case s of [] \<Rightarrow> (False, [])
         | c # cs \<Rightarrow> if c = CHR ''-'' then (True, cs)
                     else if c = CHR ''+'' then (False, cs) else (False, s))
      in if ds = [] \<or> \<not> list_all is_digit ds then None
         else let v = (if neg then - int (digits_val ds) else int (digits_val ds))
              in if - (2 ^ (bits - 1)) \<le> v \<and> v < 2 ^ (bits - 1) then Some v else None)"

abbreviation ParseInt64 :: "string \<Rightarrow> int option" where
  "ParseInt64 \<equiv> ParseInt 64"

abbreviation Atoi :: "string \<Rightarrow> int option" where
  "Atoi \<equiv> ParseInt 64"

text \<open>\<^verbatim>\<open>%d\<close> and \<^verbatim>\<open>%0wd\<close> of a non-negative number.\<close>

fun dec_digits :: "nat \<Rightarrow> string" where
  "dec_digits n = (if n < 10 then [digit_char n] else dec_digits (n div 10) @ [digit_char (n mod 10)])"

declare dec_digits.simps [simp del]

definition dec_pad :: "nat \<Rightarrow> nat \<Rightarrow> string" where
  "dec_pad w n = replicate (w - length (dec_digits n)) (CHR ''0'') @ dec_digits n"

section \<open>UTF-8\<close>

text \<open>The number of bytes of the well-formed UTF-8 sequence at the head of the input, 0 when
  there is none: the acceptance table of \<^verbatim>\<open>utf8.DecodeRuneInString\<close>.\<close>

definition cont :: "nat \<Rightarrow> bool" where
  "cont b \<longleftrightarrow> 128 \<le> b \<and> b \<le> 191"

definition second_ok :: "nat \<Rightarrow> nat \<Rightarrow> bool" where
  "second_ok b0 b1 \<longleftrightarrow>
     (if b0 = 224 then 160 \<le> b1 \<and> b1 \<le> 191
      else if b0 = 237 then 128 \<le> b1 \<and> b1 \<le> 159
      else if b0 = 240 then 144 \<le> b1 \<and> b1 \<le> 191
      else if b0 = 244 then 128 \<le> b1 \<and> b1 \<le> 143
      else cont b1)"

definition seq_len :: "nat \<Rightarrow> nat" where
  "seq_len b0 = (if b0 < 128 then 1 else if b0 < 194 then 0 else if b0 < 224 then 2
                 else if b0 < 240 then 3 else if b0 < 245 then 4 else 0)"

definition rune_len :: "string \<Rightarrow> nat" where
  "rune_len s =
     (case s of
        [] \<Rightarrow> 0
      | c0 # _ \<Rightarrow>
         (let n = seq_len (of_char c0) in
          if n \<le> length s \<and> (n \<le> 1 \<or> second_ok (of_char c0) (of_char (s ! 1)))
             \<and> list_all (\<lambda>c. cont (of_char c)) (drop 2 (take n s))
          then n else 0))"

lemma rune_len_le: "rune_len s \<le> length s"
  by (simp add: rune_len_def Let_def split: list.splits)

function ValidString :: "string \<Rightarrow> bool" where
  "ValidString s =
     (if s = [] then True
      else if rune_len s = 0 then False
      else ValidString (drop (rune_len s) s))"
  by pat_completeness auto
termination
  by (relation "measure length") auto

declare ValidString.simps [simp del]

text \<open>\<^verbatim>\<open>strings.ToValidUTF8\<close>: every maximal run of invalid bytes becomes one replacement; the
  flag says that the previous byte was invalid.\<close>

function to_valid :: "bool \<Rightarrow> string \<Rightarrow> string \<Rightarrow> string" where
  "to_valid invalid repl s =
     (if s = [] then []
      else if rune_len s = 0 then (if invalid then [] else repl) @ to_valid True repl (drop 1 s)
      else take (rune_len s) s @ to_valid False repl (drop (rune_len s) s))"
  by pat_completeness auto
termination
  by (relation "measure (\<lambda>(b, r, s). length s)") auto

declare to_valid.simps [simp del]

definition ToValidUTF8 :: "string \<Rightarrow> string \<Rightarrow> string" where
  "ToValidUTF8 s repl = to_valid False repl s"

text \<open>The lines that reading up to each newline delivers, newline included; the last one may lack it.\<close>

function split_lines :: "bytes \<Rightarrow> bytes list" where
  "split_lines u =
     (if u = [] then []
      else let l = takeWhile (\<lambda>c. c \<noteq> CHR 0x0A) u in
        if length l = length u then [u]
        else (l @ [CHR 0x0A]) # split_lines (drop (length l + 1) u))"
  by pat_completeness auto
termination
  by (relation "measure length") auto

declare split_lines.simps [simp del]

text \<open>The runes of a string, an invalid byte standing for itself; the white space runes of
  \<^verbatim>\<open>unicode.IsSpace\<close>; \<^verbatim>\<open>strings.TrimSpace\<close>, and the first element of \<^verbatim>\<open>strings.Fields\<close> (empty when
  there is none).\<close>

function runes :: "string \<Rightarrow> string list" where
  "runes s = (if s = [] then [] else take (max 1 (rune_len s)) s # runes (drop (max 1 (rune_len s)) s))"
  by pat_completeness auto
termination
  by (relation "measure length") auto

declare runes.simps [simp del]

definition is_space_rune :: "string \<Rightarrow> bool" where
  "is_space_rune r =
     (case map of_char r of
        [a] \<Rightarrow> a = (32 :: nat) \<or> 9 \<le> a \<and> a \<le> 13
      | [a, b] \<Rightarrow> a = 194 \<and> (b = 133 \<or> b = 160)
      | [a, b, c] \<Rightarrow> a = 225 \<and> b = 154 \<and> c = 128
           \<or> a = 226 \<and> b = 128 \<and> (128 \<le> c \<and> c \<le> 138 \<or> c = 168 \<or> c = 169 \<or> c = 175)
           \<or> a = 226 \<and> b = 129 \<and> c = 159 \<or> a = 227 \<and> b = 128 \<and> c = 128
      | _ \<Rightarrow> False)"

definition TrimSpace :: "string \<Rightarrow> string" where
  "TrimSpace s = concat (rev (dropWhile is_space_rune (rev (dropWhile is_space_rune (runes s)))))"

definition first_field :: "string \<Rightarrow> string" where
  "first_field s = concat (takeWhile (\<lambda>r. \<not> is_space_rune r) (dropWhile is_space_rune (runes s)))"

section \<open>Facts about searching\<close>

lemma index_where_None [simp]: "index_where P xs = None \<longleftrightarrow> (\<forall>x\<in>set xs. \<not> P x)"
  by (induction xs) auto

lemma index_where_stop:
  "(\<forall>x\<in>set ys. \<not> P x) \<Longrightarrow> P z \<Longrightarrow> index_where P (ys @ z # zs) = Some (length ys)"
  by (induction ys) auto

lemma index_where_Some_split:
  "index_where P xs = Some i \<Longrightarrow>
     i < length xs \<and> xs = take i xs @ xs ! i # drop (Suc i) xs
     \<and> P (xs ! i) \<and> (\<forall>x\<in>set (take i xs). \<not> P x)"
proof (induction xs arbitrary: i)
  case (Cons x xs)
  then show ?case
    by (cases i) (auto split: if_splits)
qed simp

lemma IndexByte_stop [simp]:
  "c \<notin> set ys \<Longrightarrow> IndexByte (ys @ c # zs) c = Some (length ys)"
  unfolding IndexByte_def by (rule index_where_stop) auto

lemma IndexByte_stop0 [simp]: "IndexByte (c # zs) c = Some 0"
  by (simp add: IndexByte_def)

lemma IndexByte_None [simp]: "IndexByte s c = None \<longleftrightarrow> c \<notin> set s"
  by (auto simp: IndexByte_def)

lemma IndexByte_SomeD:
  "IndexByte s c = Some i \<Longrightarrow>
     i < length s \<and> s = take i s @ c # drop (Suc i) s \<and> c \<notin> set (take i s)"
  using index_where_Some_split[of "\<lambda>x. x = c" s i] by (auto simp: IndexByte_def)

lemma HasPrefix_append [simp]: "HasPrefix (p @ s) p"
  by (simp add: HasPrefix_def)

lemma HasPrefix_iff: "HasPrefix s p \<longleftrightarrow> (\<exists>r. s = p @ r)"
  unfolding HasPrefix_def by (metis append_eq_conv_conj)

lemma TrimPrefix_append [simp]: "TrimPrefix (p @ s) p = s"
  by (simp add: TrimPrefix_def)

lemma HasSuffix_iff: "HasSuffix s p \<longleftrightarrow> (\<exists>r. s = r @ p)"
proof
  assume "HasSuffix s p"
  then show "\<exists>r. s = r @ p"
    unfolding HasSuffix_def by (metis append_take_drop_id)
qed (auto simp: HasSuffix_def)

section \<open>Facts about splitting\<close>

lemma split_on_ne [simp]: "split_on c s \<noteq> []"
  by (induction s) (auto split: list.splits)

lemma join_split_on: "join_with c (split_on c s) = c # s"
  by (induction s) (auto simp: join_with_def split: list.splits)

lemma split_on_free: "seg \<in> set (split_on c s) \<Longrightarrow> c \<notin> set seg"
proof (induction s arbitrary: seg)
  case (Cons x xs)
  then show ?case
    by (cases "split_on c xs") (auto split: if_splits)
qed simp

lemma split_on_single: "c \<notin> set s \<Longrightarrow> split_on c s = [s]"
  by (induction s) auto

lemma split_on_append_sep: "c \<notin> set a \<Longrightarrow> split_on c (a @ c # b) = a # split_on c b"
  by (induction a) auto

lemma split_on_join:
  "\<forall>seg\<in>set segs. c \<notin> set seg \<Longrightarrow> split_on c (join_with c segs) = [] # segs"
proof (induction segs)
  case (Cons seg segs)
  show ?case
  proof (cases segs)
    case Nil
    with Cons.prems show ?thesis
      by (simp add: join_with_def split_on_single)
  next
    case (Cons s' ss)
    then have "join_with c (seg # segs) = c # (seg @ join_with c segs)"
      and j: "join_with c segs = c # (s' @ join_with c ss)"
      by (simp_all add: join_with_def)
    moreover have "split_on c (seg @ join_with c segs) = seg # segs"
      using Cons.IH Cons.prems j by (simp add: split_on_append_sep)
    ultimately show ?thesis by simp
  qed
qed (simp add: join_with_def)

section \<open>Facts about decimal integers\<close>

lemma of_char_digit_char: "d < 10 \<Longrightarrow> (of_char (digit_char d) :: nat) = 48 + d"
  by (simp add: digit_char_def)

lemma is_digit_digit_char [simp]: "d < 10 \<Longrightarrow> is_digit (digit_char d)"
  by (simp add: is_digit_def of_char_digit_char)

lemma digit_val_digit_char [simp]: "d < 10 \<Longrightarrow> digit_val (digit_char d) = d"
  by (simp add: digit_val_def of_char_digit_char)

lemma digit_val_less: "is_digit c \<Longrightarrow> digit_val c < 10"
  by (auto simp: is_digit_def digit_val_def)

lemma digits_val_snoc [simp]: "digits_val (s @ [c]) = digits_val s * 10 + digit_val c"
  by (simp add: digits_val_def)

lemma digits_val_Nil [simp]: "digits_val [] = 0"
  by (simp add: digits_val_def)

lemma dec_digits_ne [simp]: "dec_digits n \<noteq> []"
  by (subst dec_digits.simps) simp

lemma dec_digits_digits: "list_all is_digit (dec_digits n)"
proof (induction n rule: dec_digits.induct)
  case (1 n)
  then show ?case
    by (subst dec_digits.simps) simp
qed

lemma digits_val_dec_digits [simp]: "digits_val (dec_digits n) = n"
proof (induction n rule: dec_digits.induct)
  case (1 n)
  show ?case
  proof (cases "n < 10")
    case True
    then show ?thesis
      by (subst dec_digits.simps) (simp add: digits_val_def)
  next
    case False
    with 1 show ?thesis
      by (subst dec_digits.simps) simp
  qed
qed

lemma ParseInt_digits:
  assumes "list_all is_digit ds" "ds \<noteq> []" "int (digits_val ds) < 2 ^ (b - 1)"
  shows "ParseInt b ds = Some (int (digits_val ds))"
proof -
  obtain c cs where ds: "ds = c # cs" using assms(2) by (cases ds) auto
  then have "c \<noteq> CHR ''-''" "c \<noteq> CHR ''+''" using assms(1) by (auto simp: is_digit_def)
  moreover have "- (2 ^ (b - 1)) \<le> int (digits_val ds)"
    by (rule order_trans[of _ 0]) simp_all
  ultimately show ?thesis using assms ds by (simp add: ParseInt_def)
qed

lemma ParseInt_dec_digits: "int n < 2 ^ (b - 1) \<Longrightarrow> ParseInt b (dec_digits n) = Some (int n)"
  using ParseInt_digits[OF dec_digits_digits, of n b] by simp

lemma ParseInt_over: "2 ^ (b - 1) \<le> int n \<Longrightarrow> ParseInt b (dec_digits n) = None"
proof -
  assume n: "2 ^ (b - 1) \<le> int n"
  obtain c cs where ds: "dec_digits n = c # cs" using dec_digits_ne[of n] by (cases "dec_digits n") auto
  then have "c \<noteq> CHR ''-''" "c \<noteq> CHR ''+''" using dec_digits_digits[of n] by (auto simp: is_digit_def)
  then show ?thesis using n ds digits_val_dec_digits[of n] dec_digits_digits[of n] by (simp add: ParseInt_def)
qed

lemma ParseInt_range: "ParseInt b s = Some v \<Longrightarrow> - (2 ^ (b - 1)) \<le> v \<and> v < 2 ^ (b - 1)"
  by (auto simp: ParseInt_def Let_def split: if_splits prod.splits)

lemma dec_pad_Suc:
  assumes "0 < w"
  shows "dec_pad (Suc w) n = dec_pad w (n div 10) @ [digit_char (n mod 10)]"
proof (cases "n < 10")
  case True
  then have "dec_digits n = [digit_char n]" "dec_digits 0 = [digit_char 0]" by (simp_all add: dec_digits.simps)
  moreover have "digit_char 0 = CHR ''0''" by code_simp
  moreover have "replicate w (CHR ''0'') = replicate (w - 1) (CHR ''0'') @ [CHR ''0'']"
    using assms by (cases w) (simp_all add: replicate_append_same)
  ultimately show ?thesis using True by (simp add: dec_pad_def)
next
  case False
  then show ?thesis by (simp add: dec_pad_def dec_digits.simps[of n])
qed

lemma dec_pad_length: "0 < w \<Longrightarrow> n < 10 ^ w \<Longrightarrow> length (dec_pad w n) = w"
proof (induction w arbitrary: n)
  case (Suc w)
  show ?case
  proof (cases "w = 0")
    case True
    then have "n < 10" using Suc.prems by simp
    then show ?thesis using True by (simp add: dec_pad_def dec_digits.simps[of n])
  next
    case False
    then have "n div 10 < 10 ^ w" using Suc.prems by (simp add: div_less_iff_less_mult mult.commute)
    then show ?thesis using Suc.IH[of "n div 10"] False by (simp add: dec_pad_Suc)
  qed
qed simp

section \<open>Facts about UTF-8\<close>

lemma ValidString_Nil [simp]: "ValidString []"
  by (simp add: ValidString.simps)

lemma rune_len_pos:
  assumes "0 < rune_len s"
  obtains c cs n where "s = c # cs" "n = seq_len (of_char c)" "rune_len s = n" "0 < n" "n \<le> length s"
    "n \<le> 1 \<or> second_ok (of_char c) (of_char (s ! 1))"
    "list_all (\<lambda>c. cont (of_char c)) (drop 2 (take n s))"
  using assms by (cases s) (auto simp: rune_len_def Let_def split: if_splits)

lemma rune_len_append:
  assumes "0 < rune_len s"
  shows "rune_len (s @ t) = rune_len s"
  using assms
  by (rule rune_len_pos) (auto simp: rune_len_def Let_def nth_append take_Cons')

lemma ValidString_append: "ValidString s \<Longrightarrow> ValidString (s @ t) = ValidString t"
proof (induction s rule: ValidString.induct)
  case (1 s)
  show ?case
  proof (cases "s = []")
    case False
    with "1.prems" have pos: "rune_len s \<noteq> 0" and tl: "ValidString (drop (rune_len s) s)"
      by (auto simp: ValidString.simps[of s] split: if_splits)
    have "ValidString (s @ t) = ValidString (drop (rune_len s) s @ t)"
      using pos False rune_len_le[of s] rune_len_append[of s t]
      by (subst ValidString.simps) simp
    with "1.IH"[OF False pos tl] show ?thesis by simp
  qed simp
qed

lemma rune_len_take:
  assumes "0 < rune_len s"
  shows "ValidString (take (rune_len s) s)"
proof -
  from assms obtain c cs n where n: "s = c # cs" "n = seq_len (of_char c)" "rune_len s = n"
    "0 < n" "n \<le> length s" "n \<le> 1 \<or> second_ok (of_char c) (of_char (s ! 1))"
    "list_all (\<lambda>c. cont (of_char c)) (drop 2 (take n s))"
    by (rule rune_len_pos)
  from n(1,4) have "take n s = c # take (n - 1) cs"
    by (cases n) auto
  with n have "rune_len (take n s) = n"
    by (cases "n \<le> 1") (auto simp: rune_len_def Let_def min_def split: list.splits)
  then show ?thesis
    using n by (subst ValidString.simps) auto
qed

lemma to_valid_Nil [simp]: "to_valid b r [] = []"
  by (simp add: to_valid.simps)

lemma to_valid_Valid: "ValidString r \<Longrightarrow> ValidString (to_valid b r s)"
proof (induction b r s rule: to_valid.induct)
  case (1 b r s)
  consider "s = []" | "s \<noteq> []" "rune_len s = 0" | "s \<noteq> []" "rune_len s \<noteq> 0" by blast
  then show ?case
  proof cases
    case 3
    then show ?thesis
      using 1 by (subst to_valid.simps) (simp add: ValidString_append rune_len_take)
  qed (use 1 in \<open>subst to_valid.simps, simp add: ValidString_append\<close>)+
qed

lemma to_valid_id: "ValidString s \<Longrightarrow> to_valid b r s = s"
proof (induction b r s rule: to_valid.induct)
  case (1 b r s)
  then show ?case
    by (cases "s = []")
       (auto simp: ValidString.simps[of s] to_valid.simps[of b r s] split: if_splits)
qed

lemma runes_concat: "concat (runes s) = s"
proof (induction s rule: runes.induct)
  case (1 s)
  then show ?case by (subst runes.simps) auto
qed

lemma runes_ascii: "list_all (\<lambda>c. (of_char c :: nat) < 128) s \<Longrightarrow> runes s = map (\<lambda>c. [c]) s"
proof (induction s)
  case (Cons c s)
  then have "rune_len (c # s) = 1" by (simp add: rune_len_def seq_len_def Let_def)
  with Cons show ?case by (simp add: runes.simps[of "c # s"])
qed (simp add: runes.simps)

text \<open>A byte below 128 never completes a sequence.\<close>

lemma rune_len_snoc:
  assumes "x \<noteq> []" "(of_char c :: nat) < 128"
  shows "rune_len (x @ [c]) = rune_len x"
proof (cases "0 < rune_len x")
  case True
  then show ?thesis by (rule rune_len_append)
next
  case False
  have "\<not> 0 < rune_len (x @ [c])"
  proof
    assume "0 < rune_len (x @ [c])"
    then obtain c0 cs n where n: "x @ [c] = c0 # cs" "n = seq_len (of_char c0)" "0 < n" "n \<le> length (x @ [c])"
      "n \<le> 1 \<or> second_ok (of_char c0) (of_char ((x @ [c]) ! 1))"
      "list_all (\<lambda>c. cont (of_char c)) (drop 2 (take n (x @ [c])))"
      by (rule rune_len_pos)
    obtain xs where x: "x = c0 # xs" using assms(1) n(1) by (cases x) auto
    show False
    proof (cases "n \<le> length x")
      case True
      then have "take n (x @ [c]) = take n x" "n \<le> 1 \<or> (x @ [c]) ! 1 = x ! 1" by (auto simp: nth_append)
      then have "rune_len x = n" using n True x by (auto simp: rune_len_def Let_def)
      then show False using False n(3) by simp
    next
      case False
      then have nl: "n = length x + 1" using n(4) by simp
      then have t: "take n (x @ [c]) = x @ [c]" by simp
      show False
      proof (cases "length x = 1")
        case True
        then have "(x @ [c]) ! 1 = c" by (simp add: nth_append)
        then show False using n(5) nl True assms(2) by (auto simp: second_ok_def cont_def split: if_splits)
      next
        case False
        then have "2 \<le> length x" using x by (cases xs) auto
        then have "c \<in> set (drop 2 (x @ [c]))" by simp
        then have "cont (of_char c)" using n(6) unfolding t by (simp add: list_all_iff)
        then show False using assms(2) by (simp add: cont_def)
      qed
    qed
  qed
  then show ?thesis using False by simp
qed

lemma runes_snoc: "(of_char c :: nat) < 128 \<Longrightarrow> runes (x @ [c]) = runes x @ [[c]]"
proof (induction x rule: runes.induct)
  case (1 x)
  show ?case
  proof (cases "x = []")
    case True
    then show ?thesis using runes_ascii[of "[c]"] 1(2) by (simp add: runes.simps[of "[]"])
  next
    case False
    then have k: "max 1 (rune_len (x @ [c])) = max 1 (rune_len x)" "max 1 (rune_len x) \<le> length x"
      using rune_len_snoc[OF False 1(2)] rune_len_le[of x] by (simp_all add: Suc_le_eq)
    then have "runes (x @ [c]) = take (max 1 (rune_len x)) x # runes (drop (max 1 (rune_len x)) x @ [c])"
      by (subst runes.simps) simp
    then show ?thesis using 1(1)[OF False 1(2)] False runes.simps[of x] by simp
  qed
qed

lemma runes_ascii_Cons: "(of_char c :: nat) < 128 \<Longrightarrow> runes (c # x) = [c] # runes x"
  by (subst runes.simps) (simp add: rune_len_def seq_len_def Let_def)

lemma TrimSpace_newline [simp]:
  "TrimSpace (CHR 0x0A # x) = TrimSpace x" "TrimSpace (x @ [CHR 0x0A]) = TrimSpace x" "TrimSpace [] = []"
proof -
  have sp: "is_space_rune [CHR 0x0A]" by (simp add: is_space_rune_def)
  show "TrimSpace (CHR 0x0A # x) = TrimSpace x" "TrimSpace [] = []"
    by (simp_all add: TrimSpace_def runes_ascii_Cons sp runes.simps[of "[]"])
  show "TrimSpace (x @ [CHR 0x0A]) = TrimSpace x"
  proof (cases "\<forall>r\<in>set (runes x). is_space_rune r")
    case True
    then have d: "dropWhile is_space_rune (runes x @ [[CHR 0x0A]]) = []" "dropWhile is_space_rune (runes x) = []"
      using sp by simp_all
    have "runes (x @ [CHR 0x0A]) = runes x @ [[CHR 0x0A]]" by (rule runes_snoc) simp
    then show ?thesis unfolding TrimSpace_def by (simp only: d)
  next
    case False
    then have "dropWhile is_space_rune (runes x @ [[CHR 0x0A]]) = dropWhile is_space_rune (runes x) @ [[CHR 0x0A]]"
      by (auto intro: dropWhile_append1)
    then show ?thesis by (simp add: TrimSpace_def runes_snoc sp)
  qed
qed

section \<open>Facts about lines\<close>

lemma split_lines_Nil [simp]: "split_lines [] = []"
  by (simp add: split_lines.simps)

lemma split_lines_line: "CHR 0x0A \<notin> set l \<Longrightarrow> split_lines (l @ CHR 0x0A # rest) = (l @ [CHR 0x0A]) # split_lines rest"
proof -
  assume "CHR 0x0A \<notin> set l"
  then have "takeWhile (\<lambda>c. c \<noteq> CHR 0x0A) (l @ CHR 0x0A # rest) = l"
    by (intro takeWhile_append_stop) auto
  then show ?thesis by (subst split_lines.simps) (simp add: Let_def)
qed

lemma split_lines_tail: "CHR 0x0A \<notin> set u \<Longrightarrow> u \<noteq> [] \<Longrightarrow> split_lines u = [u]"
proof -
  assume a: "CHR 0x0A \<notin> set u" "u \<noteq> []"
  then have t: "takeWhile (\<lambda>c. c \<noteq> CHR 0x0A) u = u" by (intro takeWhile_eq_all_conv[THEN iffD2]) auto
  show ?thesis unfolding split_lines.simps[of u] t Let_def using a(2) by simp
qed

lemma line_cases:
  fixes u :: bytes
  obtains "u = []" | "u \<noteq> []" "CHR 0x0A \<notin> set u" | l rest where "u = l @ CHR 0x0A # rest" "CHR 0x0A \<notin> set l"
  by (metis split_list_first)

lemma concat_split_lines: "concat (split_lines u) = u"
proof (induction "length u" arbitrary: u rule: less_induct)
  case less
  show ?case
  proof (cases u rule: line_cases)
    case (3 l rest)
    then show ?thesis using less[of rest] by (simp add: split_lines_line)
  qed (simp_all add: split_lines_tail)
qed

end
