(* ===== verification/Parser_Types.thy ===== *)
theory Parser_Types
  imports Go_Strings
begin

text \<open>
  \<^verbatim>\<open>src/internal/parser/parser.go\<close>: the severity type with its JSON form, the canonical log
  entry, UTF-8 sanitising, the parse errors, and the contract every format parser keeps, stated
  as the locale \<open>log_parser\<close> that the parser theories interpret.
\<close>

section \<open>Severity levels\<close>

text \<open>\<^verbatim>\<open>type Level uint8\<close>: eight named values, the other 248 print as \<open>unknown\<close>.\<close>

type_synonym Level = "8 word"

abbreviation LevelEmergency :: Level where "LevelEmergency \<equiv> 0"
abbreviation LevelAlert :: Level where "LevelAlert \<equiv> 1"
abbreviation LevelCritical :: Level where "LevelCritical \<equiv> 2"
abbreviation LevelError :: Level where "LevelError \<equiv> 3"
abbreviation LevelWarning :: Level where "LevelWarning \<equiv> 4"
abbreviation LevelNotice :: Level where "LevelNotice \<equiv> 5"
abbreviation LevelInfo :: Level where "LevelInfo \<equiv> 6"
abbreviation LevelDebug :: Level where "LevelDebug \<equiv> 7"

definition Level_String :: "Level \<Rightarrow> string" where
  "Level_String l =
     (if l = LevelEmergency then ''emerg''
      else if l = LevelAlert then ''alert''
      else if l = LevelCritical then ''crit''
      else if l = LevelError then ''error''
      else if l = LevelWarning then ''warn''
      else if l = LevelNotice then ''notice''
      else if l = LevelInfo then ''info''
      else if l = LevelDebug then ''debug''
      else ''unknown'')"

abbreviation dquote :: char where "dquote \<equiv> CHR 0x22"

definition MarshalJSON :: "Level \<Rightarrow> string" where
  "MarshalJSON l = [dquote] @ Level_String l @ [dquote]"

text \<open>\<^const>\<open>None\<close> is the error return (empty input or an unknown name).\<close>

definition UnmarshalJSON :: "string \<Rightarrow> Level option" where
  "UnmarshalJSON b0 =
     (if b0 = [] then None
      else let b = (if 2 \<le> length b0 \<and> hd b0 = dquote \<and> last b0 = dquote
                    then butlast (tl b0) else b0)
      in if b \<in> {''emerg'', ''0''} then Some LevelEmergency
         else if b \<in> {''alert'', ''1''} then Some LevelAlert
         else if b \<in> {''crit'', ''2''} then Some LevelCritical
         else if b \<in> {''error'', ''err'', ''3''} then Some LevelError
         else if b \<in> {''warn'', ''warning'', ''4''} then Some LevelWarning
         else if b \<in> {''notice'', ''5''} then Some LevelNotice
         else if b \<in> {''info'', ''6''} then Some LevelInfo
         else if b \<in> {''debug'', ''7''} then Some LevelDebug
         else None)"

section \<open>Log entries\<close>

text \<open>An instant, in nanoseconds since the zero \<^verbatim>\<open>time.Time\<close> (1 January of year 1, UTC), so
  that \<^verbatim>\<open>t.IsZero()\<close> is \<open>t = 0\<close>. Instants are what \<^verbatim>\<open>Before\<close>, \<^verbatim>\<open>After\<close> and \<^verbatim>\<open>Add\<close> work on;
  the display location of a \<^verbatim>\<open>time.Time\<close> is not part of the model.\<close>

type_synonym instant = int

definition IsZero :: "instant \<Rightarrow> bool" where
  [simp]: "IsZero t \<longleftrightarrow> t = 0"

text \<open>\<^verbatim>\<open>type LogEntry struct\<close>. A nil and an empty \<^verbatim>\<open>Fields\<close> map are both \<open>[]\<close>: the program
  never tells them apart and JSON omits both.\<close>

record LogEntry =
  Timestamp :: instant
  Level :: Level
  Facility :: int
  Hostname :: string
  Process :: string
  PID :: int
  Message :: string
  Source :: string
  Fields :: strmap

text \<open>The composite literal \<^verbatim>\<open>LogEntry{}\<close>.\<close>

definition zero_entry :: LogEntry where
  "zero_entry = \<lparr>Timestamp = 0, Level = 0, Facility = 0, Hostname = [], Process = [],
     PID = 0, Message = [], Source = [], Fields = []\<rparr>"

text \<open>The three bytes of U+FFFD.\<close>

abbreviation replacement :: string where
  "replacement \<equiv> [CHR 0xEF, CHR 0xBF, CHR 0xBD]"

definition SanitizeUTF8 :: "LogEntry \<Rightarrow> LogEntry" where
  "SanitizeUTF8 e =
     (if ValidString (Message e) then e
      else e\<lparr>Message := ToValidUTF8 (Message e) replacement\<rparr>)"

section \<open>Errors and the parser interface\<close>

text \<open>The sentinel a parse error wraps; \<open>ErrTime\<close> is an error of \<^verbatim>\<open>time.Parse\<close> that is passed on
  without a sentinel.\<close>

datatype sentinel = ErrInvalidFormat | ErrTruncatedLine | ErrInvalidPriority | ErrTime

text \<open>An error: the constant prefix of its message, and the sentinel behind \<^verbatim>\<open>%w\<close>.\<close>

type_synonym perror = "string \<times> sentinel"

type_synonym Parser = "string \<Rightarrow> (perror, LogEntry) result"

definition wrap :: "string \<Rightarrow> sentinel \<Rightarrow> perror" where
  "wrap ctx s = (ctx, s)"

text \<open>What callers rely on from every implementation of \<^verbatim>\<open>Parser\<close>: an entry names its format,
  has one of the eight levels and a well-formed field map, and an empty record is a
  truncated one.\<close>

definition entry_ok :: "LogEntry \<Rightarrow> bool" where
  "entry_ok e \<longleftrightarrow> Level e \<le> LevelDebug \<and> distinct (map fst (Fields e))"

lemma level_cases:
  fixes l :: Level
  assumes "l \<le> 7"
  obtains "l = 0" | "l = 1" | "l = 2" | "l = 3" | "l = 4" | "l = 5" | "l = 6" | "l = 7"
proof -
  have "unat l \<le> 7" using assms by (simp add: word_le_nat_alt)
  then consider "unat l = 0" | "unat l = 1" | "unat l = 2" | "unat l = 3" | "unat l = 4"
    | "unat l = 5" | "unat l = 6" | "unat l = 7" by linarith
  then show ?thesis
    by cases (use that in \<open>auto simp: word_unat_eq_iff\<close>)
qed

lemma Level_roundtrip: "l \<le> 7 \<Longrightarrow> UnmarshalJSON (MarshalJSON l) = Some l"
  by (erule level_cases) (simp_all add: MarshalJSON_def UnmarshalJSON_def Level_String_def)

locale log_parser =
  fixes parse :: Parser
    and name :: string
  assumes parse_empty: "parse [] = Inl (wrap name ErrTruncatedLine)"
    and parse_name: "parse l = Inr e \<Longrightarrow> Source e = name"
    and parse_ok: "parse l = Inr e \<Longrightarrow> entry_ok e"
begin

lemma parse_known_level: "parse l = Inr e \<Longrightarrow> UnmarshalJSON (MarshalJSON (Level e)) \<noteq> None"
  using parse_ok by (auto simp: entry_ok_def Level_roundtrip)

end

end
