(* ===== verification/Ring_Buffer.thy ===== *)
theory Ring_Buffer
  imports Parser_Types
begin

text \<open>
  \<^verbatim>\<open>src/internal/pipeline/ring.go\<close>: the bounded FIFO with drop-oldest semantics. Every
  operation runs under the ring's mutex, so each is one atomic function on the state.
  \<^verbatim>\<open>notify\<close> is a channel of capacity one: its state is whether it holds a token.
  An operation that would index out of range, divide by zero or make a slice beyond the address space panics in
  Go and is \<^const>\<open>None\<close> here; under the invariant \<open>rb_inv\<close> only the last can happen, when more than \<open>max_make\<close>
  entries are asked for at once. (\<^verbatim>\<open>NewRingBuffer\<close> has the same limit; a ring that is larger does not come into being.)
\<close>

section \<open>State and operations\<close>

record RingBuffer =
  rb_buf :: "LogEntry option list"
  rb_head :: nat
  rb_size :: nat
  rb_bytes :: int
  rb_maxEntries :: nat
  rb_maxBytes :: int
  rb_closed :: bool
  rb_notify :: bool
  rb_drops :: "64 word"

text \<open>The largest capacity of a slice of pointers for which \<^verbatim>\<open>make\<close> does not panic: \<open>2\<^sup>4\<^sup>8\<close> bytes of address space (64-bit
  Linux) at eight bytes each. On a 32-bit machine it is \<open>2\<^sup>3\<^sup>0\<close>; the proofs do not depend on the value.\<close>

definition max_make :: int where
  "max_make = 35184372088832"

definition NewRingBuffer :: "int \<Rightarrow> int \<Rightarrow> RingBuffer" where
  "NewRingBuffer maxEntries maxBytes =
     (let n = nat (if maxEntries \<le> 0 then 10000 else maxEntries) in
      \<lparr>rb_buf = replicate n None, rb_head = 0, rb_size = 0, rb_bytes = 0, rb_maxEntries = n,
       rb_maxBytes = maxBytes, rb_closed = False, rb_notify = False, rb_drops = 0\<rparr>)"

definition approxBytes :: "LogEntry option \<Rightarrow> int" where
  "approxBytes oe =
     (case oe of
        None \<Rightarrow> 0
      | Some e \<Rightarrow>
          64 + int (length (Message e)) + int (length (Hostname e)) + int (length (Process e))
          + int (length (Source e))
          + (\<Sum>(k, v)\<leftarrow>Fields e. int (length k) + int (length v) + 8))"

text \<open>The statements that remove the oldest entry, shared by \<^verbatim>\<open>Push\<close>, \<^verbatim>\<open>TryPop\<close> and
  \<^verbatim>\<open>PopBatch\<close>: read and clear the head slot, advance the head, adjust size and byte count.\<close>

definition pop_head :: "RingBuffer \<Rightarrow> (LogEntry option \<times> RingBuffer) option" where
  "pop_head r =
     (if rb_head r \<ge> length (rb_buf r) \<or> rb_maxEntries r = 0 then None
      else let old = rb_buf r ! rb_head r in
        Some (old, r\<lparr>rb_buf := (rb_buf r)[rb_head r := None],
                     rb_head := (rb_head r + 1) mod rb_maxEntries r,
                     rb_size := rb_size r - 1,
                     rb_bytes := rb_bytes r - approxBytes old\<rparr>))"

text \<open>The loop condition of \<^verbatim>\<open>Push\<close>.\<close>

definition over_cap :: "int \<Rightarrow> RingBuffer \<Rightarrow> bool" where
  "over_cap cost r \<longleftrightarrow>
     rb_size r + 1 > rb_maxEntries r
     \<or> (rb_maxBytes r > 0 \<and> rb_bytes r + cost > rb_maxBytes r \<and> rb_size r > 0)"

function evict_loop :: "int \<Rightarrow> RingBuffer \<Rightarrow> RingBuffer option" where
  "evict_loop cost r =
     (if over_cap cost r
      then (case pop_head r of
              None \<Rightarrow> None
            | Some (old, r') \<Rightarrow> evict_loop cost (r'\<lparr>rb_drops := rb_drops r' + 1\<rparr>))
      else Some r)"
  by pat_completeness auto
termination
  by (relation "measure (\<lambda>(c, r). rb_size r)")
     (auto simp: pop_head_def over_cap_def Let_def split: if_splits)

declare evict_loop.simps [simp del]

definition Push :: "RingBuffer \<Rightarrow> LogEntry option \<Rightarrow> (bool \<times> RingBuffer) option" where
  "Push r oe =
     (case oe of
        None \<Rightarrow> Some (True, r)
      | Some e \<Rightarrow>
          (let cost = approxBytes (Some e) in
           if rb_closed r then Some (False, r)
           else case evict_loop cost r of
                  None \<Rightarrow> None
                | Some r1 \<Rightarrow>
                    if rb_maxEntries r1 = 0 then None
                    else let tail = (rb_head r1 + rb_size r1) mod rb_maxEntries r1 in
                      if tail \<ge> length (rb_buf r1) then None
                      else Some (True, r1\<lparr>rb_buf := (rb_buf r1)[tail := Some e],
                                          rb_size := rb_size r1 + 1,
                                          rb_bytes := rb_bytes r1 + cost,
                                          rb_notify := True\<rparr>)))"

text \<open>\<^verbatim>\<open>TryPop\<close> returns the entry and whether the ring is closed and drained.\<close>

definition TryPop :: "RingBuffer \<Rightarrow> (LogEntry option \<times> bool \<times> RingBuffer) option" where
  "TryPop r =
     (if rb_size r = 0 then Some (None, rb_closed r, r)
      else case pop_head r of None \<Rightarrow> None | Some (e, r') \<Rightarrow> Some (e, False, r'))"

function pop_loop :: "nat \<Rightarrow> LogEntry option list \<Rightarrow> RingBuffer \<Rightarrow> (LogEntry option list \<times> RingBuffer) option" where
  "pop_loop maxN out r =
     (if length out < maxN \<and> rb_size r > 0
      then (case pop_head r of None \<Rightarrow> None | Some (e, r') \<Rightarrow> pop_loop maxN (out @ [e]) r')
      else Some (out, r))"
  by pat_completeness auto
termination
  by (relation "measure (\<lambda>(n, out, r). rb_size r)")
     (auto simp: pop_head_def Let_def split: if_splits)

declare pop_loop.simps [simp del]

definition PopBatch :: "RingBuffer \<Rightarrow> int \<Rightarrow> (LogEntry option list \<times> RingBuffer) option" where
  "PopBatch r maxN = (if maxN \<le> 0 then Some ([], r) else if max_make < maxN then None else pop_loop (nat maxN) [] r)"

definition Close :: "RingBuffer \<Rightarrow> RingBuffer" where
  "Close r = (if rb_closed r then r else r\<lparr>rb_closed := True\<rparr>)"

definition Len :: "RingBuffer \<Rightarrow> nat" where
  "Len r = rb_size r"

definition Drops :: "RingBuffer \<Rightarrow> 64 word" where
  "Drops r = rb_drops r"

text \<open>\<^verbatim>\<open>PopWait\<close> as the decision its loop takes at one wake-up: the caller's \<^verbatim>\<open>select\<close> has
  reported which of the three channels is ready. \<open>Wait r\<close> is another iteration.\<close>

datatype wake = CtxDone | ClosedC | NotifyC

datatype pop_wait = Return "LogEntry option" RingBuffer | Wait RingBuffer

definition PopWait_first :: "RingBuffer \<Rightarrow> pop_wait option" where
  "PopWait_first r =
     (case TryPop r of
        None \<Rightarrow> None
      | Some (Some e, _, r') \<Rightarrow> Some (Return (Some e) r')
      | Some (None, drained, r') \<Rightarrow> if drained then Some (Return None r') else Some (Wait r'))"

definition PopWait_wake :: "wake \<Rightarrow> RingBuffer \<Rightarrow> pop_wait option" where
  "PopWait_wake wk r =
     (case wk of
        CtxDone \<Rightarrow> Some (Return None r)
      | ClosedC \<Rightarrow> (case TryPop r of None \<Rightarrow> None | Some (e, _, r') \<Rightarrow> Some (Return e r'))
      | NotifyC \<Rightarrow> PopWait_first (r\<lparr>rb_notify := False\<rparr>))"

section \<open>Invariant and abstraction\<close>

definition slot :: "RingBuffer \<Rightarrow> nat \<Rightarrow> LogEntry option" where
  "slot r i = rb_buf r ! ((rb_head r + i) mod rb_maxEntries r)"

definition contents :: "RingBuffer \<Rightarrow> LogEntry list" where
  "contents r = map (\<lambda>i. the (slot r i)) [0..<rb_size r]"

abbreviation cost_of :: "LogEntry \<Rightarrow> int" where
  "cost_of e \<equiv> approxBytes (Some e)"

definition total_cost :: "LogEntry list \<Rightarrow> int" where
  "total_cost q = (\<Sum>e\<leftarrow>q. cost_of e)"

definition rb_inv :: "RingBuffer \<Rightarrow> bool" where
  "rb_inv r \<longleftrightarrow>
     0 < rb_maxEntries r \<and> length (rb_buf r) = rb_maxEntries r \<and> rb_head r < rb_maxEntries r
     \<and> rb_size r \<le> rb_maxEntries r
     \<and> (\<forall>i<rb_size r. slot r i \<noteq> None)
     \<and> (\<forall>i<rb_maxEntries r. rb_size r \<le> i \<longrightarrow> slot r i = None)
     \<and> rb_bytes r = total_cost (contents r)
     \<and> (0 < rb_maxBytes r \<longrightarrow> rb_bytes r \<le> rb_maxBytes r \<or> rb_size r \<le> 1)"

text \<open>The abstract queue: what \<^verbatim>\<open>Push\<close> keeps of the old contents before appending.\<close>

fun keep :: "nat \<Rightarrow> int \<Rightarrow> int \<Rightarrow> LogEntry list \<Rightarrow> LogEntry list" where
  "keep n mb cost [] = []"
| "keep n mb cost (e # q) =
     (if length (e # q) + 1 > n \<or> (0 < mb \<and> total_cost (e # q) + cost > mb)
      then keep n mb cost q else e # q)"

section \<open>Modular arithmetic of the slots\<close>

lemma mod_add_inj_le:
  fixes h i j m :: nat
  assumes "j < m" "i \<le> j" "(h + i) mod m = (h + j) mod m"
  shows "i = j"
proof (rule ccontr)
  assume "i \<noteq> j"
  have "h + i \<le> h + j" using assms(2) by simp
  from mod_eq_dvd_iff_nat[OF this, of m] assms(3) have "m dvd (h + j) - (h + i)" by simp
  then have "m dvd j - i" by simp
  then have "m \<le> j - i" using \<open>i \<noteq> j\<close> assms(2) by (intro dvd_imp_le) auto
  then show False using assms(1) by simp
qed

lemma mod_add_inj:
  fixes h i j m :: nat
  assumes "i < m" "j < m" "(h + i) mod m = (h + j) mod m"
  shows "i = j"
  using assms mod_add_inj_le[of j m i h] mod_add_inj_le[of i m j h]
  by (cases "i \<le> j") auto

lemma cost_pos: "64 \<le> cost_of e"
proof -
  have "0 \<le> (\<Sum>(k, v)\<leftarrow>Fields e. int (length k) + int (length v) + 8)"
    by (rule sum_list_int_nonneg) auto
  then show ?thesis by (simp add: approxBytes_def)
qed

lemma total_cost_simps [simp]:
  "total_cost [] = 0" "total_cost (e # q) = cost_of e + total_cost q"
  "total_cost (q @ q') = total_cost q + total_cost q'"
  by (simp_all add: total_cost_def)

lemma length_contents [simp]: "length (contents r) = rb_size r"
  by (simp add: contents_def)

lemma contents_nth [simp]: "i < rb_size r \<Longrightarrow> contents r ! i = the (slot r i)"
  by (simp add: contents_def)

lemma contents_Nil_iff: "contents r = [] \<longleftrightarrow> rb_size r = 0"
  by (simp add: contents_def)

lemma contents_flags [simp]:
  "contents (r\<lparr>rb_closed := b\<rparr>) = contents r" "contents (r\<lparr>rb_notify := b\<rparr>) = contents r"
  "contents (r\<lparr>rb_drops := d\<rparr>) = contents r"
  by (simp_all add: contents_def slot_def)

lemma rb_inv_flags [simp]:
  "rb_inv (r\<lparr>rb_closed := b\<rparr>) = rb_inv r" "rb_inv (r\<lparr>rb_notify := b\<rparr>) = rb_inv r"
  "rb_inv (r\<lparr>rb_drops := d\<rparr>) = rb_inv r"
  by (simp_all add: rb_inv_def slot_def)

section \<open>Removing the oldest entry\<close>

text \<open>The fields no operation writes after construction.\<close>

definition same_caps :: "RingBuffer \<Rightarrow> RingBuffer \<Rightarrow> bool" where
  "same_caps r r' \<longleftrightarrow> rb_maxEntries r' = rb_maxEntries r \<and> rb_maxBytes r' = rb_maxBytes r"

lemma slot_pop:
  assumes "rb_inv r" "pop_head r = Some (old, r')"
  shows "\<And>i. Suc i < rb_maxEntries r \<Longrightarrow> slot r' i = slot r (Suc i)"
    and "slot r' (rb_maxEntries r - 1) = None"
proof -
  let ?m = "rb_maxEntries r" and ?h = "rb_head r"
  have m: "0 < ?m" "?h < ?m" "length (rb_buf r) = ?m" using assms(1) by (auto simp: rb_inv_def)
  have r': "slot r' i = (rb_buf r)[?h := None] ! ((?h + Suc i) mod ?m)" for i
    using assms(2) m by (auto simp: pop_head_def slot_def Let_def mod_simps)
  show "slot r' i = slot r (Suc i)" if "Suc i < ?m" for i
  proof -
    have "(?h + Suc i) mod ?m \<noteq> (?h + 0) mod ?m"
      using mod_add_inj[of "Suc i" ?m 0 ?h] that m by blast
    then show ?thesis using m unfolding r' slot_def[of r] by simp
  qed
  have "(?h + Suc (?m - 1)) mod ?m = ?h" using m by simp
  then show "slot r' (?m - 1) = None" using m by (simp add: r')
qed

lemma pop_head_some:
  assumes "rb_inv r" "0 < rb_size r"
  obtains e q r' where "contents r = e # q" "pop_head r = Some (Some e, r')" "rb_inv r'"
    "contents r' = q" "rb_size r' = rb_size r - 1" "same_caps r r'"
    "rb_closed r' = rb_closed r" "rb_notify r' = rb_notify r" "rb_drops r' = rb_drops r"
proof -
  let ?m = "rb_maxEntries r"
  have m: "0 < ?m" "rb_head r < ?m" "length (rb_buf r) = ?m" "rb_size r \<le> ?m"
    using assms(1) by (simp_all add: rb_inv_def)
  obtain old r' where p: "pop_head r = Some (old, r')"
    using m by (simp add: pop_head_def Let_def)
  obtain e q where q: "contents r = e # q"
    using assms(2) contents_Nil_iff[of r] by (cases "contents r") auto
  have f: "rb_size r' = rb_size r - 1" "rb_maxEntries r' = ?m" "rb_maxBytes r' = rb_maxBytes r"
    "rb_closed r' = rb_closed r" "rb_notify r' = rb_notify r" "rb_drops r' = rb_drops r"
    "old = slot r 0" "rb_bytes r' = rb_bytes r - approxBytes old" "length (rb_buf r') = ?m"
    "rb_head r' < ?m"
    using p m by (auto simp: pop_head_def slot_def Let_def)
  have s: "slot r' i = slot r (Suc i)" if "i < rb_size r - 1" for i
  proof (rule slot_pop(1)[OF assms(1) p])
    show "Suc i < ?m" using that m(4) by linarith
  qed
  have "contents r' = tl (contents r)"
    by (rule nth_equalityI) (simp_all add: f s nth_tl)
  then have c: "contents r' = q" by (simp add: q)
  have "slot r 0 \<noteq> None" using assms by (simp add: rb_inv_def)
  moreover have "e = the (slot r 0)" using contents_nth[OF assms(2)] q by simp
  ultimately have old: "old = Some e" using f(7) by simp
  have none: "slot r' i = None" if "i < ?m" "rb_size r' \<le> i" for i
  proof (cases "Suc i < ?m")
    case True
    then show ?thesis
      using slot_pop(1)[OF assms(1) p True] assms(1) that f(1) by (simp add: rb_inv_def)
  next
    case False
    then have "i = ?m - 1" using that by linarith
    then show ?thesis using slot_pop(2)[OF assms(1) p] by simp
  qed
  have "rb_bytes r = total_cost (contents r)" using assms(1) by (simp add: rb_inv_def)
  then have b: "rb_bytes r' = total_cost (contents r')" by (simp add: f(8) old q c)
  have "rb_bytes r' \<le> rb_bytes r" using f(8) old cost_pos[of e] by simp
  then have caps: "0 < rb_maxBytes r' \<Longrightarrow> rb_bytes r' \<le> rb_maxBytes r' \<or> rb_size r' \<le> 1"
    using assms(1) f(1,3) by (auto simp: rb_inv_def)
  have full: "slot r' i \<noteq> None" if "i < rb_size r'" for i
    using s[of i] that assms(1) f(1) by (simp add: rb_inv_def)
  have "0 < ?m" "rb_size r' \<le> ?m" using assms(1) f(1) by (auto simp: rb_inv_def)
  then have inv: "rb_inv r'"
    unfolding rb_inv_def using f(2,9,10) full none b caps by presburger
  have "same_caps r r'" by (simp add: same_caps_def f(2,3))
  from that[OF q p[unfolded old] inv c f(1) this f(4,5,6)] show ?thesis .
qed

section \<open>What a push evicts\<close>

definition fits :: "nat \<Rightarrow> int \<Rightarrow> int \<Rightarrow> LogEntry list \<Rightarrow> bool" where
  "fits n mb cost q \<longleftrightarrow> q = [] \<or> (length q + 1 \<le> n \<and> (0 < mb \<longrightarrow> total_cost q + cost \<le> mb))"

lemma keep_fits: "fits n mb cost (keep n mb cost q)"
  by (induction n mb cost q rule: keep.induct) (auto simp: fits_def)

lemma keep_drop:
  obtains k where "k \<le> length q" "keep n mb cost q = drop k q" "\<forall>j<k. \<not> fits n mb cost (drop j q)"
proof (induction n mb cost q arbitrary: thesis rule: keep.induct)
  case (1 n mb cost)
  then show ?case by fastforce
next
  case (2 n mb cost e q)
  show ?case
  proof (cases "fits n mb cost (e # q)")
    case True
    then show ?thesis using "2.prems"[of 0] by (auto simp: fits_def)
  next
    case False
    then have c: "length (e # q) + 1 > n \<or> (0 < mb \<and> total_cost (e # q) + cost > mb)"
      by (auto simp: fits_def)
    from "2.IH"[OF c] obtain k where k: "k \<le> length q" "keep n mb cost q = drop k q"
      "\<forall>j<k. \<not> fits n mb cost (drop j q)" by blast
    have "\<not> fits n mb cost (drop j (e # q))" if "j < Suc k" for j
      using that k(3) False by (cases j) auto
    then show ?thesis using "2.prems"[of "Suc k"] k c by simp
  qed
qed

lemma over_cap_contents:
  assumes "rb_inv r"
  shows "over_cap cost r \<longleftrightarrow> \<not> fits (rb_maxEntries r) (rb_maxBytes r) cost (contents r)"
  using assms by (auto simp: over_cap_def fits_def rb_inv_def contents_Nil_iff)

lemma evict_loop_some:
  assumes "rb_inv r"
  shows "\<exists>r'. evict_loop cost r = Some r' \<and> rb_inv r' \<and> same_caps r r'
    \<and> contents r' = keep (rb_maxEntries r) (rb_maxBytes r) cost (contents r)
    \<and> rb_closed r' = rb_closed r \<and> rb_notify r' = rb_notify r
    \<and> rb_size r' \<le> rb_size r \<and> rb_drops r' = rb_drops r + of_nat (rb_size r - rb_size r')
    \<and> \<not> over_cap cost r'"
  using assms
proof (induction cost r rule: evict_loop.induct)
  case (1 cost r)
  show ?case
  proof (cases "over_cap cost r")
    case False
    then have "fits (rb_maxEntries r) (rb_maxBytes r) cost (contents r)"
      using over_cap_contents "1.prems" by blast
    then have "keep (rb_maxEntries r) (rb_maxBytes r) cost (contents r) = contents r"
      by (cases "contents r") (auto simp: fits_def)
    then show ?thesis using False "1.prems"
      by (subst evict_loop.simps) (simp add: same_caps_def)
  next
    case True
    then have pos: "0 < rb_size r" using "1.prems" by (auto simp: over_cap_def rb_inv_def)
    obtain e q r1 where
      r1: "contents r = e # q" "pop_head r = Some (Some e, r1)" "rb_inv r1" "contents r1 = q"
        "rb_size r1 = rb_size r - 1" "same_caps r r1" "rb_closed r1 = rb_closed r"
        "rb_notify r1 = rb_notify r" "rb_drops r1 = rb_drops r"
      by (rule pop_head_some[OF "1.prems" pos])
    let ?r2 = "r1\<lparr>rb_drops := rb_drops r1 + 1\<rparr>"
    have i2: "rb_inv ?r2" using r1(3) by simp
    from "1.IH"[OF True r1(2) refl i2] obtain r' where
      r': "evict_loop cost ?r2 = Some r'" "rb_inv r'" "same_caps ?r2 r'"
        "contents r' = keep (rb_maxEntries ?r2) (rb_maxBytes ?r2) cost (contents ?r2)"
        "rb_closed r' = rb_closed ?r2" "rb_notify r' = rb_notify ?r2" "rb_size r' \<le> rb_size ?r2"
        "rb_drops r' = rb_drops ?r2 + of_nat (rb_size ?r2 - rb_size r')" "\<not> over_cap cost r'"
      by blast
    have k: "keep (rb_maxEntries r) (rb_maxBytes r) cost (e # q)
        = keep (rb_maxEntries r) (rb_maxBytes r) cost q"
      using True over_cap_contents[OF "1.prems", of cost] r1(1) by (auto simp: fits_def)
    have "rb_size r - rb_size r' = Suc (rb_size ?r2 - rb_size r')"
      using r'(7) r1(5) pos by simp
    then have d: "rb_drops r' = rb_drops r + of_nat (rb_size r - rb_size r')"
      using r'(8) r1(9) by simp
    have e: "evict_loop cost r = Some r'"
      using True r1(2) r'(1) by (subst evict_loop.simps) simp
    show ?thesis
      using e r' r1(4-8) d k by (auto simp: same_caps_def r1(1))
  qed
qed

section \<open>The operations refine the abstract queue\<close>

lemma slot_push:
  assumes "rb_inv r" "rb_size r < rb_maxEntries r"
    and "r' = r\<lparr>rb_buf := (rb_buf r)[(rb_head r + rb_size r) mod rb_maxEntries r := Some e],
             rb_size := rb_size r + 1, rb_bytes := b, rb_notify := nt\<rparr>"
  shows "\<And>i. i < rb_maxEntries r \<Longrightarrow> slot r' i = (if i = rb_size r then Some e else slot r i)"
proof -
  fix i assume i: "i < rb_maxEntries r"
  let ?m = "rb_maxEntries r" and ?h = "rb_head r"
  have m: "0 < ?m" "length (rb_buf r) = ?m" using assms(1) by (auto simp: rb_inv_def)
  have "(?h + rb_size r) mod ?m = (?h + i) mod ?m \<longleftrightarrow> i = rb_size r"
    using mod_add_inj[OF assms(2) i] by auto
  then show "slot r' i = (if i = rb_size r then Some e else slot r i)"
    using m by (simp add: assms(3) slot_def nth_list_update)
qed

lemma append_slot:
  assumes "rb_inv r" "\<not> over_cap (cost_of e) r"
    and r': "r' = r\<lparr>rb_buf := (rb_buf r)[(rb_head r + rb_size r) mod rb_maxEntries r := Some e],
             rb_size := rb_size r + 1, rb_bytes := rb_bytes r + cost_of e, rb_notify := True\<rparr>"
  shows "rb_inv r' \<and> contents r' = contents r @ [e]"
proof -
  let ?m = "rb_maxEntries r"
  have lt: "rb_size r < ?m" using assms(2) by (auto simp: over_cap_def)
  note sl = slot_push[OF assms(1) lt r']
  have f: "rb_size r' = Suc (rb_size r)" "rb_maxEntries r' = ?m" "rb_head r' = rb_head r"
    "rb_maxBytes r' = rb_maxBytes r" "rb_bytes r' = rb_bytes r + cost_of e"
    "length (rb_buf r') = length (rb_buf r)"
    by (simp_all add: r')
  have c: "contents r' = contents r @ [e]"
    by (rule nth_equalityI) (use lt in \<open>auto simp: f nth_append sl less_Suc_eq\<close>)
  have "rb_bytes r' \<le> rb_maxBytes r' \<or> rb_size r' \<le> 1" if "0 < rb_maxBytes r'"
    using assms(2) that by (auto simp: over_cap_def f)
  moreover have "rb_bytes r' = total_cost (contents r')"
    using assms(1) by (simp add: f c rb_inv_def)
  ultimately have "rb_inv r'"
    using assms(1) lt unfolding rb_inv_def f by (auto simp: sl less_Suc_eq)
  with c show ?thesis by simp
qed

lemma Push_some:
  assumes "rb_inv r" "\<not> rb_closed r"
  obtains r' where "Push r (Some e) = Some (True, r')" "rb_inv r'" "same_caps r r'"
    "contents r' = keep (rb_maxEntries r) (rb_maxBytes r) (cost_of e) (contents r) @ [e]"
    "rb_notify r'" "\<not> rb_closed r'"
    "rb_drops r' = rb_drops r + of_nat (Suc (length (contents r)) - length (contents r'))"
proof -
  from evict_loop_some[OF assms(1), of "cost_of e"] obtain r1 where r1:
    "evict_loop (cost_of e) r = Some r1" "rb_inv r1" "same_caps r r1"
    "contents r1 = keep (rb_maxEntries r) (rb_maxBytes r) (cost_of e) (contents r)"
    "rb_closed r1 = rb_closed r" "rb_drops r1 = rb_drops r + of_nat (rb_size r - rb_size r1)"
    "\<not> over_cap (cost_of e) r1" by blast
  let ?r' = "r1\<lparr>rb_buf := (rb_buf r1)[(rb_head r1 + rb_size r1) mod rb_maxEntries r1 := Some e],
             rb_size := rb_size r1 + 1, rb_bytes := rb_bytes r1 + cost_of e, rb_notify := True\<rparr>"
  have a: "rb_inv ?r'" "contents ?r' = contents r1 @ [e]"
    using append_slot[OF r1(2,7) refl] by auto
  have p: "Push r (Some e) = Some (True, ?r')"
    using assms(2) r1(1,2) by (auto simp: Push_def Let_def rb_inv_def not_le)
  have s: "same_caps r ?r'" using r1(3) by (simp add: same_caps_def)
  have n: "rb_notify ?r'" "\<not> rb_closed ?r'" using r1(5) assms(2) by simp_all
  have d: "rb_drops ?r' = rb_drops r + of_nat (Suc (length (contents r)) - length (contents ?r'))"
    using r1(6) by simp
  from a(2) r1(4) have c: "contents ?r'
    = keep (rb_maxEntries r) (rb_maxBytes r) (cost_of e) (contents r) @ [e]" by simp
  show ?thesis by (rule that[OF p a(1) s c n d])
qed

lemma pop_loop_some:
  assumes "rb_inv r" "length out \<le> n"
  shows "\<exists>r'. pop_loop n out r = Some (out @ map Some (take (n - length out) (contents r)), r')
    \<and> rb_inv r' \<and> same_caps r r' \<and> contents r' = drop (n - length out) (contents r)
    \<and> rb_closed r' = rb_closed r \<and> rb_notify r' = rb_notify r \<and> rb_drops r' = rb_drops r"
  using assms
proof (induction n out r rule: pop_loop.induct)
  case (1 n out r)
  show ?case
  proof (cases "length out < n \<and> rb_size r > 0")
    case False
    then have "n - length out = 0 \<or> contents r = []"
      by (auto simp: contents_Nil_iff)
    then have "take (n - length out) (contents r) = []" "drop (n - length out) (contents r) = contents r"
      by auto
    moreover have "pop_loop n out r = Some (out, r)"
      using False by (subst pop_loop.simps) (rule if_not_P)
    ultimately show ?thesis using "1.prems"(1) by (simp add: same_caps_def)
  next
    case True
    obtain e q r1 where
      r1: "contents r = e # q" "pop_head r = Some (Some e, r1)" "rb_inv r1" "contents r1 = q"
        "rb_size r1 = rb_size r - 1" "same_caps r r1" "rb_closed r1 = rb_closed r"
        "rb_notify r1 = rb_notify r" "rb_drops r1 = rb_drops r"
      by (rule pop_head_some[OF "1.prems"(1)]) (use True in simp)
    have le: "length (out @ [Some e]) \<le> n" using True by simp
    obtain r' where r': "pop_loop n (out @ [Some e]) r1
        = Some ((out @ [Some e]) @ map Some (take (n - length (out @ [Some e])) (contents r1)), r')"
      "rb_inv r'" "same_caps r1 r'" "contents r' = drop (n - length (out @ [Some e])) (contents r1)"
      "rb_closed r' = rb_closed r1" "rb_notify r' = rb_notify r1" "rb_drops r' = rb_drops r1"
      using "1.IH"[OF True r1(2) refl r1(3) le] by auto
    obtain k where k: "n - length out = Suc k" "n - length (out @ [Some e]) = k"
      using True that[of "n - Suc (length out)"] by (simp add: Suc_diff_Suc)
    have e1: "pop_loop n out r = pop_loop n (out @ [Some e]) r1"
      using True r1(2) by (subst pop_loop.simps) simp
    have "same_caps r r'" using r'(3) r1(6) by (simp add: same_caps_def)
    then show ?thesis
      using r' r1(4,7-9) k by (auto simp: e1 r1(1))
  qed
qed

lemma PopBatch_some:
  assumes "rb_inv r" "n \<le> max_make"
  obtains r' where "PopBatch r n = Some (map Some (take (nat n) (contents r)), r')" "rb_inv r'"
    "same_caps r r'" "contents r' = drop (nat n) (contents r)"
    "rb_closed r' = rb_closed r" "rb_notify r' = rb_notify r" "rb_drops r' = rb_drops r"
  using pop_loop_some[OF assms(1), of "[]" "nat n"] assms that
  by (cases "n \<le> 0") (auto simp: PopBatch_def same_caps_def)

lemma TryPop_some:
  assumes "rb_inv r"
  obtains "contents r = []" "TryPop r = Some (None, rb_closed r, r)"
  | e q r' where "contents r = e # q" "TryPop r = Some (Some e, False, r')" "rb_inv r'"
    "contents r' = q" "same_caps r r'" "rb_closed r' = rb_closed r" "rb_drops r' = rb_drops r"
proof (cases "rb_size r = 0")
  case True
  then have "contents r = []" by (simp add: contents_Nil_iff)
  with True that(1) show ?thesis by (simp add: TryPop_def)
next
  case False
  then have pos: "0 < rb_size r" by simp
  obtain e q r1 where
    r1: "contents r = e # q" "pop_head r = Some (Some e, r1)" "rb_inv r1" "contents r1 = q"
      "rb_size r1 = rb_size r - 1" "same_caps r r1" "rb_closed r1 = rb_closed r"
      "rb_notify r1 = rb_notify r" "rb_drops r1 = rb_drops r"
    by (rule pop_head_some[OF assms pos])
  have "TryPop r = Some (Some e, False, r1)" using False r1(2) by (simp add: TryPop_def)
  then show ?thesis using that(2) r1 by simp
qed

lemma NewRingBuffer_inv: "rb_inv (NewRingBuffer n mb)"
  by (auto simp: NewRingBuffer_def rb_inv_def slot_def contents_def Let_def)

lemma NewRingBuffer_drops: "rb_drops (NewRingBuffer n mb) = 0"
  by (simp add: NewRingBuffer_def Let_def)

lemma contents_New [simp]: "contents (NewRingBuffer n mb) = []"
  by (simp add: NewRingBuffer_def contents_def Let_def)

lemma Close_inv: "rb_inv r \<Longrightarrow> rb_inv (Close r)"
  by (simp add: Close_def)

lemma contents_Close [simp]: "contents (Close r) = contents r"
  by (simp add: Close_def)

section \<open>The contract of the queue and its clients\<close>

text \<open>The operations of a client: producers push, the consumer pops batches. \<open>run_queue\<close>
  performs a sequence and collects what was popped and which pushes were accepted.\<close>

datatype 'e qop = QPush 'e | QPop int

fun run_queue :: "('q \<Rightarrow> 'e option \<Rightarrow> (bool \<times> 'q) option) \<Rightarrow> ('q \<Rightarrow> int \<Rightarrow> ('e option list \<times> 'q) option)
    \<Rightarrow> 'e qop list \<Rightarrow> 'q \<Rightarrow> ('e option list \<times> 'e list \<times> 'q) option" where
  "run_queue push pop [] q = Some ([], [], q)"
| "run_queue push pop (QPush e # ops) q =
     (case push q (Some e) of
        None \<Rightarrow> None
      | Some (accepted, q1) \<Rightarrow>
          map_option (\<lambda>(out, acc, q'). (out, (if accepted then e # acc else acc), q'))
            (run_queue push pop ops q1))"
| "run_queue push pop (QPop n # ops) q =
     (case pop q n of
        None \<Rightarrow> None
      | Some (es, q1) \<Rightarrow>
          map_option (\<lambda>(out, acc, q'). (es @ out, acc, q')) (run_queue push pop ops q1))"

locale fifo_queue =
  fixes inv :: "'q \<Rightarrow> bool"
    and items :: "'q \<Rightarrow> 'e list"
    and is_open :: "'q \<Rightarrow> bool"
    and lost :: "'q \<Rightarrow> 64 word"
    and static :: "'q \<Rightarrow> 'c"
    and push :: "'q \<Rightarrow> 'e option \<Rightarrow> (bool \<times> 'q) option"
    and pop :: "'q \<Rightarrow> int \<Rightarrow> ('e option list \<times> 'q) option"
    and poppable :: "int \<Rightarrow> bool"
  assumes push_open: "inv q \<Longrightarrow> is_open q \<Longrightarrow>
      \<exists>q' k. push q (Some e) = Some (True, q') \<and> inv q' \<and> is_open q' \<and> k \<le> length (items q)
        \<and> items q' = drop k (items q) @ [e] \<and> lost q' = lost q + of_nat k \<and> static q' = static q"
    and push_closed: "inv q \<Longrightarrow> \<not> is_open q \<Longrightarrow> push q (Some e) = Some (False, q)"
    and pop_take: "inv q \<Longrightarrow> poppable n \<Longrightarrow>
      \<exists>q'. pop q n = Some (map Some (take (nat n) (items q)), q') \<and> inv q'
        \<and> is_open q' = is_open q \<and> items q' = drop (nat n) (items q) \<and> lost q' = lost q
        \<and> static q' = static q"
begin

lemma run_fifo:
  "inv q \<Longrightarrow> \<forall>n. QPop n \<in> set ops \<longrightarrow> poppable n \<Longrightarrow> \<exists>outs acc q'. run_queue push pop ops q = Some (map Some outs, acc, q') \<and> inv q'
     \<and> static q' = static q \<and> subseq (outs @ items q') (items q @ acc)
     \<and> of_nat (length outs + length (items q')) + lost q'
       = of_nat (length (items q) + length acc) + lost q"
proof (induction ops arbitrary: q)
  case Nil
  then show ?case by (intro exI[of _ "[]"]) auto
next
  case (Cons x ops)
  have p: "\<forall>n. QPop n \<in> set ops \<longrightarrow> poppable n" using Cons.prems(2) by simp
  show ?case
  proof (cases x)
    case (QPush e)
    show ?thesis
    proof (cases "is_open q")
      case True
      from push_open[OF Cons.prems(1) True, of e] obtain q1 k where q1: "push q (Some e) = Some (True, q1)"
        "inv q1" "k \<le> length (items q)" "items q1 = drop k (items q) @ [e]" "lost q1 = lost q + of_nat k"
        "static q1 = static q" by blast
      from Cons.IH[OF q1(2) p] obtain outs acc q' where
        r: "run_queue push pop ops q1 = Some (map Some outs, acc, q')" "inv q' \<and> static q' = static q1"
          "subseq (outs @ items q') (items q1 @ acc)"
          "of_nat (length outs + length (items q')) + lost q' = of_nat (length (items q1) + length acc) + lost q1"
        by blast
      have "subseq (drop k (items q) @ e # acc) (items q @ e # acc)"
        by (intro list_emb_append_mono suffix_imp_subseq suffix_drop) simp
      with r(3) have "subseq (outs @ items q') (items q @ e # acc)"
        unfolding q1(4) by (auto intro: subseq_order.order_trans)
      moreover have "of_nat (length outs + length (items q')) + lost q'
          = of_nat (length (items q) + length (e # acc)) + lost q"
        using r(4) q1(3) by (simp add: q1(4,5))
      ultimately show ?thesis
        using r(2) q1(6) by (intro exI[of _ outs] exI[of _ "e # acc"] exI[of _ q']) (simp add: QPush q1(1) r(1))
    next
      case False
      then show ?thesis
        using push_closed[OF Cons.prems(1) False, of e] Cons.IH[OF Cons.prems(1) p] by (auto simp: QPush)
    qed
  next
    case (QPop n)
    then have "poppable n" using Cons.prems(2) by simp
    from pop_take[OF Cons.prems(1) this] obtain q1 where q1:
      "pop q n = Some (map Some (take (nat n) (items q)), q1)" "inv q1"
      "items q1 = drop (nat n) (items q)" "lost q1 = lost q" "static q1 = static q"
      by blast
    from Cons.IH[OF q1(2) p] obtain outs acc q' where
      r: "run_queue push pop ops q1 = Some (map Some outs, acc, q')" "inv q' \<and> static q' = static q1"
        "subseq (outs @ items q') (items q1 @ acc)"
        "of_nat (length outs + length (items q')) + lost q' = of_nat (length (items q1) + length acc) + lost q1"
      by blast
    have "subseq (take (nat n) (items q) @ outs @ items q') (take (nat n) (items q) @ items q1 @ acc)"
      by (rule list_emb_append_mono[OF subseq_order.order_refl r(3)])
    then have sub: "subseq ((take (nat n) (items q) @ outs) @ items q') (items q @ acc)"
      by (simp add: q1(3) del: append_assoc flip: append_assoc)
    have "length (take (nat n) (items q)) + length (items q1) = length (items q)"
      by (simp add: q1(3))
    then have "(of_nat (length (items q)) :: 64 word)
        = of_nat (length (take (nat n) (items q))) + of_nat (length (items q1))"
      by (metis of_nat_add)
    then have "of_nat (length (take (nat n) (items q) @ outs) + length (items q')) + lost q'
          = of_nat (length (items q) + length acc) + lost q"
      using r(4) q1(4) by (simp add: algebra_simps)
    with sub r(2) q1(5) show ?thesis
      by (intro exI[of _ "take (nat n) (items q) @ outs"] exI[of _ acc] exI[of _ q'])
         (simp add: QPop q1(1) r(1))
  qed
qed

end

interpretation rq: fifo_queue rb_inv contents "\<lambda>r. \<not> rb_closed r" rb_drops
  "\<lambda>r. (rb_maxEntries r, rb_maxBytes r)" Push PopBatch "\<lambda>n. n \<le> max_make"
proof unfold_locales
  fix r :: RingBuffer and e
  assume inv: "rb_inv r"
  show "\<exists>q' k. Push r (Some e) = Some (True, q') \<and> rb_inv q' \<and> \<not> rb_closed q'
      \<and> k \<le> length (contents r) \<and> contents q' = drop k (contents r) @ [e]
      \<and> rb_drops q' = rb_drops r + of_nat k
      \<and> (rb_maxEntries q', rb_maxBytes q') = (rb_maxEntries r, rb_maxBytes r)" if op: "\<not> rb_closed r"
  proof -
    obtain k where k: "k \<le> length (contents r)"
      "keep (rb_maxEntries r) (rb_maxBytes r) (cost_of e) (contents r) = drop k (contents r)"
      by (rule keep_drop)
    obtain r' where "Push r (Some e) = Some (True, r')" "rb_inv r'" "same_caps r r'"
      "contents r' = keep (rb_maxEntries r) (rb_maxBytes r) (cost_of e) (contents r) @ [e]"
      "rb_notify r'" "\<not> rb_closed r'"
      "rb_drops r' = rb_drops r + of_nat (Suc (length (contents r)) - length (contents r'))"
      by (rule Push_some[OF inv op])
    then show ?thesis using k by (intro exI[of _ r'] exI[of _ k]) (simp add: same_caps_def)
  qed
next
  fix r :: RingBuffer and e
  assume "\<not> \<not> rb_closed r"
  then show "Push r (Some e) = Some (False, r)" by (simp add: Push_def)
next
  fix r :: RingBuffer and n
  assume "rb_inv r" "n \<le> max_make"
  then show "\<exists>q'. PopBatch r n = Some (map Some (take (nat n) (contents r)), q') \<and> rb_inv q'
      \<and> (\<not> rb_closed q') = (\<not> rb_closed r) \<and> contents q' = drop (nat n) (contents r)
      \<and> rb_drops q' = rb_drops r
      \<and> (rb_maxEntries q', rb_maxBytes q') = (rb_maxEntries r, rb_maxBytes r)"
    by (rule PopBatch_some) (auto simp: same_caps_def)
qed

section \<open>Properties\<close>

text \<open>C4. A push on an open ring succeeds, keeps the invariant, evicts exactly the shortest
  prefix of oldest entries after which the new entry fits both caps, counts each evicted entry in
  \<^verbatim>\<open>Drops\<close>, appends the new entry at the end, and leaves a token on the notify channel.\<close>

theorem Push_drops_oldest:
  assumes "rb_inv r" "\<not> rb_closed r"
  shows "\<exists>r' k. Push r (Some e) = Some (True, r') \<and> rb_inv r' \<and> k \<le> length (contents r)
    \<and> contents r' = drop k (contents r) @ [e] \<and> Drops r' = Drops r + of_nat k
    \<and> fits (rb_maxEntries r) (rb_maxBytes r) (approxBytes (Some e)) (drop k (contents r))
    \<and> (\<forall>j<k. \<not> fits (rb_maxEntries r) (rb_maxBytes r) (approxBytes (Some e)) (drop j (contents r)))
    \<and> rb_notify r'"
proof -
  obtain k where k: "k \<le> length (contents r)"
    "keep (rb_maxEntries r) (rb_maxBytes r) (cost_of e) (contents r) = drop k (contents r)"
    "\<forall>j<k. \<not> fits (rb_maxEntries r) (rb_maxBytes r) (cost_of e) (drop j (contents r))"
    by (rule keep_drop)
  obtain r' where "Push r (Some e) = Some (True, r')" "rb_inv r'" "same_caps r r'"
    "contents r' = keep (rb_maxEntries r) (rb_maxBytes r) (cost_of e) (contents r) @ [e]"
    "rb_notify r'" "\<not> rb_closed r'"
    "rb_drops r' = rb_drops r + of_nat (Suc (length (contents r)) - length (contents r'))"
    by (rule Push_some[OF assms])
  moreover have "fits (rb_maxEntries r) (rb_maxBytes r) (cost_of e) (drop k (contents r))"
    using keep_fits k(2) by metis
  ultimately show ?thesis using k by (intro exI[of _ r'] exI[of _ k]) (simp add: Drops_def)
qed

theorem Push_drops_oldest_witness:
  "\<exists>r' k. Push (NewRingBuffer 2 300) (Some zero_entry) = Some (True, r') \<and> rb_inv r' \<and> k = 0
    \<and> contents r' = [zero_entry]"
proof -
  have "\<not> rb_closed (NewRingBuffer 2 300)" by (simp add: NewRingBuffer_def)
  from Push_drops_oldest[OF NewRingBuffer_inv this, of zero_entry] show ?thesis by auto
qed

text \<open>C5. Any sequence of pushes and batch pops on a fresh ring runs without a panic (no pop asks for more than a slice
  can hold) and is a lossy FIFO: what has been popped, followed by what is still buffered, is a
  subsequence in order of the accepted entries (nothing duplicated, reordered or invented), and
  the number of missing entries is exactly the \<^verbatim>\<open>Drops\<close> counter (modulo \<open>2\<^sup>6\<^sup>4\<close>).\<close>

theorem ring_lossy_fifo:
  assumes "\<forall>k. QPop k \<in> set ops \<longrightarrow> k \<le> max_make"
  shows "\<exists>outs acc r'. run_queue Push PopBatch ops (NewRingBuffer n mb) = Some (map Some outs, acc, r')
     \<and> rb_inv r' \<and> subseq (outs @ contents r') acc
     \<and> of_nat (length outs + length (contents r')) + Drops r' = of_nat (length acc)"
  using rq.run_fifo[OF NewRingBuffer_inv assms, of n mb]
  by (auto simp: Drops_def NewRingBuffer_drops)

theorem ring_lossy_fifo_witness:
  "\<exists>outs acc r'. run_queue Push PopBatch [QPush zero_entry, QPush zero_entry, QPop 1] (NewRingBuffer 1 0) = Some (map Some outs, acc, r')
     \<and> subseq (outs @ contents r') acc
     \<and> of_nat (length outs + length (contents r')) + Drops r' = of_nat (length acc)"
proof -
  have "\<forall>k. QPop k \<in> set [QPush zero_entry, QPush zero_entry, QPop 1] \<longrightarrow> k \<le> max_make" by (simp add: max_make_def)
  from ring_lossy_fifo[OF this, of 1 0] show ?thesis by blast
qed

text \<open>C6. Memory bound: every ring reached from a fresh one holds at most \<^verbatim>\<open>maxEntries\<close> entries
  (10000 when the configured value is not positive), its byte counter is the estimated footprint
  of what it holds, and when a byte cap is set that footprint stays within it unless a single
  entry alone exceeds it.\<close>

theorem ring_bounded:
  assumes "\<forall>k. QPop k \<in> set ops \<longrightarrow> k \<le> max_make"
  shows "\<exists>outs acc r'. run_queue Push PopBatch ops (NewRingBuffer n mb) = Some (outs, acc, r')
     \<and> int (Len r') \<le> (if n \<le> 0 then 10000 else n)
     \<and> rb_bytes r' = total_cost (contents r')
     \<and> (mb \<le> 0 \<or> rb_bytes r' \<le> mb \<or> Len r' \<le> 1)"
proof -
  from rq.run_fifo[OF NewRingBuffer_inv assms, of n mb] obtain outs acc r' where
    r': "run_queue Push PopBatch ops (NewRingBuffer n mb) = Some (map Some outs, acc, r')"
      "rb_inv r'" "rb_maxEntries r' = rb_maxEntries (NewRingBuffer n mb)"
      "rb_maxBytes r' = rb_maxBytes (NewRingBuffer n mb)" by blast
  from r'(3,4) have "int (rb_maxEntries r') = (if n \<le> 0 then 10000 else n)" "rb_maxBytes r' = mb"
    by (auto simp: NewRingBuffer_def Let_def)
  with r'(2) have "int (Len r') \<le> (if n \<le> 0 then 10000 else n)
     \<and> rb_bytes r' = total_cost (contents r') \<and> (mb \<le> 0 \<or> rb_bytes r' \<le> mb \<or> Len r' \<le> 1)"
    unfolding rb_inv_def Len_def by linarith
  with r'(1) show ?thesis by blast
qed

theorem ring_bounded_witness:
  "\<exists>outs acc r'. run_queue Push PopBatch [QPush zero_entry, QPop 7, QPush zero_entry] (NewRingBuffer 3 100) = Some (outs, acc, r')
     \<and> int (Len r') \<le> 3 \<and> (rb_bytes r' \<le> 100 \<or> Len r' \<le> 1)"
proof -
  have "\<forall>k. QPop k \<in> set [QPush zero_entry, QPop 7, QPush zero_entry] \<longrightarrow> k \<le> max_make" by (simp add: max_make_def)
  from ring_bounded[OF this, of 3 100] show ?thesis by auto
qed

end
