(* ===== verification/Batcher.thy ===== *)
theory Batcher
  imports Ring_Buffer
begin

text \<open>
  \<^verbatim>\<open>src/internal/pipeline/batcher.go\<close>: the goroutine that drains the ring into batches. The
  \<^verbatim>\<open>select\<close> loop of \<^verbatim>\<open>Run\<close> is a step relation: one rule per ready channel, plus the steps of the
  environment (producers pushing, the ring being closed, the context being cancelled, the timer
  firing), interleaved in any order. The batches handed to the flush callback and the entries
  accepted by the ring are recorded as history fields. A panic of a handler (an allocation beyond \<open>max_make\<close>,
  an index out of range in the ring, or one of the callback) is caught by the deferred \<^verbatim>\<open>recover\<close>, which ends
  \<^verbatim>\<open>Run\<close>: the state is then \<open>Panicked\<close>.
\<close>

section \<open>State and handlers\<close>

text \<open>The flush callback gets whether its context is already cancelled, the state of the
  world and the batch; its error is only logged, and it may panic.\<close>

datatype flush_result = FlushOk | FlushErr | FlushPanic

record 'w BatcherConfig =
  BatchSize :: int
  BatchInterval :: int
  Flush :: "(bool \<Rightarrow> 'w \<Rightarrow> LogEntry option list \<Rightarrow> 'w \<times> flush_result) option"

definition NewBatcher :: "'w BatcherConfig \<Rightarrow> 'w BatcherConfig" where
  "NewBatcher cfg =
     (let c1 = (if BatchSize cfg \<le> 0 then cfg\<lparr>BatchSize := 100\<rparr> else cfg)
      in if BatchInterval c1 \<le> 0 then c1\<lparr>BatchInterval := 5 * 1000000000\<rparr> else c1)"

datatype run_status = NotStarted | Running | Returned | Panicked

text \<open>\<open>b_tick\<close>: \<^verbatim>\<open>timer.C\<close> holds a tick; \<open>b_armed\<close>: the timer is counting.\<close>

record 'w bstate =
  b_ring :: RingBuffer
  b_pending :: "LogEntry option list"
  b_world :: 'w
  b_ctx :: bool
  b_armed :: bool
  b_tick :: bool
  b_run :: run_status
  b_flushed :: "(bool \<times> LogEntry option list) list"
  b_accepted :: "LogEntry list"

text \<open>The deferred \<^verbatim>\<open>recover\<close>: \<^verbatim>\<open>Run\<close> returns and its pending batch is gone.\<close>

definition recovered :: "'w bstate \<Rightarrow> 'w bstate" where
  "recovered s = s\<lparr>b_pending := [], b_run := Panicked\<rparr>"

definition unwind :: "('w bstate \<Rightarrow> 'w bstate) \<Rightarrow> 'w bstate \<Rightarrow> 'w bstate option \<Rightarrow> 'w bstate" where
  "unwind f s r = (case r of None \<Rightarrow> recovered s | Some s1 \<Rightarrow> f s1)"

definition unless_panicked :: "('w bstate \<Rightarrow> 'w bstate) \<Rightarrow> 'w bstate \<Rightarrow> 'w bstate" where
  "unless_panicked f s = (if b_run s = Panicked then s else f s)"

definition flush :: "'w BatcherConfig \<Rightarrow> 'w bstate \<Rightarrow> 'w bstate" where
  "flush cfg s =
     (if b_pending s = [] then s
      else if max_make < BatchSize cfg then recovered s
      else let batch = b_pending s; s1 = s\<lparr>b_pending := []\<rparr> in
        case Flush cfg of
          None \<Rightarrow> s1
        | Some f \<Rightarrow> s1\<lparr>b_world := fst (f (b_ctx s) (b_world s) batch),
                         b_flushed := b_flushed s @ [(b_ctx s, batch)],
                         b_run := if snd (f (b_ctx s) (b_world s) batch) = FlushPanic then Panicked else b_run s\<rparr>)"

definition drain :: "'w BatcherConfig \<Rightarrow> 'w bstate \<Rightarrow> 'w bstate option" where
  "drain cfg s =
     (case PopBatch (b_ring s) (BatchSize cfg - int (length (b_pending s))) of
        None \<Rightarrow> None
      | Some (popped, r') \<Rightarrow> Some (s\<lparr>b_ring := r', b_pending := b_pending s @ popped\<rparr>))"

definition resetTimer :: "'w bstate \<Rightarrow> 'w bstate" where
  "resetTimer s = s\<lparr>b_tick := False, b_armed := True\<rparr>"

definition flush_if_full :: "'w BatcherConfig \<Rightarrow> 'w bstate \<Rightarrow> 'w bstate" where
  "flush_if_full cfg s =
     (if int (length (b_pending s)) \<ge> BatchSize cfg then unless_panicked resetTimer (flush cfg s) else s)"

text \<open>The statements before the loop, and the four branches of the \<^verbatim>\<open>select\<close>.\<close>

definition Run_start :: "'w BatcherConfig \<Rightarrow> 'w bstate \<Rightarrow> 'w bstate" where
  "Run_start cfg s =
     (let s0 = s\<lparr>b_pending := [], b_armed := True, b_tick := False, b_run := Running\<rparr>
      in if max_make < BatchSize cfg then recovered s0
         else unwind (flush_if_full cfg) s0 (drain cfg s0))"

definition flush_and_return :: "'w BatcherConfig \<Rightarrow> 'w bstate \<Rightarrow> 'w bstate" where
  "flush_and_return cfg s = unless_panicked (\<lambda>s1. s1\<lparr>b_run := Returned\<rparr>) (flush cfg s)"

definition on_ctx_done :: "'w BatcherConfig \<Rightarrow> 'w bstate \<Rightarrow> 'w bstate" where
  "on_ctx_done cfg s = unwind (flush_and_return cfg) s (drain cfg s)"

definition on_closed :: "'w BatcherConfig \<Rightarrow> 'w bstate \<Rightarrow> 'w bstate" where
  "on_closed cfg s = unwind (flush_and_return cfg) s (drain cfg s)"

definition on_timer :: "'w BatcherConfig \<Rightarrow> 'w bstate \<Rightarrow> 'w bstate" where
  "on_timer cfg s = unless_panicked resetTimer (flush cfg (s\<lparr>b_tick := False\<rparr>))"

definition on_notify :: "'w BatcherConfig \<Rightarrow> 'w bstate \<Rightarrow> 'w bstate" where
  "on_notify cfg s =
     (let s0 = s\<lparr>b_ring := (b_ring s)\<lparr>rb_notify := False\<rparr>\<rparr> in unwind (flush_if_full cfg) s0 (drain cfg s0))"

section \<open>The step relation\<close>

inductive batcher_step :: "'w BatcherConfig \<Rightarrow> 'w bstate \<Rightarrow> 'w bstate \<Rightarrow> bool" for cfg where
  produce: "Push (b_ring s) (Some e) = Some (acc, r') \<Longrightarrow>
     batcher_step cfg s (s\<lparr>b_ring := r', b_accepted := b_accepted s @ (if acc then [e] else [])\<rparr>)"
| close: "batcher_step cfg s (s\<lparr>b_ring := Close (b_ring s)\<rparr>)"
| cancel: "batcher_step cfg s (s\<lparr>b_ctx := True\<rparr>)"
| fire: "b_armed s \<Longrightarrow> batcher_step cfg s (s\<lparr>b_armed := False, b_tick := True\<rparr>)"
| start: "b_run s = NotStarted \<Longrightarrow> batcher_step cfg s (Run_start cfg s)"
| ctx_done: "b_run s = Running \<Longrightarrow> b_ctx s \<Longrightarrow> batcher_step cfg s (on_ctx_done cfg s)"
| ring_closed: "b_run s = Running \<Longrightarrow> rb_closed (b_ring s) \<Longrightarrow> batcher_step cfg s (on_closed cfg s)"
| timer: "b_run s = Running \<Longrightarrow> b_tick s \<Longrightarrow> batcher_step cfg s (on_timer cfg s)"
| notify: "b_run s = Running \<Longrightarrow> rb_notify (b_ring s) \<Longrightarrow> batcher_step cfg s (on_notify cfg s)"

definition batcher_init :: "int \<Rightarrow> int \<Rightarrow> 'w \<Rightarrow> 'w bstate" where
  "batcher_init n mb w =
     \<lparr>b_ring = NewRingBuffer n mb, b_pending = [], b_world = w, b_ctx = False, b_armed = False,
      b_tick = False, b_run = NotStarted, b_flushed = [], b_accepted = []\<rparr>"

inductive batcher_reach :: "'w BatcherConfig \<Rightarrow> int \<Rightarrow> int \<Rightarrow> 'w \<Rightarrow> 'w bstate \<Rightarrow> bool"
  for cfg n mb w where
  init: "batcher_reach cfg n mb w (batcher_init n mb w)"
| step: "batcher_reach cfg n mb w s \<Longrightarrow> batcher_step cfg s s' \<Longrightarrow> batcher_reach cfg n mb w s'"

section \<open>Invariant\<close>

text \<open>The entries of a list of slots that are all filled.\<close>

definition taken :: "'w bstate \<Rightarrow> LogEntry option list" where
  "taken s = concat (map snd (b_flushed s)) @ b_pending s"

definition conserved :: "'w bstate \<Rightarrow> bool" where
  "conserved s \<longleftrightarrow>
     (\<exists>es. taken s = map Some es \<and> subseq (es @ contents (b_ring s)) (b_accepted s)
        \<and> of_nat (length es + length (contents (b_ring s))) + rb_drops (b_ring s)
          = of_nat (length (b_accepted s)))"

definition batches_ok :: "'w BatcherConfig \<Rightarrow> 'w bstate \<Rightarrow> bool" where
  "batches_ok cfg s \<longleftrightarrow>
     (\<forall>(c, b)\<in>set (b_flushed s). b \<noteq> [] \<and> int (length b) \<le> BatchSize cfg)
     \<and> int (length (b_pending s)) < BatchSize cfg
     \<and> (b_run s \<noteq> Running \<longrightarrow> b_pending s = [])
     \<and> (b_run s = Running \<longrightarrow> BatchSize cfg \<le> max_make)"

definition timer_ok :: "'w bstate \<Rightarrow> bool" where
  "timer_ok s \<longleftrightarrow> (b_run s = Running \<longrightarrow> b_armed s \<or> b_tick s)"

definition batcher_inv :: "'w BatcherConfig \<Rightarrow> 'w bstate \<Rightarrow> bool" where
  "batcher_inv cfg s \<longleftrightarrow> rb_inv (b_ring s) \<and> conserved s \<and> batches_ok cfg s \<and> timer_ok s"

section \<open>Flushing and draining\<close>

lemma flush_frame [simp]:
  "b_ring (flush cfg s) = b_ring s" "b_pending (flush cfg s) = []" "b_ctx (flush cfg s) = b_ctx s"
  "b_armed (flush cfg s) = b_armed s" "b_tick (flush cfg s) = b_tick s" "b_accepted (flush cfg s) = b_accepted s"
  by (simp_all add: flush_def recovered_def Let_def split: option.splits)

lemma flush_run: "b_run (flush cfg s) = Panicked \<or> b_run (flush cfg s) = b_run s"
  by (simp add: flush_def recovered_def Let_def split: option.splits)

lemma flush_flushed:
  "Flush cfg \<noteq> None \<Longrightarrow> BatchSize cfg \<le> max_make \<Longrightarrow>
     b_flushed (flush cfg s)
       = (if b_pending s = [] then b_flushed s else b_flushed s @ [(b_ctx s, b_pending s)])"
  by (auto simp: flush_def Let_def)

lemma taken_flush: "Flush cfg \<noteq> None \<Longrightarrow> BatchSize cfg \<le> max_make \<Longrightarrow> taken (flush cfg s) = taken s"
  by (simp add: taken_def flush_flushed)

lemma resetTimer_frame [simp]:
  "b_ring (resetTimer s) = b_ring s" "b_pending (resetTimer s) = b_pending s"
  "b_ctx (resetTimer s) = b_ctx s" "b_run (resetTimer s) = b_run s"
  "b_flushed (resetTimer s) = b_flushed s" "b_accepted (resetTimer s) = b_accepted s"
  "b_armed (resetTimer s)" "\<not> b_tick (resetTimer s)" "taken (resetTimer s) = taken s"
  by (simp_all add: resetTimer_def taken_def)

text \<open>What a drain does: it moves the oldest entries, as many as still fit the batch.\<close>

lemma drain_some:
  assumes "rb_inv (b_ring s)" "BatchSize cfg \<le> max_make"
  obtains s' where "drain cfg s = Some s'" "rb_inv (b_ring s')"
    "b_pending s' = b_pending s
       @ map Some (take (nat (BatchSize cfg - int (length (b_pending s)))) (contents (b_ring s)))"
    "contents (b_ring s')
       = drop (nat (BatchSize cfg - int (length (b_pending s)))) (contents (b_ring s))"
    "rb_drops (b_ring s') = rb_drops (b_ring s)" "rb_closed (b_ring s') = rb_closed (b_ring s)"
    "rb_notify (b_ring s') = rb_notify (b_ring s)"
    "b_ctx s' = b_ctx s" "b_armed s' = b_armed s" "b_tick s' = b_tick s" "b_run s' = b_run s"
    "b_flushed s' = b_flushed s" "b_accepted s' = b_accepted s"
proof -
  have "BatchSize cfg - int (length (b_pending s)) \<le> max_make" using assms(2) by simp
  then obtain r' where r': "PopBatch (b_ring s) (BatchSize cfg - int (length (b_pending s)))
      = Some (map Some (take (nat (BatchSize cfg - int (length (b_pending s)))) (contents (b_ring s))), r')"
    "rb_inv r'" "same_caps (b_ring s) r'"
    "contents r' = drop (nat (BatchSize cfg - int (length (b_pending s)))) (contents (b_ring s))"
    "rb_closed r' = rb_closed (b_ring s)" "rb_notify r' = rb_notify (b_ring s)"
    "rb_drops r' = rb_drops (b_ring s)"
    by (rule PopBatch_some[OF assms(1)])
  show ?thesis
    by (rule that[of "s\<lparr>b_ring := r', b_pending := b_pending s @ map Some (take (nat (BatchSize cfg -
        int (length (b_pending s)))) (contents (b_ring s)))\<rparr>"]) (simp_all add: drain_def r')
qed

lemma drain_panics: "max_make < BatchSize cfg - int (length (b_pending s)) \<Longrightarrow> drain cfg s = None"
  by (simp add: drain_def PopBatch_def max_make_def)

lemma drainD:
  assumes "rb_inv (b_ring s)" "BatchSize cfg \<le> max_make" "drain cfg s = Some s'"
  defines "k \<equiv> nat (BatchSize cfg - int (length (b_pending s)))"
  shows "rb_inv (b_ring s')"
    and "b_pending s' = b_pending s @ map Some (take k (contents (b_ring s)))"
    and "contents (b_ring s') = drop k (contents (b_ring s))"
    and "rb_drops (b_ring s') = rb_drops (b_ring s)"
    and "rb_notify (b_ring s') = rb_notify (b_ring s)"
    and "b_ctx s' = b_ctx s" "b_armed s' = b_armed s" "b_tick s' = b_tick s" "b_run s' = b_run s"
    and "b_flushed s' = b_flushed s" "b_accepted s' = b_accepted s"
  unfolding k_def
  by (rule drain_some[OF assms(1,2)]; use assms(3) in simp)+

text \<open>A handler that drains never unwinds there.\<close>

lemma drain_handled:
  assumes "rb_inv (b_ring s)" "BatchSize cfg \<le> max_make"
  obtains s1 where "drain cfg s = Some s1" "unwind f s (drain cfg s) = f s1"
  by (rule drain_some[OF assms]) (auto simp: unwind_def intro: that)

lemma drain_conserved:
  assumes "rb_inv (b_ring s)" "BatchSize cfg \<le> max_make" "conserved s" "drain cfg s = Some s'"
  shows "conserved s'"
proof -
  let ?k = "nat (BatchSize cfg - int (length (b_pending s)))"
  note d = drainD[OF assms(1,2,4)]
  from assms(3) obtain es where es: "taken s = map Some es"
    "subseq (es @ contents (b_ring s)) (b_accepted s)"
    "of_nat (length es + length (contents (b_ring s))) + rb_drops (b_ring s)
       = of_nat (length (b_accepted s))" by (auto simp: conserved_def)
  let ?es = "es @ take ?k (contents (b_ring s))"
  have eq: "?es @ contents (b_ring s') = es @ contents (b_ring s)"
    unfolding d(3) by simp
  then have "length (?es @ contents (b_ring s')) = length (es @ contents (b_ring s))"
    by (rule arg_cong)
  then have "length ?es + length (contents (b_ring s')) = length es + length (contents (b_ring s))"
    by (simp only: length_append)
  moreover have "taken s' = map Some ?es"
    using es(1) by (simp add: taken_def d(2,10))
  ultimately show ?thesis
    unfolding conserved_def using es(2,3) by (intro exI[of _ ?es]) (simp only: eq d(4,11) simp_thms)
qed

lemma conserved_flush:
  "Flush cfg \<noteq> None \<Longrightarrow> BatchSize cfg \<le> max_make \<Longrightarrow> conserved (flush cfg s) = conserved s"
  by (simp add: conserved_def taken_flush)

lemma conserved_frame:
  "conserved (resetTimer s) = conserved s" "conserved (s\<lparr>b_run := q\<rparr>) = conserved s"
  "conserved (s\<lparr>b_ring := (b_ring s)\<lparr>rb_notify := b\<rparr>\<rparr>) = conserved s"
  "conserved (s\<lparr>b_ring := Close (b_ring s)\<rparr>) = conserved s"
  "conserved (s\<lparr>b_tick := b\<rparr>) = conserved s" "conserved (s\<lparr>b_armed := b\<rparr>) = conserved s"
  "conserved (s\<lparr>b_ctx := b\<rparr>) = conserved s"
  by (simp_all add: conserved_def taken_def Close_def)

section \<open>Every step keeps the invariant\<close>

definition batch_bound :: "'w BatcherConfig \<Rightarrow> 'w bstate \<Rightarrow> bool" where
  "batch_bound cfg s \<longleftrightarrow>
     (\<forall>(c, b)\<in>set (b_flushed s). b \<noteq> [] \<and> int (length b) \<le> BatchSize cfg)
     \<and> int (length (b_pending s)) \<le> BatchSize cfg"

text \<open>A configuration whose callback is set and whose batches can be allocated.\<close>

definition usable :: "'w BatcherConfig \<Rightarrow> bool" where
  "usable cfg \<longleftrightarrow> Flush cfg \<noteq> None \<and> 0 < BatchSize cfg \<and> BatchSize cfg \<le> max_make"

lemma batches_ok_bound: "batches_ok cfg s \<Longrightarrow> batch_bound cfg s"
  by (auto simp: batches_ok_def batch_bound_def)

text \<open>A flush, whether or not it panics, leaves the invariant of a running batcher, but for the timer.\<close>

lemma flush_inv:
  assumes "usable cfg" "rb_inv (b_ring s)" "conserved s" "batch_bound cfg s"
  shows "rb_inv (b_ring (flush cfg s))" "conserved (flush cfg s)" "batches_ok cfg (flush cfg s)"
  using assms by (auto simp: usable_def conserved_flush batch_bound_def batches_ok_def flush_flushed)

lemma flush_reset_inv:
  assumes "usable cfg" "rb_inv (b_ring s)" "conserved s" "batch_bound cfg s"
  shows "batcher_inv cfg (unless_panicked resetTimer (flush cfg s))"
  using flush_inv[OF assms]
  by (auto simp: unless_panicked_def batcher_inv_def conserved_frame timer_ok_def batches_ok_def)

lemma flush_return_inv:
  assumes "usable cfg" "rb_inv (b_ring s)" "conserved s" "batch_bound cfg s"
  shows "batcher_inv cfg (flush_and_return cfg s)"
  using flush_inv[OF assms]
  by (auto simp: flush_and_return_def unless_panicked_def batcher_inv_def conserved_frame timer_ok_def batches_ok_def)

lemma drain_bound:
  assumes "rb_inv (b_ring s)" "BatchSize cfg \<le> max_make" "batch_bound cfg s" "drain cfg s = Some s'"
  shows "batch_bound cfg s'"
  using assms(3) drainD(2,10)[OF assms(1,2,4)] by (auto simp: batch_bound_def)

text \<open>The two endings of a handler that drains: flush when full and go on, or flush and return.\<close>

lemma drain_flush_if_full:
  assumes "usable cfg" "rb_inv (b_ring s)" "conserved s" "batch_bound cfg s" "b_run s = Running" "b_armed s \<or> b_tick s"
  shows "batcher_inv cfg (unwind (flush_if_full cfg) s (drain cfg s))"
proof -
  have m: "BatchSize cfg \<le> max_make" using assms(1) by (simp add: usable_def)
  obtain s1 where s1: "drain cfg s = Some s1" "unwind (flush_if_full cfg) s (drain cfg s) = flush_if_full cfg s1"
    by (rule drain_handled[OF assms(2) m])
  note b = drain_bound[OF assms(2) m assms(4) s1(1)] and d = drainD[OF assms(2) m s1(1)]
    and c = drain_conserved[OF assms(2) m assms(3) s1(1)]
  have "batcher_inv cfg s1" if "int (length (b_pending s1)) < BatchSize cfg"
    using that d(1,7,8,9) b c assms(5,6) m by (simp add: batcher_inv_def timer_ok_def batches_ok_def batch_bound_def)
  then show ?thesis
    unfolding s1(2) flush_if_full_def using flush_reset_inv[OF assms(1) d(1) c b] by simp
qed

lemma drain_flush_return:
  assumes "usable cfg" "rb_inv (b_ring s)" "conserved s" "batch_bound cfg s"
  shows "batcher_inv cfg (unwind (flush_and_return cfg) s (drain cfg s))"
proof -
  have m: "BatchSize cfg \<le> max_make" using assms(1) by (simp add: usable_def)
  obtain s1 where s1: "drain cfg s = Some s1" "unwind (flush_and_return cfg) s (drain cfg s) = flush_and_return cfg s1"
    by (rule drain_handled[OF assms(2) m])
  show ?thesis
    unfolding s1(2) using flush_return_inv[OF assms(1) drainD(1)[OF assms(2) m s1(1)]
      drain_conserved[OF assms(2) m assms(3) s1(1)] drain_bound[OF assms(2) m assms(4) s1(1)]] .
qed

lemma produce_inv:
  assumes "batcher_inv cfg s" "Push (b_ring s) (Some e) = Some (acc, r')"
  shows "batcher_inv cfg (s\<lparr>b_ring := r', b_accepted := b_accepted s @ (if acc then [e] else [])\<rparr>)"
proof -
  have inv: "rb_inv (b_ring s)" using assms(1) by (simp add: batcher_inv_def)
  show ?thesis
  proof (cases "rb_closed (b_ring s)")
    case True
    then have "acc = False" "r' = b_ring s" using assms(2) by (auto simp: Push_def)
    then show ?thesis using assms(1) by simp
  next
    case False
    from rq.push_open[OF inv False, of e] assms(2) obtain k where k: "acc" "rb_inv r'"
      "k \<le> length (contents (b_ring s))" "contents r' = drop k (contents (b_ring s)) @ [e]"
      "rb_drops r' = rb_drops (b_ring s) + of_nat k" by auto
    from assms(1) obtain es where es: "taken s = map Some es"
      "subseq (es @ contents (b_ring s)) (b_accepted s)"
      "of_nat (length es + length (contents (b_ring s))) + rb_drops (b_ring s)
         = of_nat (length (b_accepted s))" by (auto simp: batcher_inv_def conserved_def)
    have "subseq ((es @ drop k (contents (b_ring s))) @ [e]) ((es @ contents (b_ring s)) @ [e])"
      by (intro list_emb_append_mono suffix_imp_subseq suffix_drop) auto
    also have "subseq ((es @ contents (b_ring s)) @ [e]) (b_accepted s @ [e])"
      by (rule list_emb_append_mono[OF es(2)]) simp
    finally have sub: "subseq (es @ contents r') (b_accepted s @ [e])" by (simp add: k(4))
    have "of_nat (length es + length (contents r')) + rb_drops r'
        = (of_nat (length (b_accepted s @ [e])) :: 64 word)"
      using es(3) k(3) unfolding k(4,5) by (simp add: add.assoc)
    with sub es(1) k(1) have "conserved (s\<lparr>b_ring := r', b_accepted := b_accepted s @ (if acc then [e] else [])\<rparr>)"
      by (auto simp: conserved_def taken_def)
    then show ?thesis
      using assms(1) k(2) by (simp add: batcher_inv_def batches_ok_def timer_ok_def)
  qed
qed

lemma batcher_step_inv:
  assumes step: "batcher_step cfg s s'" and inv: "batcher_inv cfg s"
    and cfg: "Flush cfg \<noteq> None" "0 < BatchSize cfg"
  shows "batcher_inv cfg s'"
proof -
  have i: "rb_inv (b_ring s)" "conserved s" "batch_bound cfg s" "batches_ok cfg s" "timer_ok s"
    using inv batches_ok_bound by (auto simp: batcher_inv_def)
  have u: "usable cfg" if "b_run s = Running" using that i(4) cfg by (simp add: usable_def batches_ok_def)
  from step show ?thesis
  proof cases
    case (produce e acc r')
    then show ?thesis using produce_inv[OF inv] by simp
  next
    case close
    then show ?thesis
      using i by (simp add: batcher_inv_def conserved_frame Close_inv batches_ok_def timer_ok_def)
  next
    case cancel
    then show ?thesis
      using i by (simp add: batcher_inv_def conserved_frame batches_ok_def timer_ok_def)
  next
    case fire
    then show ?thesis
      using i by (simp add: batcher_inv_def conserved_frame batches_ok_def timer_ok_def)
  next
    case start
    let ?s0 = "s\<lparr>b_pending := [], b_armed := True, b_tick := False, b_run := Running\<rparr>"
    have p: "b_pending s = []" using start(2) i(4) by (simp add: batches_ok_def)
    then have c: "conserved ?s0" using i(2) by (simp add: conserved_def taken_def)
    show ?thesis
    proof (cases "max_make < BatchSize cfg")
      case True
      have "conserved (recovered ?s0)" using c by (simp add: recovered_def conserved_def taken_def)
      then show ?thesis
        using True start(1) i cfg by (simp add: Run_start_def batcher_inv_def recovered_def batches_ok_def timer_ok_def)
    next
      case False
      then have "usable cfg" using cfg by (simp add: usable_def)
      from drain_flush_if_full[OF this _ c] show ?thesis
        using False start(1) cfg i(1,3) by (simp add: Run_start_def batch_bound_def Let_def)
    qed
  next
    case ctx_done
    then show ?thesis using drain_flush_return[OF u i(1-3)] by (simp add: on_ctx_done_def)
  next
    case ring_closed
    then show ?thesis using drain_flush_return[OF u i(1-3)] by (simp add: on_closed_def)
  next
    case timer
    have "batch_bound cfg (s\<lparr>b_tick := False\<rparr>)" using i(3) by (simp add: batch_bound_def)
    then show ?thesis
      using timer i(1,2) flush_reset_inv[OF u[OF timer(2)], of "s\<lparr>b_tick := False\<rparr>"] by (simp add: on_timer_def conserved_frame)
  next
    case notify
    let ?s0 = "s\<lparr>b_ring := (b_ring s)\<lparr>rb_notify := False\<rparr>\<rparr>"
    have "batcher_inv cfg (unwind (flush_if_full cfg) ?s0 (drain cfg ?s0))"
      using i notify(2) by (intro drain_flush_if_full[OF u[OF notify(2)]])
        (auto simp: batch_bound_def conserved_frame timer_ok_def)
    then show ?thesis using notify(1) by (simp add: on_notify_def Let_def)
  qed
qed

lemma batcher_init_inv: "0 < BatchSize cfg \<Longrightarrow> batcher_inv cfg (batcher_init n mb w)"
  by (simp add: batcher_inv_def batcher_init_def NewRingBuffer_inv conserved_def taken_def
      NewRingBuffer_drops batches_ok_def timer_ok_def)

lemma batcher_reach_inv:
  "batcher_reach cfg n mb w s \<Longrightarrow> Flush cfg \<noteq> None \<Longrightarrow> 0 < BatchSize cfg \<Longrightarrow> batcher_inv cfg s"
  by (induction rule: batcher_reach.induct) (auto intro: batcher_init_inv batcher_step_inv)

lemma NewBatcher_pos: "0 < BatchSize (NewBatcher cfg)"
  by (auto simp: NewBatcher_def Let_def)

lemma NewBatcher_Flush [simp]: "Flush (NewBatcher cfg) = Flush cfg"
  by (simp add: NewBatcher_def Let_def)

lemma NewBatcher_reach_inv:
  "batcher_reach (NewBatcher cfg) n mb w s \<Longrightarrow> Flush cfg \<noteq> None \<Longrightarrow> batcher_inv (NewBatcher cfg) s"
  by (rule batcher_reach_inv) (simp_all add: NewBatcher_pos)

section \<open>Panics\<close>

definition quiet_callback :: "'w BatcherConfig \<Rightarrow> bool" where
  "quiet_callback cfg \<longleftrightarrow> (\<forall>f c w b. Flush cfg = Some f \<longrightarrow> snd (f c w b) \<noteq> FlushPanic)"

lemma flush_quiet:
  "quiet_callback cfg \<Longrightarrow> BatchSize cfg \<le> max_make \<Longrightarrow> b_run (flush cfg s) = b_run s"
  by (auto simp: quiet_callback_def flush_def Let_def split: option.splits)

lemma unwind_quiet:
  assumes "rb_inv (b_ring s)" "BatchSize cfg \<le> max_make" "quiet_callback cfg" "b_run s = Running"
  shows "b_run (unwind (flush_if_full cfg) s (drain cfg s)) = Running"
    "b_run (unwind (flush_and_return cfg) s (drain cfg s)) = Returned"
proof -
  obtain s1 where s1: "drain cfg s = Some s1" by (rule drain_some[OF assms(1,2)])
  have "b_run s1 = Running" using drainD(9)[OF assms(1,2) s1] assms(4) by simp
  then show "b_run (unwind (flush_if_full cfg) s (drain cfg s)) = Running"
    "b_run (unwind (flush_and_return cfg) s (drain cfg s)) = Returned"
    using flush_quiet[OF assms(3,2), of s1]
    by (simp_all add: s1 unwind_def flush_if_full_def flush_and_return_def unless_panicked_def)
qed

lemma batcher_step_quiet:
  assumes "batcher_step cfg s s'" "rb_inv (b_ring s)" "BatchSize cfg \<le> max_make" "quiet_callback cfg" "b_run s \<noteq> Panicked"
  shows "b_run s' \<noteq> Panicked"
proof -
  note i = assms(2)
  note q = unwind_quiet[OF _ assms(3,4)]
  from assms(1) show ?thesis
  proof cases
    case start
    show ?thesis unfolding start(1) Run_start_def Let_def using q(1)[of "s\<lparr>b_pending := [], b_armed := True, b_tick := False, b_run := Running\<rparr>"] i assms(3)
      by simp
  next
    case notify
    then show ?thesis using q(1)[of "s\<lparr>b_ring := (b_ring s)\<lparr>rb_notify := False\<rparr>\<rparr>"] i by (simp add: on_notify_def Let_def)
  next
    case timer
    then show ?thesis using flush_quiet[OF assms(4,3), of "s\<lparr>b_tick := False\<rparr>"] by (simp add: on_timer_def unless_panicked_def)
  qed (use q(2)[OF i] assms(5) in \<open>simp_all add: on_ctx_done_def on_closed_def\<close>)
qed

text \<open>The ring stays well formed, also without a callback.\<close>

lemma unwind_ring:
  assumes "rb_inv (b_ring s)" "BatchSize cfg \<le> max_make"
  shows "rb_inv (b_ring (unwind (flush_if_full cfg) s (drain cfg s)))"
    "rb_inv (b_ring (unwind (flush_and_return cfg) s (drain cfg s)))"
proof -
  obtain s1 where s1: "drain cfg s = Some s1" by (rule drain_some[OF assms])
  then show "rb_inv (b_ring (unwind (flush_if_full cfg) s (drain cfg s)))"
    "rb_inv (b_ring (unwind (flush_and_return cfg) s (drain cfg s)))"
    using drainD(1)[OF assms s1]
    by (simp_all add: unwind_def flush_if_full_def flush_and_return_def unless_panicked_def)
qed

lemma batcher_step_ring:
  assumes "batcher_step cfg s s'" "rb_inv (b_ring s)" "BatchSize cfg \<le> max_make"
  shows "rb_inv (b_ring s')"
  using assms(1)
proof cases
  case (produce e acc r')
  show ?thesis
  proof (cases "rb_closed (b_ring s)")
    case True
    then show ?thesis using produce assms(2) by (auto simp: Push_def)
  next
    case False
    then show ?thesis using rq.push_open[OF assms(2) False, of e] produce by auto
  qed
next
  case start
  let ?s = "s\<lparr>b_pending := [], b_armed := True, b_tick := False, b_run := Running\<rparr>"
  show ?thesis using unwind_ring(1)[of ?s cfg] assms(2,3) by (simp add: start(1) Run_start_def Let_def)
next
  case notify
  then show ?thesis
    using unwind_ring(1)[of "s\<lparr>b_ring := (b_ring s)\<lparr>rb_notify := False\<rparr>\<rparr>" cfg] assms(2,3) by (simp add: on_notify_def Let_def)
qed (use assms(2) unwind_ring(2)[OF assms(2,3)] in
  \<open>simp_all add: Close_inv on_ctx_done_def on_closed_def on_timer_def unless_panicked_def\<close>)

lemma batcher_reach_quiet:
  assumes "batcher_reach cfg n mb w s" "BatchSize cfg \<le> max_make" "quiet_callback cfg"
  shows "rb_inv (b_ring s) \<and> b_run s \<noteq> Panicked"
  using assms(1)
proof (induction rule: batcher_reach.induct)
  case (step s s')
  then show ?case
    using batcher_step_quiet[OF step.hyps(2) _ assms(2,3)] batcher_step_ring[OF step.hyps(2) _ assms(2)] by blast
qed (simp add: batcher_init_def NewRingBuffer_inv)

text \<open>A batch size beyond that limit, which the configuration does not rule out, ends \<^verbatim>\<open>Run\<close> before its first drain.\<close>

lemma huge_batch_size_panics:
  "max_make < BatchSize cfg \<Longrightarrow> b_run (Run_start cfg s) = Panicked \<and> b_ring (Run_start cfg s) = b_ring s
     \<and> b_flushed (Run_start cfg s) = b_flushed s"
  by (simp add: Run_start_def recovered_def)

section \<open>Properties\<close>

text \<open>C7. End to end through the pipeline, under every interleaving of producers, timer, close
  and cancellation: the batches handed to the flush callback, then the pending batch, then the
  ring's contents, are together a subsequence in order of the accepted entries, no nil entry is
  ever handed on, and the number of missing entries is exactly the ring's drop counter (modulo
  \<open>2\<^sup>6\<^sup>4\<close>).\<close>

theorem batcher_conserves:
  assumes "batcher_reach (NewBatcher cfg) n mb w s" "Flush cfg \<noteq> None"
  shows "\<exists>es. concat (map snd (b_flushed s)) @ b_pending s = map Some es
    \<and> subseq (es @ contents (b_ring s)) (b_accepted s)
    \<and> of_nat (length es + length (contents (b_ring s))) + Drops (b_ring s)
      = of_nat (length (b_accepted s))"
  using NewBatcher_reach_inv[OF assms]
  by (simp add: batcher_inv_def conserved_def taken_def Drops_def)

definition example_cfg :: "nat BatcherConfig" where
  "example_cfg = \<lparr>BatchSize = 1, BatchInterval = 7, Flush = Some (\<lambda>c w b. (w + length b, FlushOk))\<rparr>"

lemma example_cfg_simps [simp]:
  "NewBatcher example_cfg = example_cfg" "BatchSize example_cfg = 1" "Flush example_cfg \<noteq> None"
  by (simp_all add: example_cfg_def NewBatcher_def)

theorem batcher_conserves_witness:
  "\<exists>es. concat (map snd (b_flushed (batcher_init 4 0 (0::nat)))) @ b_pending (batcher_init 4 0 (0::nat))
      = map Some es
    \<and> subseq (es @ contents (b_ring (batcher_init 4 0 (0::nat)))) (b_accepted (batcher_init 4 0 (0::nat)))"
proof -
  have "batcher_reach (NewBatcher example_cfg) 4 0 0 (batcher_init 4 0 (0::nat))"
    by (rule batcher_reach.init)
  from batcher_conserves[OF this] show ?thesis by auto
qed

text \<open>C8. Every batch handed to the callback is non-empty and at most \<^verbatim>\<open>BatchSize\<close> long, the
  pending batch stays below \<^verbatim>\<open>BatchSize\<close>, nothing is left pending after \<^verbatim>\<open>Run\<close> returns, and while it
  runs the interval timer is counting or has ticked, so the interval flush is never lost.\<close>

theorem batcher_batches_bounded:
  assumes "batcher_reach (NewBatcher cfg) n mb w s" "Flush cfg \<noteq> None"
  shows "(\<forall>(c, b)\<in>set (b_flushed s). b \<noteq> [] \<and> int (length b) \<le> BatchSize (NewBatcher cfg))
    \<and> int (length (b_pending s)) < BatchSize (NewBatcher cfg)
    \<and> (b_run s = Returned \<longrightarrow> b_pending s = [])
    \<and> (b_run s = Running \<longrightarrow> b_armed s \<or> b_tick s)"
  using NewBatcher_reach_inv[OF assms] by (simp add: batcher_inv_def batches_ok_def timer_ok_def)

theorem batcher_batches_bounded_witness:
  "int (length (b_pending (batcher_init 4 0 (0::nat)))) < BatchSize (NewBatcher example_cfg)"
proof -
  have "batcher_reach (NewBatcher example_cfg) 4 0 0 (batcher_init 4 0 (0::nat))"
    by (rule batcher_reach.init)
  from batcher_batches_bounded[OF this] show ?thesis by simp
qed

text \<open>C9. A panic ends the batcher for only two reasons: when the batch size is one that \<^verbatim>\<open>make\<close> can allocate, and the callback,
  if there is one, does not panic itself, no reachable state is one in which the \<^verbatim>\<open>recover\<close> of \<^verbatim>\<open>Run\<close> has caught a panic; in
  particular the ring is never indexed out of range and no allocation of a handler fails.\<close>

theorem batcher_no_panic:
  assumes "batcher_reach (NewBatcher cfg) n mb w s" "\<forall>f. Flush cfg = Some f \<longrightarrow> (\<forall>c w b. snd (f c w b) \<noteq> FlushPanic)"
    and "BatchSize (NewBatcher cfg) \<le> max_make"
  shows "b_run s \<noteq> Panicked"
  using batcher_reach_quiet[OF assms(1,3)] assms(2) by (simp add: quiet_callback_def)

text \<open>What a cancelled context flushes: the final drain tops the pending batch up to
  \<^verbatim>\<open>BatchSize\<close> and hands over that one batch, with a context that is already cancelled; every
  further entry stays in the ring, unread, when \<^verbatim>\<open>Run\<close> is over.\<close>

theorem shutdown_flushes_one_batch:
  assumes "batcher_reach (NewBatcher cfg) n mb w s" "Flush cfg \<noteq> None" "b_ctx s" "b_run s = Running"
  shows "let k = nat (BatchSize (NewBatcher cfg) - int (length (b_pending s)));
             batch = b_pending s @ map Some (take k (contents (b_ring s)));
             s' = on_ctx_done (NewBatcher cfg) s
         in b_flushed s' = b_flushed s @ (if batch = [] then [] else [(True, batch)])
            \<and> b_run s' \<in> {Returned, Panicked} \<and> contents (b_ring s') = drop k (contents (b_ring s))"
proof -
  have inv: "rb_inv (b_ring s)" "BatchSize (NewBatcher cfg) \<le> max_make"
    using NewBatcher_reach_inv[OF assms(1,2)] assms(4) by (simp_all add: batcher_inv_def batches_ok_def)
  obtain s1 where s1: "drain (NewBatcher cfg) s = Some s1" "on_ctx_done (NewBatcher cfg) s = flush_and_return (NewBatcher cfg) s1"
    unfolding on_ctx_done_def by (rule drain_handled[OF inv])
  note d = drainD[OF inv s1(1)]
  show ?thesis
    using assms(2,3) inv(2) by (auto simp: Let_def s1(2) flush_and_return_def unless_panicked_def flush_flushed d(2,3,6,10))
qed

section \<open>Entries that wait for the next push\<close>

text \<open>The steps of the loop that need neither a producer nor a shutdown: the timer fires, and the
  interval branch runs.\<close>

inductive timer_only :: "'w BatcherConfig \<Rightarrow> 'w bstate \<Rightarrow> 'w bstate \<Rightarrow> bool" for cfg where
  t_fire: "b_armed s \<Longrightarrow> timer_only cfg s (s\<lparr>b_armed := False, b_tick := True\<rparr>)"
| t_timer: "b_run s = Running \<Longrightarrow> b_tick s \<Longrightarrow> timer_only cfg s (on_timer cfg s)"

lemma timer_only_ring: "timer_only cfg s s' \<Longrightarrow> b_ring s' = b_ring s"
  by (induction rule: timer_only.induct) (simp_all add: on_timer_def unless_panicked_def)

lemma timer_only_ring_star: "(timer_only cfg)\<^sup>*\<^sup>* s s' \<Longrightarrow> b_ring s' = b_ring s"
  by (induction rule: rtranclp_induct) (auto dest: timer_only_ring)

text \<open>One wake-up is one batch: consuming the (coalesced) notify token moves at most
  \<^verbatim>\<open>BatchSize\<close> entries, the token is gone, and however often the interval timer fires afterwards
  the entries that stayed in the ring are not picked up; they wait for the next push or the
  shutdown.\<close>

theorem notify_drains_one_batch:
  assumes "batcher_reach (NewBatcher cfg) n mb w s" "Flush cfg \<noteq> None" "b_run s = Running"
    and "(timer_only (NewBatcher cfg))\<^sup>*\<^sup>* (on_notify (NewBatcher cfg) s) s2"
  shows "contents (b_ring s2)
      = drop (nat (BatchSize (NewBatcher cfg) - int (length (b_pending s)))) (contents (b_ring s))
    \<and> \<not> rb_notify (b_ring s2)"
proof -
  let ?s0 = "s\<lparr>b_ring := (b_ring s)\<lparr>rb_notify := False\<rparr>\<rparr>"
  have inv: "rb_inv (b_ring ?s0)" "BatchSize (NewBatcher cfg) \<le> max_make"
    using NewBatcher_reach_inv[OF assms(1,2)] assms(3) by (simp_all add: batcher_inv_def batches_ok_def)
  obtain t where t: "drain (NewBatcher cfg) ?s0 = Some t" "on_notify (NewBatcher cfg) s = flush_if_full (NewBatcher cfg) t"
    unfolding on_notify_def Let_def by (rule drain_handled[OF inv])
  note d = drainD[OF inv t(1)]
  have "b_ring s2 = b_ring t"
    using timer_only_ring_star[OF assms(4)] by (simp add: t(2) flush_if_full_def unless_panicked_def)
  then show ?thesis using d(3,5) by simp
qed

text \<open>A run of the example configuration: three pushes before \<^verbatim>\<open>Run\<close> starts, then the start.\<close>

definition ring_with :: "nat \<Rightarrow> RingBuffer" where
  "ring_with k = (NewRingBuffer 4 0)\<lparr>rb_buf := replicate k (Some zero_entry) @ replicate (4 - k) None,
     rb_size := k, rb_bytes := 64 * int k, rb_notify := True\<rparr>"

definition started :: "nat bstate" where
  "started = (batcher_init 4 0 0)\<lparr>b_ring := (ring_with 3)\<lparr>rb_buf := [None, Some zero_entry, Some zero_entry, None],
     rb_head := 1, rb_size := 2, rb_bytes := 128\<rparr>,
     b_world := 1, b_armed := True, b_run := Running, b_flushed := [(False, [Some zero_entry])],
     b_accepted := [zero_entry, zero_entry, zero_entry]\<rparr>"

lemma ring_with_push:
  "Push (NewRingBuffer 4 0) (Some zero_entry) = Some (True, ring_with 1)"
  "Push (ring_with 1) (Some zero_entry) = Some (True, ring_with 2)"
  "Push (ring_with 2) (Some zero_entry) = Some (True, ring_with 3)"
  by code_simp+

lemma started_reach: "batcher_reach example_cfg 4 0 0 started"
proof -
  let ?i = "batcher_init 4 0 (0::nat)" and ?z = zero_entry
  have 0: "batcher_reach example_cfg 4 0 0 ?i" by (rule batcher_reach.init)
  have 1: "batcher_reach example_cfg 4 0 0 (?i\<lparr>b_ring := ring_with 1, b_accepted := [?z]\<rparr>)"
    using batcher_reach.step[OF 0 batcher_step.produce[of ?i ?z True "ring_with 1"]]
    by (simp add: batcher_init_def ring_with_push)
  have 2: "batcher_reach example_cfg 4 0 0 (?i\<lparr>b_ring := ring_with 2, b_accepted := [?z, ?z]\<rparr>)"
    using batcher_reach.step[OF 1 batcher_step.produce[of _ ?z True "ring_with 2"]]
    by (simp add: batcher_init_def ring_with_push[simplified])
  have 3: "batcher_reach example_cfg 4 0 0 (?i\<lparr>b_ring := ring_with 3, b_accepted := [?z, ?z, ?z]\<rparr>)"
    using batcher_reach.step[OF 2 batcher_step.produce[of _ ?z True "ring_with 3"]]
    by (simp add: batcher_init_def ring_with_push)
  have "Run_start example_cfg (?i\<lparr>b_ring := ring_with 3, b_accepted := [?z, ?z, ?z]\<rparr>) = started"
    by code_simp
  with batcher_reach.step[OF 3 batcher_step.start] show ?thesis
    by (simp add: batcher_init_def)
qed

theorem batcher_no_panic_witness:
  "b_run started \<noteq> Panicked \<and> b_flushed started = [(False, [Some zero_entry])]"
proof -
  have r: "batcher_reach (NewBatcher example_cfg) 4 0 0 started" by (simp add: started_reach)
  have b: "BatchSize (NewBatcher example_cfg) \<le> max_make" by (simp add: max_make_def)
  have q: "\<forall>f. Flush example_cfg = Some f \<longrightarrow> (\<forall>c w b. snd (f c w b) \<noteq> FlushPanic)" by (auto simp: example_cfg_def)
  have "b_run started \<noteq> Panicked" using r q b by (rule batcher_no_panic)
  then show ?thesis by (simp add: started_def)
qed

theorem notify_drains_one_batch_witness:
  "contents (b_ring (on_notify example_cfg started)) = [zero_entry] \<and> \<not> rb_notify (b_ring (on_notify example_cfg started))"
proof -
  have r: "batcher_reach (NewBatcher example_cfg) 4 0 0 started" by (simp add: started_reach)
  have "contents (b_ring started) = [zero_entry, zero_entry]" "b_pending started = []" "b_run started = Running" by code_simp+
  with notify_drains_one_batch[OF r, of "on_notify example_cfg started"] show ?thesis by simp
qed

theorem shutdown_flushes_one_batch_witness:
  "contents (b_ring (on_ctx_done example_cfg (started\<lparr>b_ctx := True\<rparr>))) = [zero_entry]"
proof -
  let ?s = "started\<lparr>b_ctx := True\<rparr>"
  have r: "batcher_reach (NewBatcher example_cfg) 4 0 0 ?s"
    using batcher_reach.step[OF started_reach batcher_step.cancel] by simp
  have "contents (b_ring ?s) = [zero_entry, zero_entry]" "b_pending ?s = []" "b_run ?s = Running" by code_simp+
  with shutdown_flushes_one_batch[OF r] show ?thesis by (simp add: Let_def)
qed

end
