(* ===== verification/Go_Time.thy ===== *)
theory Go_Time
  imports Parser_Types
begin

text \<open>
  What the program uses of the Go package \<^verbatim>\<open>time\<close>: instants, 64-bit durations, calendar
  arithmetic, and \<^verbatim>\<open>time.Parse\<close> for the layouts that occur in the sources. A layout is the list of
  its chunks, each with the literal text in front of it, as \<^verbatim>\<open>nextStdChunk\<close> cuts it; parsing
  follows the chunk cases of \<^verbatim>\<open>time.parse\<close>. The time zone database is outside the program: a
  location is a function from wall-clock seconds to UTC seconds.
\<close>

section \<open>Integers of 64 bits\<close>

definition wrap64 :: "int \<Rightarrow> int" where
  "wrap64 x = (x + 2 ^ 63) mod 2 ^ 64 - 2 ^ 63"

lemma wrap64_id: "- (2 ^ 63) \<le> x \<Longrightarrow> x < 2 ^ 63 \<Longrightarrow> wrap64 x = x"
  by (simp add: wrap64_def)

text \<open>Go's \<^verbatim>\<open>/\<close> and \<^verbatim>\<open>%\<close> truncate towards zero.\<close>

definition go_div :: "int \<Rightarrow> int \<Rightarrow> int" where
  "go_div a b = (if (a < 0) = (b < 0) then \<bar>a\<bar> div \<bar>b\<bar> else - (\<bar>a\<bar> div \<bar>b\<bar>))"

definition go_mod :: "int \<Rightarrow> int \<Rightarrow> int" where
  "go_mod a b = a - b * go_div a b"

lemma go_div_mod: "go_div a b * b + go_mod a b = a"
  by (simp add: go_mod_def algebra_simps)

lemma go_div_nonneg: "0 \<le> a \<Longrightarrow> 0 < b \<Longrightarrow> go_div a b = a div b"
  by (cases "a = 0") (auto simp: go_div_def)

lemma go_mod_nonneg: "0 \<le> a \<Longrightarrow> 0 < b \<Longrightarrow> go_mod a b = a mod b"
  by (simp add: go_mod_def go_div_nonneg minus_mult_div_eq_mod)

section \<open>Instants and durations\<close>

type_synonym location = "int \<Rightarrow> int"

definition UTC :: location where
  "UTC s = s"

definition Before :: "instant \<Rightarrow> instant \<Rightarrow> bool" where
  "Before t u \<longleftrightarrow> t < u"

definition After :: "instant \<Rightarrow> instant \<Rightarrow> bool" where
  "After t u \<longleftrightarrow> u < t"

text \<open>\<^verbatim>\<open>t.Sub(u)\<close> saturates at the ends of the 64-bit range.\<close>

definition Sub :: "instant \<Rightarrow> instant \<Rightarrow> int" where
  "Sub t u = max (- (2 ^ 63)) (min (2 ^ 63 - 1) (t - u))"

text \<open>Seconds between the zero time and the Unix epoch.\<close>

definition unix_offset :: int where
  "unix_offset = 62135596800"

definition Unix :: "int \<Rightarrow> int \<Rightarrow> instant" where
  "Unix sec nsec = (unix_offset + sec) * 1000000000 + nsec"

section \<open>Calendar\<close>

definition isLeap :: "int \<Rightarrow> bool" where
  "isLeap y \<longleftrightarrow> y mod 4 = 0 \<and> (y mod 100 \<noteq> 0 \<or> y mod 400 = 0)"

definition month_days :: "int list" where
  "month_days = [31, 28, 31, 30, 31, 30, 31, 31, 30, 31, 30, 31]"

definition daysIn :: "int \<Rightarrow> int \<Rightarrow> int" where
  "daysIn m y = (if m = 2 \<and> isLeap y then 29 else month_days ! nat (m - 1))"

definition days_before_year :: "int \<Rightarrow> int" where
  "days_before_year y = 365 * (y - 1) + (y - 1) div 4 - (y - 1) div 100 + (y - 1) div 400"

definition days_before_month :: "int \<Rightarrow> int \<Rightarrow> int" where
  "days_before_month m y =
     sum_list (take (nat (m - 1)) month_days) + (if 2 < m \<and> isLeap y then 1 else 0)"

text \<open>\<^verbatim>\<open>time.Date(y, m, d, h, mi, s, ns, loc)\<close> for a month in range; a day past the end of the month
  runs into the next one.\<close>

definition Date :: "int \<Rightarrow> int \<Rightarrow> int \<Rightarrow> int \<Rightarrow> int \<Rightarrow> int \<Rightarrow> int \<Rightarrow> location \<Rightarrow> instant" where
  "Date y m d h mi s ns loc =
     loc ((days_before_year y + days_before_month m y + (d - 1)) * 86400 + h * 3600 + mi * 60 + s)
       * 1000000000 + ns"

lemma month_cases:
  fixes m :: nat
  assumes "1 \<le> m" "m \<le> 12"
  obtains "m = 1" | "m = 2" | "m = 3" | "m = 4" | "m = 5" | "m = 6" | "m = 7" | "m = 8" | "m = 9"
    | "m = 10" | "m = 11" | "m = 12"
  using assms by (cases "m \<le> 6") (auto, linarith+)

lemma daysIn_le_31:
  assumes "1 \<le> m" "m \<le> 12"
  shows "daysIn (int m) y \<le> 31"
  using assms by (rule month_cases) (simp_all add: daysIn_def month_days_def)

section \<open>Parsing a layout\<close>

datatype std = StdMonth | StdUnderDay | StdHour | StdZeroMinute | StdZeroSecond | StdLongYear
  | StdZeroMonth | StdZeroDay | StdFracSecond9 | StdFracSecond0 nat | StdISO8601ColonTZ | StdNumTZ

type_synonym layout = "(string \<times> std) list"

text \<open>\<^verbatim>\<open>"Jan _2 15:04:05"\<close>, \<^verbatim>\<open>time.RFC3339\<close>, \<^verbatim>\<open>time.RFC3339Nano\<close> and
  \<^verbatim>\<open>"2006-01-02T15:04:05,000000-0700"\<close>.\<close>

definition syslogTimestampLayout :: layout where
  "syslogTimestampLayout =
     [([], StdMonth), ('' '', StdUnderDay), ('' '', StdHour), ('':'', StdZeroMinute), ('':'', StdZeroSecond)]"

definition RFC3339_date :: layout where
  "RFC3339_date =
     [([], StdLongYear), (''-'', StdZeroMonth), (''-'', StdZeroDay), (''T'', StdHour),
      ('':'', StdZeroMinute), ('':'', StdZeroSecond)]"

definition RFC3339 :: layout where
  "RFC3339 = RFC3339_date @ [([], StdISO8601ColonTZ)]"

definition RFC3339Nano :: layout where
  "RFC3339Nano = RFC3339_date @ [([], StdFracSecond9), ([], StdISO8601ColonTZ)]"

definition dmesgISOLayout :: layout where
  "dmesgISOLayout = RFC3339_date @ [([], StdFracSecond0 6), ([], StdNumTZ)]"

record tparts =
  t_year :: int
  t_month :: int
  t_day :: int
  t_hour :: int
  t_min :: int
  t_sec :: int
  t_nsec :: int
  t_zone :: "int option"

definition tparts0 :: tparts where
  "tparts0 = \<lparr>t_year = 0, t_month = -1, t_day = -1, t_hour = 0, t_min = 0, t_sec = 0, t_nsec = 0,
     t_zone = None\<rparr>"

definition cutspace :: "string \<Rightarrow> string" where
  "cutspace s = dropWhile (\<lambda>c. c = CHR '' '') s"

lemma cutspace_le: "length (cutspace s) \<le> length s"
  by (simp add: cutspace_def length_dropWhile_le)

function skip :: "string \<Rightarrow> string \<Rightarrow> string option" where
  "skip v [] = Some v"
| "skip v (p # ps) =
     (if p = CHR '' ''
      then (if v \<noteq> [] \<and> hd v \<noteq> CHR '' '' then None else skip (cutspace v) (cutspace ps))
      else if v = [] \<or> hd v \<noteq> p then None else skip (tl v) ps)"
  by pat_completeness auto
termination
  by (relation "measure (\<lambda>(v, p). length p)") (auto simp: cutspace_le le_imp_less_Suc)

fun getnum :: "bool \<Rightarrow> string \<Rightarrow> (int \<times> string) option" where
  "getnum fixed [] = None"
| "getnum fixed (c # s) =
     (if \<not> is_digit c then None
      else case s of
        d # s' \<Rightarrow>
          if is_digit d then Some (int (digit_val c) * 10 + int (digit_val d), s')
          else if fixed then None else Some (int (digit_val c), s)
      | [] \<Rightarrow> if fixed then None else Some (int (digit_val c), []))"

definition commaOrPeriod :: "char \<Rightarrow> bool" where
  "commaOrPeriod c \<longleftrightarrow> c = CHR ''.'' \<or> c = CHR '',''"

text \<open>The package's own \<^verbatim>\<open>atoi\<close>: an optional sign, then digits only (the empty digit string is 0).\<close>

definition time_atoi :: "string \<Rightarrow> int option" where
  "time_atoi s =
     (let (neg, ds) = (case s of [] \<Rightarrow> (False, [])
        | c # cs \<Rightarrow> if c = CHR ''-'' then (True, cs) else if c = CHR ''+'' then (False, cs) else (False, s))
      in if list_all is_digit ds
         then Some (if neg then - int (digits_val ds) else int (digits_val ds)) else None)"

definition parseNanoseconds :: "string \<Rightarrow> nat \<Rightarrow> int option" where
  "parseNanoseconds v nbytes =
     (if v = [] \<or> \<not> commaOrPeriod (hd v) then None
      else let n = min nbytes 10 in
        case time_atoi (drop 1 (take n v)) of
          None \<Rightarrow> None
        | Some ns \<Rightarrow> if ns < 0 then None else Some (ns * 10 ^ (10 - n)))"

definition shortMonthNames :: "string list" where
  "shortMonthNames = [''Jan'', ''Feb'', ''Mar'', ''Apr'', ''May'', ''Jun'', ''Jul'', ''Aug'', ''Sep'',
     ''Oct'', ''Nov'', ''Dec'']"

definition to_lower :: "char \<Rightarrow> char" where
  "to_lower c = (let b = (of_char c :: nat) in if 65 \<le> b \<and> b \<le> 90 then char_of (b + 32) else c)"

text \<open>\<^verbatim>\<open>lookup(shortMonthNames, v)\<close>: the first name that the value starts with, ignoring case.\<close>

fun lookup_name :: "string list \<Rightarrow> string \<Rightarrow> int \<Rightarrow> (int \<times> string) option" where
  "lookup_name [] v i = None"
| "lookup_name (n # ns) v i =
     (if length n \<le> length v \<and> map to_lower (take (length n) v) = map to_lower n
      then Some (i, drop (length n) v) else lookup_name ns v (i + 1))"

text \<open>How many digits follow position 0.\<close>

definition frac_digits :: "string \<Rightarrow> nat" where
  "frac_digits v = length (takeWhile is_digit (drop 1 v))"

definition has_frac :: "string \<Rightarrow> bool" where
  "has_frac v \<longleftrightarrow> 2 \<le> length v \<and> commaOrPeriod (hd v) \<and> is_digit (v ! 1)"

fun is_frac :: "std option \<Rightarrow> bool" where
  "is_frac (Some StdFracSecond9) = True"
| "is_frac (Some (StdFracSecond0 n)) = True"
| "is_frac _ = False"

definition num_in :: "bool \<Rightarrow> string \<Rightarrow> int \<Rightarrow> int \<Rightarrow> (int \<times> string) option" where
  "num_in fixed v lo hi =
     (case getnum fixed v of
        None \<Rightarrow> None
      | Some (n, v') \<Rightarrow> if n < lo \<or> hi < n then None else Some (n, v'))"

text \<open>A numeric zone: sign, hours, minutes, where \<open>rest\<close> is what follows.\<close>

definition parse_zone :: "char \<Rightarrow> string \<Rightarrow> string \<Rightarrow> string \<Rightarrow> tparts \<Rightarrow> (string \<times> tparts) option" where
  "parse_zone sg hh mm rest t =
     (case getnum True hh of
        None \<Rightarrow> None
      | Some (hr, _) \<Rightarrow>
          (case getnum True mm of
             None \<Rightarrow> None
           | Some (mi, _) \<Rightarrow>
               if 24 < hr \<or> 60 < mi then None
               else if sg = CHR ''+'' then Some (rest, t\<lparr>t_zone := Some ((hr * 60 + mi) * 60)\<rparr>)
               else if sg = CHR ''-'' then Some (rest, t\<lparr>t_zone := Some (- ((hr * 60 + mi) * 60))\<rparr>)
               else None))"

definition colon_zone :: "string \<Rightarrow> tparts \<Rightarrow> (string \<times> tparts) option" where
  "colon_zone v t =
     (if length v < 6 \<or> v ! 3 \<noteq> CHR '':'' then None
      else parse_zone (hd v) (take 2 (drop 1 v)) (take 2 (drop 4 v)) (drop 6 v) t)"

fun parse_chunk :: "std \<Rightarrow> std option \<Rightarrow> string \<Rightarrow> tparts \<Rightarrow> (string \<times> tparts) option" where
  "parse_chunk StdLongYear nxt v t =
     (if length v < 4 \<or> \<not> is_digit (hd v) then None
      else map_option (\<lambda>y. (drop 4 v, t\<lparr>t_year := y\<rparr>)) (time_atoi (take 4 v)))"
| "parse_chunk StdMonth nxt v t =
     map_option (\<lambda>(m, v'). (v', t\<lparr>t_month := m\<rparr>)) (lookup_name shortMonthNames v 1)"
| "parse_chunk StdZeroMonth nxt v t =
     map_option (\<lambda>(m, v'). (v', t\<lparr>t_month := m\<rparr>)) (num_in True v 1 12)"
| "parse_chunk StdZeroDay nxt v t =
     map_option (\<lambda>(d, v'). (v', t\<lparr>t_day := d\<rparr>)) (getnum True v)"
| "parse_chunk StdUnderDay nxt v t =
     map_option (\<lambda>(d, v'). (v', t\<lparr>t_day := d\<rparr>))
       (getnum False (if v \<noteq> [] \<and> hd v = CHR '' '' then tl v else v))"
| "parse_chunk StdHour nxt v t =
     map_option (\<lambda>(h, v'). (v', t\<lparr>t_hour := h\<rparr>)) (num_in False v 0 23)"
| "parse_chunk StdZeroMinute nxt v t =
     map_option (\<lambda>(m, v'). (v', t\<lparr>t_min := m\<rparr>)) (num_in True v 0 59)"
| "parse_chunk StdZeroSecond nxt v t =
     (case num_in True v 0 59 of
        None \<Rightarrow> None
      | Some (s, v') \<Rightarrow>
          if has_frac v' \<and> \<not> is_frac nxt
          then map_option (\<lambda>ns. (drop (1 + frac_digits v') v', t\<lparr>t_sec := s, t_nsec := ns\<rparr>))
                 (parseNanoseconds v' (1 + frac_digits v'))
          else Some (v', t\<lparr>t_sec := s\<rparr>))"
| "parse_chunk StdFracSecond9 nxt v t =
     (if \<not> has_frac v then Some (v, t)
      else map_option (\<lambda>ns. (drop (1 + frac_digits v) v, t\<lparr>t_nsec := ns\<rparr>))
             (parseNanoseconds v (1 + frac_digits v)))"
| "parse_chunk (StdFracSecond0 n) nxt v t =
     (if length v < n + 1 then None
      else map_option (\<lambda>ns. (drop (n + 1) v, t\<lparr>t_nsec := ns\<rparr>)) (parseNanoseconds v (n + 1)))"
| "parse_chunk StdISO8601ColonTZ nxt v t =
     (if v \<noteq> [] \<and> hd v = CHR ''Z'' then Some (tl v, t\<lparr>t_zone := Some 0\<rparr>) else colon_zone v t)"
| "parse_chunk StdNumTZ nxt v t =
     (if length v < 5 then None
      else parse_zone (hd v) (take 2 (drop 1 v)) (take 2 (drop 3 v)) (drop 5 v) t)"

fun parse_layout :: "layout \<Rightarrow> string \<Rightarrow> tparts \<Rightarrow> tparts option" where
  "parse_layout [] v t = (if v = [] then Some t else None)"
| "parse_layout ((p, std) # rest) v t =
     (case skip v p of
        None \<Rightarrow> None
      | Some v1 \<Rightarrow>
          (case parse_chunk std (case rest of [] \<Rightarrow> None | (_, s) # _ \<Rightarrow> Some s) v1 t of
             None \<Rightarrow> None
           | Some (v2, t2) \<Rightarrow> parse_layout rest v2 t2))"

text \<open>The defaults for a missing month and day, and the check of the day of the month.\<close>

definition parse_fields :: "layout \<Rightarrow> string \<Rightarrow> tparts option" where
  "parse_fields l v =
     (case parse_layout l v tparts0 of
        None \<Rightarrow> None
      | Some t0 \<Rightarrow>
          let t1 = (if t_month t0 < 0 then t0\<lparr>t_month := 1\<rparr> else t0);
              t = (if t_day t1 < 0 then t1\<lparr>t_day := 1\<rparr> else t1)
          in if t_day t < 1 \<or> daysIn (t_month t) (t_year t) < t_day t then None else Some t)"

text \<open>\<^verbatim>\<open>time.Parse\<close>: a numeric zone is subtracted, no zone means UTC.\<close>

definition time_Parse :: "layout \<Rightarrow> string \<Rightarrow> instant option" where
  "time_Parse l v =
     map_option (\<lambda>t. Date (t_year t) (t_month t) (t_day t) (t_hour t) (t_min t) (t_sec t) (t_nsec t) UTC
                     - (case t_zone t of None \<Rightarrow> 0 | Some z \<Rightarrow> z) * 1000000000)
       (parse_fields l v)"

section \<open>Two-digit numbers\<close>

definition pad2 :: "nat \<Rightarrow> string" where
  "pad2 n = [digit_char (n div 10), digit_char (n mod 10)]"

lemma int_div_mod_10: "int (n div 10) * 10 + int (n mod 10) = int n"
  by presburger

lemma getnum_pad2 [simp]: "n < 100 \<Longrightarrow> getnum f (pad2 n @ r) = Some (int n, r)"
  by (simp add: pad2_def int_div_mod_10 del: of_nat_mod of_nat_div)

lemma num_in_pad2 [simp]:
  "n < 100 \<Longrightarrow> num_in f (pad2 n @ r) lo hi = (if int n < lo \<or> hi < int n then None else Some (int n, r))"
  by (simp add: num_in_def)

lemma skip_colon [simp]: "skip (CHR '':'' # v) '':'' = Some v"
  by simp

lemma pad2_ne_space: "n < 100 \<Longrightarrow> pad2 n @ r \<noteq> [] \<and> hd (pad2 n @ r) \<noteq> CHR '' ''"
proof -
  assume "n < 100"
  then have "is_digit (digit_char (n div 10))" by simp
  then show ?thesis by (auto simp: pad2_def is_digit_def)
qed

lemma cutspace_pad2 [simp]: "n < 100 \<Longrightarrow> cutspace (CHR '' '' # pad2 n @ r) = pad2 n @ r"
  using pad2_ne_space[of n r] by (cases "pad2 n @ r") (auto simp: cutspace_def)

end
