(* ===== verification/Go_Float.thy ===== *)
theory Go_Float
  imports Go_Time "HOL-Library.Log_Nat"
begin

text \<open>
  What the program uses of \<^verbatim>\<open>float64\<close>: correct rounding to 53 bits (round to nearest, ties to even,
  with gradual underflow), the arithmetic defined by it, the conversions from and to integers, and
  \<^verbatim>\<open>strconv.ParseFloat\<close>. A finite value is the rational it stands for (the sign of zero is not
  represented: no operation of the program tells the zeros apart).
\<close>

section \<open>Rounding\<close>

definition pow2 :: "int \<Rightarrow> rat" where
  "pow2 e = 2 powi e"

text \<open>The exponent of the leading bit of a positive number.\<close>

definition ilog2 :: "rat \<Rightarrow> int" where
  "ilog2 q = (let (n, d) = quotient_of q; e = bitlen n - bitlen d
              in if pow2 e \<le> q then e else e - 1)"

text \<open>To the nearest integer, ties to the even one.\<close>

definition half_even :: "rat \<Rightarrow> int" where
  "half_even q = (let f = \<lfloor>q\<rfloor>; r = q - of_int f
                  in if r < 1 / 2 \<or> r = 1 / 2 \<and> even f then f else f + 1)"

text \<open>The unit in the last place of the binade of \<open>q\<close>.\<close>

definition ulp :: "rat \<Rightarrow> rat" where
  "ulp q = pow2 (max (ilog2 q - 52) (- 1074))"

definition rnd_pos :: "rat \<Rightarrow> rat" where
  "rnd_pos q = of_int (half_even (q / ulp q)) * ulp q"

text \<open>Rounding without an upper bound on the exponent.\<close>

definition rnd :: "rat \<Rightarrow> rat" where
  "rnd q = (if q = 0 then 0 else if 0 < q then rnd_pos q else - rnd_pos (- q))"

definition max_exp :: rat where
  "max_exp = 2 ^ 1024"

section \<open>Values, arithmetic and conversions\<close>

datatype float64 = Fin rat | Inf bool | NaN

definition mk_float :: "rat \<Rightarrow> float64" where
  "mk_float q = (let r = rnd q in if max_exp \<le> r then Inf False else if r \<le> - max_exp then Inf True else Fin r)"

fun fmul :: "float64 \<Rightarrow> float64 \<Rightarrow> float64" where
  "fmul (Fin a) (Fin b) = mk_float (a * b)"
| "fmul (Inf s) (Inf t) = Inf (s \<noteq> t)"
| "fmul (Inf s) (Fin b) = (if b = 0 then NaN else Inf (s \<noteq> (b < 0)))"
| "fmul (Fin a) (Inf t) = (if a = 0 then NaN else Inf (t \<noteq> (a < 0)))"
| "fmul _ _ = NaN"

text \<open>\<^verbatim>\<open><\<close>, false as soon as one side is not a number.\<close>

fun fless :: "float64 \<Rightarrow> float64 \<Rightarrow> bool" where
  "fless (Fin a) (Fin b) \<longleftrightarrow> a < b"
| "fless (Inf s) (Fin b) \<longleftrightarrow> s"
| "fless (Fin a) (Inf t) \<longleftrightarrow> \<not> t"
| "fless (Inf s) (Inf t) \<longleftrightarrow> s \<and> \<not> t"
| "fless _ _ \<longleftrightarrow> False"

text \<open>\<^verbatim>\<open>x != x\<close>.\<close>

definition is_nan :: "float64 \<Rightarrow> bool" where
  "is_nan x \<longleftrightarrow> x = NaN"

definition trunc :: "rat \<Rightarrow> int" where
  "trunc q = (if 0 \<le> q then \<lfloor>q\<rfloor> else \<lceil>q\<rceil>)"

text \<open>\<^verbatim>\<open>int64(x)\<close>: truncation; outside the range the result depends on the machine, the
  parameter \<open>cvt\<close>.\<close>

definition to_int64 :: "(float64 \<Rightarrow> int) \<Rightarrow> float64 \<Rightarrow> int" where
  "to_int64 cvt x =
     (case x of
        Fin q \<Rightarrow> if - (2 ^ 63) \<le> trunc q \<and> trunc q < 2 ^ 63 then trunc q else cvt x
      | _ \<Rightarrow> cvt x)"

section \<open>Parsing\<close>

definition special_float :: "string \<Rightarrow> float64 option" where
  "special_float s =
     (let l = map to_lower s in
      if l \<in> {''inf'', ''+inf'', ''infinity'', ''+infinity''} then Some (Inf False)
      else if l \<in> {''-inf'', ''-infinity''} then Some (Inf True)
      else if l = ''nan'' then Some NaN else None)"

definition digit_of :: "nat \<Rightarrow> char \<Rightarrow> nat option" where
  "digit_of base c =
     (let b = (of_char c :: nat); l = of_char (to_lower c) in
      if is_digit c then Some (b - 48)
      else if base = 16 \<and> 97 \<le> l \<and> l \<le> 102 then Some (l - 87) else None)"

text \<open>Mantissa: number of digits seen, their value, digits after the point, and the rest.\<close>

fun scan_mant :: "nat \<Rightarrow> bool \<Rightarrow> nat \<Rightarrow> int \<Rightarrow> nat \<Rightarrow> string \<Rightarrow> nat \<times> int \<times> nat \<times> string" where
  "scan_mant base dot nd m k [] = (nd, m, k, [])"
| "scan_mant base dot nd m k (c # cs) =
     (if c = CHR ''_'' then scan_mant base dot nd m k cs
      else if c = CHR ''.'' then (if dot then (nd, m, k, c # cs) else scan_mant base True nd m k cs)
      else case digit_of base c of
        None \<Rightarrow> (nd, m, k, c # cs)
      | Some v \<Rightarrow> scan_mant base dot (nd + 1) (m * int base + int v) (if dot then k + 1 else k) cs)"

text \<open>Exponent digits; the accumulator stops growing at ten thousand.\<close>

fun scan_exp :: "nat \<Rightarrow> string \<Rightarrow> nat \<times> string" where
  "scan_exp e [] = (e, [])"
| "scan_exp e (c # cs) =
     (if c = CHR ''_'' then scan_exp e cs
      else if is_digit c then scan_exp (if e < 10000 then e * 10 + digit_val c else e) cs
      else (e, c # cs))"

definition read_exp :: "string \<Rightarrow> (int \<times> string) option" where
  "read_exp s =
     (let (neg, ds) = (case s of [] \<Rightarrow> (False, [])
        | c # cs \<Rightarrow> if c = CHR ''+'' then (False, cs) else if c = CHR ''-'' then (True, cs) else (False, s))
      in if ds = [] \<or> \<not> is_digit (hd ds) then None
         else let (e, r) = scan_exp 0 ds in Some ((if neg then - int e else int e), r))"

text \<open>\<^verbatim>\<open>underscoreOK\<close>: the state is start, digit, underscore or other.\<close>

datatype ustate = UStart | UDigit | UUnder | UOther

fun under_loop :: "bool \<Rightarrow> ustate \<Rightarrow> string \<Rightarrow> bool" where
  "under_loop hex st [] = (st \<noteq> UUnder)"
| "under_loop hex st (c # cs) =
     (if digit_of (if hex then 16 else 10) c \<noteq> None then under_loop hex UDigit cs
      else if c = CHR ''_'' then (if st \<noteq> UDigit then False else under_loop hex UUnder cs)
      else if st = UUnder then False else under_loop hex UOther cs)"

definition strip_sign :: "string \<Rightarrow> bool \<times> string" where
  "strip_sign s = (case s of [] \<Rightarrow> (False, [])
     | c # cs \<Rightarrow> if c = CHR ''-'' then (True, cs) else if c = CHR ''+'' then (False, cs) else (False, s))"

definition underscoreOK :: "string \<Rightarrow> bool" where
  "underscoreOK s0 =
     (let s = snd (strip_sign s0) in
      if 2 \<le> length s \<and> hd s = CHR ''0'' \<and> to_lower (s ! 1) \<in> {CHR ''b'', CHR ''o'', CHR ''x''}
      then under_loop (to_lower (s ! 1) = CHR ''x'') UDigit (drop 2 s)
      else under_loop False UStart s)"

text \<open>\<^verbatim>\<open>strconv.ParseFloat(s, 64)\<close>: \<^const>\<open>None\<close> is a syntax error or a value out of range.\<close>

definition ParseFloat :: "string \<Rightarrow> float64 option" where
  "ParseFloat s =
     (case special_float s of Some x \<Rightarrow> Some x | None \<Rightarrow>
      (let (neg, s1) = strip_sign s;
           hex = (2 < length s1 \<and> hd s1 = CHR ''0'' \<and> to_lower (s1 ! 1) = CHR ''x'');
           (nd, m, k, r) = scan_mant (if hex then 16 else 10) False 0 0 0 (if hex then drop 2 s1 else s1);
           ex = (if r \<noteq> [] \<and> to_lower (hd r) = (if hex then CHR ''p'' else CHR ''e'') then read_exp (tl r)
                 else if hex then None else Some (0, r))
       in if nd = 0 then None
          else case ex of None \<Rightarrow> None
          | Some (e, r2) \<Rightarrow>
              if r2 \<noteq> [] \<or> \<not> underscoreOK s then None
              else let v = (if hex then of_int m * pow2 (e - 4 * int k)
                            else of_int m * 10 powi (e - int k));
                       x = mk_float (if neg then - v else v)
                   in (case x of Fin q \<Rightarrow> Some x | _ \<Rightarrow> None)))"

section \<open>Facts about rounding\<close>

lemma pow2_pos [simp]: "0 < pow2 e"
  by (simp add: pow2_def)

lemma pow2_add: "pow2 (a + b) = pow2 a * pow2 b"
  by (simp add: pow2_def power_int_add)

lemma pow2_strict: "a < b \<Longrightarrow> pow2 a < pow2 b"
  unfolding pow2_def by (rule power_int_strict_increasing) simp_all

lemma pow2_less [simp]: "pow2 a < pow2 b \<longleftrightarrow> a < b"
  using pow2_strict[of a b] pow2_strict[of b a] by (cases a b rule: linorder_cases) auto

lemma pow2_le [simp]: "pow2 a \<le> pow2 b \<longleftrightarrow> a \<le> b"
  by (simp flip: linorder_not_less)

lemma pow2_nat: "pow2 (int n) = 2 ^ n"
  by (simp add: pow2_def)

lemma pow2_div: "pow2 a / pow2 b = pow2 (a - b)"
  by (simp add: pow2_def power_int_diff)

lemma bitlen_pow2_bounds:
  assumes "0 < n"
  shows "pow2 (bitlen n - 1) \<le> of_int n" "of_int n < pow2 (bitlen n)"
proof -
  have b: "1 \<le> bitlen n" using assms bitlen_eq_zero_iff[of n] bitlen_nonneg[of n] by linarith
  have "pow2 (bitlen n - 1) = of_int (2 ^ nat (bitlen n - 1))" "pow2 (bitlen n) = of_int (2 ^ nat (bitlen n))"
    using b pow2_nat[of "nat (bitlen n - 1)"] pow2_nat[of "nat (bitlen n)"] by simp_all
  with bitlen_bounds[OF assms] show "pow2 (bitlen n - 1) \<le> of_int n" "of_int n < pow2 (bitlen n)"
    by (simp_all only: of_int_le_iff of_int_less_iff)
qed

lemma ilog2_bounds:
  assumes "0 < q"
  shows "pow2 (ilog2 q) \<le> q \<and> q < pow2 (ilog2 q + 1)"
proof -
  obtain n d where nd: "quotient_of q = (n, d)" by (cases "quotient_of q")
  have d: "0 < d" and q: "q = of_int n / of_int d"
    using quotient_of_denom_pos[OF nd] quotient_of_div[OF nd] by auto
  have n: "0 < n" using assms d q by (simp add: zero_less_divide_iff)
  let ?e = "bitlen n - bitlen d"
  have "pow2 (bitlen n - 1) / pow2 (bitlen d) \<le> q"
    unfolding q using bitlen_pow2_bounds[OF n] bitlen_pow2_bounds[OF d]
    by (intro frac_le) (use n d in auto)
  then have lo: "pow2 (?e - 1) \<le> q" by (simp add: pow2_div algebra_simps)
  have "q < pow2 (bitlen n) / pow2 (bitlen d - 1)"
    unfolding q using bitlen_pow2_bounds[OF n] bitlen_pow2_bounds[OF d] d n
    by (intro frac_less) auto
  then have hi: "q < pow2 (?e + 1)" by (simp add: pow2_div algebra_simps)
  show ?thesis using lo hi by (auto simp: ilog2_def nd Let_def)
qed

lemma ilog2_le: "0 < q \<Longrightarrow> q < pow2 (k + 1) \<Longrightarrow> ilog2 q \<le> k"
  using ilog2_bounds[of q] pow2_less[of "ilog2 q" "k + 1"] by linarith

lemma ilog2_mono: "0 < x \<Longrightarrow> x \<le> y \<Longrightarrow> ilog2 x \<le> ilog2 y"
  using ilog2_bounds[of x] ilog2_bounds[of y] ilog2_le[of x "ilog2 y"] by linarith

lemma half_even_err: "\<bar>of_int (half_even q) - q\<bar> \<le> 1 / 2"
  unfolding half_even_def Let_def using floor_correct[of q] by auto

lemma half_even_of_int [simp]: "half_even (of_int n) = n"
  by (simp add: half_even_def)

lemma half_even_bounds: "\<lfloor>q\<rfloor> \<le> half_even q \<and> half_even q \<le> \<lfloor>q\<rfloor> + 1"
  by (simp add: half_even_def Let_def)

lemma half_even_mono: "x \<le> y \<Longrightarrow> half_even x \<le> half_even y"
proof (cases "\<lfloor>x\<rfloor> = \<lfloor>y\<rfloor>")
  case True
  assume "x \<le> y"
  with True show ?thesis by (auto simp: half_even_def Let_def)
next
  case False
  assume "x \<le> y"
  with False have "\<lfloor>x\<rfloor> + 1 \<le> \<lfloor>y\<rfloor>" using floor_mono[of x y] by linarith
  with half_even_bounds[of x] half_even_bounds[of y] show ?thesis by linarith
qed

lemma ulp_pos [simp]: "0 < ulp q"
  by (simp add: ulp_def)

text \<open>Multiples of the unit are kept.\<close>

lemma rnd_pos_ge:
  assumes "of_int k * ulp q \<le> q"
  shows "of_int k * ulp q \<le> rnd_pos q"
proof -
  have "of_int k \<le> q / ulp q" using assms by (simp add: pos_le_divide_eq)
  from half_even_mono[OF this] have "k \<le> half_even (q / ulp q)" by simp
  then show ?thesis by (simp add: rnd_pos_def)
qed

lemma rnd_pos_le:
  assumes "q \<le> of_int k * ulp q"
  shows "rnd_pos q \<le> of_int k * ulp q"
proof -
  have "q / ulp q \<le> of_int k" using assms by (simp add: pos_divide_le_eq)
  from half_even_mono[OF this] have "half_even (q / ulp q) \<le> k" by simp
  then show ?thesis by (simp add: rnd_pos_def)
qed

lemma pow2_of_int: "0 \<le> k \<Longrightarrow> pow2 k = of_int (2 ^ nat k)"
  using pow2_nat[of "nat k"] by simp

lemma rnd_pos_mono:
  assumes "0 < x" "x \<le> y"
  shows "rnd_pos x \<le> rnd_pos y"
proof (cases "ulp x = ulp y")
  case True
  have "x / ulp y \<le> y / ulp y" using assms by (intro divide_right_mono) (auto intro: less_imp_le)
  then show ?thesis
    unfolding rnd_pos_def True using half_even_mono by (simp add: mult_right_mono)
next
  case False
  have l: "ilog2 x \<le> ilog2 y" using assms by (rule ilog2_mono)
  let ?k = "ilog2 y"
  from False l have k: "- 1074 < ?k - 52" "ilog2 x < ?k" by (auto simp: ulp_def max_def order_less_le split: if_splits)
  have uy: "ulp y = pow2 (?k - 52)" using k by (simp add: ulp_def)
  have "pow2 ?k = of_int (2 ^ 52) * ulp y"
    unfolding uy using pow2_add[of 52 "?k - 52"] pow2_nat[of 52] by simp
  then have hi: "pow2 ?k \<le> rnd_pos y"
    using rnd_pos_ge[of "2 ^ 52" y] ilog2_bounds[of y] assms by simp
  obtain u where u: "ulp x = pow2 u" "u \<le> ?k" using k l by (auto simp: ulp_def)
  have e: "pow2 ?k = of_int (2 ^ nat (?k - u)) * ulp x"
    using u pow2_add[of "?k - u" u] pow2_of_int[of "?k - u"] by simp
  have "x \<le> pow2 ?k"
    using ilog2_bounds[of x] assms(1) k(2) pow2_le[of "ilog2 x + 1" ?k] by linarith
  then have "rnd_pos x \<le> pow2 ?k" using rnd_pos_le[of x "2 ^ nat (?k - u)"] e by simp
  with hi show ?thesis by simp
qed

lemma rnd_pos_nonneg: "0 < q \<Longrightarrow> 0 \<le> rnd_pos q"
  using rnd_pos_ge[of 0 q] by simp

lemma rnd_0 [simp]: "rnd 0 = 0"
  by (simp add: rnd_def)

lemma rnd_nonneg: "0 \<le> q \<Longrightarrow> 0 \<le> rnd q"
  by (simp add: rnd_def rnd_pos_nonneg)

lemma rnd_nonpos: "q \<le> 0 \<Longrightarrow> rnd q \<le> 0"
  by (simp add: rnd_def rnd_pos_nonneg)

lemma rnd_mono: "x \<le> y \<Longrightarrow> rnd x \<le> rnd y"
proof -
  assume "x \<le> y"
  then consider "x \<le> 0" "0 \<le> y" | "0 < x" | "y < 0" by linarith
  then show ?thesis
  proof cases
    case 1
    then show ?thesis using rnd_nonpos[of x] rnd_nonneg[of y] by linarith
  next
    case 2
    then show ?thesis using \<open>x \<le> y\<close> rnd_pos_mono by (simp add: rnd_def)
  next
    case 3
    then show ?thesis using \<open>x \<le> y\<close> rnd_pos_mono[of "- y" "- x"] by (simp add: rnd_def)
  qed
qed

text \<open>Every integer of at most 53 bits is a \<^verbatim>\<open>float64\<close>.\<close>

lemma rnd_pos_scaled:
  assumes "0 < n" "n < 2 ^ 53" "- 1074 \<le> k"
  shows "rnd_pos (of_int n * pow2 k) = of_int n * pow2 k"
proof -
  let ?x = "of_int n * pow2 k"
  have "of_int n < pow2 53" using assms pow2_nat[of 53] of_int_less_iff[of n "2 ^ 53"] by simp
  then have "?x < pow2 (52 + k + 1)" using pow2_add[of 53 k] by (simp add: add.commute)
  then have "ilog2 ?x \<le> 52 + k" using ilog2_le[of ?x "52 + k"] assms by simp
  then obtain u where u: "ulp ?x = pow2 u" "u \<le> k" using assms(3) by (auto simp: ulp_def)
  have "?x = of_int (n * 2 ^ nat (k - u)) * ulp ?x"
    using u pow2_add[of "k - u" u] pow2_of_int[of "k - u"] by simp
  then show ?thesis
    using rnd_pos_le[of ?x "n * 2 ^ nat (k - u)"] rnd_pos_ge[of "n * 2 ^ nat (k - u)" ?x] by linarith
qed

lemma rnd_pos_int:
  assumes "0 < n" "n \<le> 2 ^ 53"
  shows "rnd_pos (of_int n) = of_int n"
proof (cases "n = 2 ^ 53")
  case True
  then have "(of_int n :: rat) = of_int 1 * pow2 53" using pow2_nat[of 53] by simp
  then show ?thesis using rnd_pos_scaled[of 1 53] by simp
next
  case False
  then show ?thesis using rnd_pos_scaled[of n 0] assms by (simp add: pow2_def)
qed

text \<open>Rounding is idempotent: its results have at most 53 significant bits.\<close>

lemma rnd_pos_bits:
  assumes "0 < q"
  shows "0 \<le> half_even (q / ulp q)" "half_even (q / ulp q) \<le> 2 ^ 53"
proof -
  have "0 \<le> q / ulp q" using assms by (simp add: less_imp_le)
  from half_even_mono[OF this] show "0 \<le> half_even (q / ulp q)" using half_even_of_int[of 0] by simp
  have "q < pow2 (53 + (ilog2 q - 52))" using ilog2_bounds[OF assms] by (simp add: add.commute)
  also have "\<dots> = pow2 53 * pow2 (ilog2 q - 52)" by (rule pow2_add)
  also have "\<dots> \<le> pow2 53 * ulp q" by (simp add: ulp_def)
  finally have "q \<le> of_int (2 ^ 53) * ulp q" using pow2_nat[of 53] by simp
  then have "q / ulp q \<le> of_int (2 ^ 53)" by (simp add: pos_divide_le_eq)
  from half_even_mono[OF this] show "half_even (q / ulp q) \<le> 2 ^ 53"
    using half_even_of_int[of "2 ^ 53"] by (simp only:)
qed

lemma rnd_pos_idem:
  assumes "0 < q"
  shows "rnd (rnd_pos q) = rnd_pos q"
proof -
  let ?m = "half_even (q / ulp q)"
  obtain u where u: "ulp q = pow2 u" "- 1074 \<le> u" by (auto simp: ulp_def)
  consider "?m = 0" | "0 < ?m" "?m < 2 ^ 53" | "?m = 2 ^ 53" using rnd_pos_bits[OF assms] by linarith
  then show ?thesis
  proof cases
    case 2
    then show ?thesis using rnd_pos_scaled[of ?m u] u by (simp add: rnd_def rnd_pos_def[of q])
  next
    case 3
    then have "rnd_pos q = of_int 1 * pow2 (53 + u)"
      using u pow2_add[of 53 u] pow2_nat[of 53] by (simp add: rnd_pos_def)
    then show ?thesis using rnd_pos_scaled[of 1 "53 + u"] u(2) by (simp add: rnd_def)
  qed (simp add: rnd_pos_def)
qed

lemma rnd_minus: "rnd (- q) = - rnd q"
  by (simp add: rnd_def)

lemma rnd_idem [simp]: "rnd (rnd q) = rnd q"
proof -
  consider "q = 0" | "0 < q" | "q < 0" by linarith
  then show ?thesis
  proof cases
    case 3
    then show ?thesis using rnd_pos_idem[of "- q"] rnd_minus[of "rnd_pos (- q)"] by (simp add: rnd_def)
  qed (simp_all add: rnd_pos_idem rnd_def[of q])
qed

lemma rnd_int: "\<bar>n\<bar> \<le> 2 ^ 53 \<Longrightarrow> rnd (of_int n) = of_int n"
  using rnd_pos_int[of n] rnd_pos_int[of "- n"] by (auto simp: rnd_def)

lemma rnd_le_int: "q \<le> of_int n \<Longrightarrow> \<bar>n\<bar> \<le> 2 ^ 53 \<Longrightarrow> rnd q \<le> of_int n"
  using rnd_mono[of q "of_int n"] rnd_int[of n] by simp

lemma rnd_ge_int: "of_int n \<le> q \<Longrightarrow> \<bar>n\<bar> \<le> 2 ^ 53 \<Longrightarrow> of_int n \<le> rnd q"
  using rnd_mono[of "of_int n" q] rnd_int[of n] by simp

section \<open>Facts about values\<close>

lemma mk_float_le_int:
  assumes "0 \<le> q" "q \<le> of_int n" "n \<le> 2 ^ 53"
  shows "mk_float q = Fin (rnd q) \<and> 0 \<le> rnd q \<and> rnd q \<le> of_int n"
proof -
  have n: "0 \<le> n" using assms(1,2) by (metis of_int_0_le_iff order_trans)
  have r: "0 \<le> rnd q" "rnd q \<le> of_int n"
    using rnd_nonneg[OF assms(1)] rnd_le_int[OF assms(2)] n assms(3) by simp_all
  have "(of_int n :: rat) \<le> of_int (2 ^ 53)" using assms(3) by (simp only: of_int_le_iff)
  then have "rnd q < max_exp" "- max_exp < rnd q" using r by (simp_all add: max_exp_def)
  then show ?thesis using r by (simp add: mk_float_def Let_def)
qed

section \<open>Decimal numerals\<close>

lemma digit_not_special: "is_digit c \<Longrightarrow> c \<noteq> CHR ''_'' \<and> c \<noteq> CHR ''.'' \<and> digit_of 10 c = Some (digit_val c)"
  by (auto simp: is_digit_def digit_of_def digit_val_def)

lemma scan_mant_digits:
  assumes "list_all is_digit ds"
  shows "scan_mant 10 dot nd m k (ds @ r) = scan_mant 10 dot (nd + length ds)
    (m * 10 ^ length ds + int (digits_val ds)) (if dot then k + length ds else k) r"
  using assms
proof (induction ds arbitrary: r rule: rev_induct)
  case (snoc d ds)
  from snoc.IH[of "d # r"] snoc.prems digit_not_special[of d] show ?case
    by (simp add: algebra_simps)
qed simp

lemma under_digits: "list_all is_digit ds \<Longrightarrow> ds \<noteq> [] \<Longrightarrow> under_loop False st (ds @ r) = under_loop False UDigit r"
proof (induction ds arbitrary: st)
  case (Cons d ds)
  then show ?case using digit_not_special[of d] by (cases ds) simp_all
qed simp

lemma digit_head:
  assumes "is_digit c"
  shows "strip_sign (c # cs) = (False, c # cs)" "special_float (c # cs) = None"
proof -
  have "c \<noteq> CHR ''-''" "c \<noteq> CHR ''+''" using assms by (auto simp: is_digit_def)
  then show "strip_sign (c # cs) = (False, c # cs)" by (simp add: strip_sign_def)
  have "to_lower c = c" using assms by (auto simp: to_lower_def is_digit_def Let_def)
  moreover have "c \<noteq> CHR ''i''" "c \<noteq> CHR ''n''" "c \<noteq> CHR ''+''" "c \<noteq> CHR ''-''"
    using assms by (auto simp: is_digit_def)
  ultimately show "special_float (c # cs) = None" by (simp add: special_float_def)
qed

lemma ParseFloat_decimal:
  assumes "list_all is_digit ds" "list_all is_digit fs" "ds \<noteq> []" "fs \<noteq> []"
  shows "ParseFloat (ds @ CHR ''.'' # fs) =
    (let x = mk_float (of_int (int (digits_val ds) * 10 ^ length fs + int (digits_val fs)) * 10 powi (- int (length fs)))
     in case x of Fin q \<Rightarrow> Some x | _ \<Rightarrow> None)"
proof -
  obtain c cs where ds: "ds = c # cs" "is_digit c" using assms(1,3) by (cases ds) auto
  let ?s = "ds @ CHR ''.'' # fs"
  have dot: "\<not> is_digit (CHR ''.'')" by (simp add: is_digit_def)
  have s1: "is_digit (?s ! 1) \<or> ?s ! 1 = CHR ''.''" using ds assms(1) by (cases cs) auto
  then have x: "to_lower (?s ! 1) \<notin> {CHR ''b'', CHR ''o'', CHR ''x''}"
    by (auto simp: to_lower_def is_digit_def Let_def split: if_splits)
  have st: "strip_sign ?s = (False, ?s)" "special_float ?s = None"
    using digit_head[OF ds(2)] ds(1) by simp_all
  have u: "underscoreOK ?s"
    using x assms(4) under_digits[OF assms(1,3), of UStart] under_digits[OF assms(2,4), of UOther "[]"] dot
    by (auto simp: underscoreOK_def st Let_def digit_of_def to_lower_def)
  have m: "scan_mant 10 False 0 0 0 ?s = (length ds + length fs,
      int (digits_val ds) * 10 ^ length fs + int (digits_val fs), length fs, [])"
    using scan_mant_digits[OF assms(1), of False 0 0 0] scan_mant_digits[OF assms(2), of True _ _ 0 "[]"] by simp
  show ?thesis
    unfolding ParseFloat_def st option.case Let_def prod.case using x m u assms(3)
    by (simp add: diff_0 cong: float64.case_cong)
qed

section \<open>Durations in seconds\<close>

text \<open>\<^verbatim>\<open>Duration.Seconds\<close>: whole seconds plus the remainder divided by a billion.\<close>

definition Seconds :: "int \<Rightarrow> rat" where
  "Seconds d = rnd (rnd (of_int (go_div d 1000000000)) + rnd (rnd (of_int (go_mod d 1000000000)) / 1000000000))"

end
