(* ===== verification/Rate_Limiter.thy ===== *)
theory Rate_Limiter
  imports Go_Float
begin

text \<open>
  \<^verbatim>\<open>src/internal/pipeline/rate.go\<close>: the token buckets, one per source. A \<^verbatim>\<open>float64\<close> is the rational it
  stands for and every arithmetic operation rounds; the values stay far below the range's end.
  The locale \<open>rounding\<close> states what the proofs use of the rounding function.
\<close>

section \<open>State and operations\<close>

record bucket =
  tokens :: rat
  lastSeen :: instant

record RateLimiter =
  rl_rate :: rat
  rl_burst :: rat
  rl_buckets :: "string \<Rightarrow> bucket option"

definition NewRateLimiter :: "int \<Rightarrow> int \<Rightarrow> RateLimiter" where
  "NewRateLimiter linesPerSec0 burst0 =
     (let linesPerSec = (if linesPerSec0 \<le> 0 then 10000 else linesPerSec0);
          burst = (if burst0 \<le> 0 then linesPerSec else burst0)
      in \<lparr>rl_rate = rnd (of_int linesPerSec), rl_burst = rnd (of_int burst), rl_buckets = (\<lambda>_. None)\<rparr>)"

text \<open>The bucket of a source, created full on its first use.\<close>

definition get_bucket :: "RateLimiter \<Rightarrow> string \<Rightarrow> instant \<Rightarrow> bucket" where
  "get_bucket r source now =
     (case rl_buckets r source of Some b \<Rightarrow> b | None \<Rightarrow> \<lparr>tokens = rl_burst r, lastSeen = now\<rparr>)"

text \<open>Go may fuse the multiplication and the addition into one rounding (it does on \<^verbatim>\<open>arm64\<close>, not on \<^verbatim>\<open>amd64\<close>);
  \<open>fma\<close> says whether it does.\<close>

definition refill :: "bool \<Rightarrow> RateLimiter \<Rightarrow> instant \<Rightarrow> bucket \<Rightarrow> bucket" where
  "refill fma r now b =
     (let elapsed = Seconds (Sub now (lastSeen b)) in
      if 0 < elapsed
      then let t = (if fma then rnd (tokens b + elapsed * rl_rate r) else rnd (tokens b + rnd (elapsed * rl_rate r)))
           in \<lparr>tokens = (if rl_burst r < t then rl_burst r else t), lastSeen = now\<rparr>
      else b)"

definition Allow :: "bool \<Rightarrow> string \<Rightarrow> instant \<Rightarrow> RateLimiter \<Rightarrow> bool \<times> RateLimiter" where
  "Allow fma source now r =
     (let b = refill fma r now (get_bucket r source now) in
      if 1 \<le> tokens b
      then (True, r\<lparr>rl_buckets := (rl_buckets r)(source \<mapsto> b\<lparr>tokens := rnd (tokens b - 1)\<rparr>)\<rparr>)
      else (False, r\<lparr>rl_buckets := (rl_buckets r)(source \<mapsto> b)\<rparr>))"

text \<open>A sequence of calls and their answers.\<close>

fun run_calls :: "bool \<Rightarrow> (string \<times> instant) list \<Rightarrow> RateLimiter \<Rightarrow> bool list \<times> RateLimiter" where
  "run_calls fma [] r = ([], r)"
| "run_calls fma ((s, t) # cs) r =
     (let (a, r1) = Allow fma s t r; (as, r2) = run_calls fma cs r1 in (a # as, r2))"

section \<open>What is used of rounding\<close>

locale rounding =
  fixes rd :: "rat \<Rightarrow> rat"
  assumes rd_mono: "x \<le> y \<Longrightarrow> rd x \<le> rd y"
    and rd_idem: "rd (rd x) = rd x"
    and rd_small_int: "\<bar>n\<bar> \<le> 2 ^ 53 \<Longrightarrow> rd (of_int n) = of_int n"
begin

lemma rd_zero: "rd 0 = 0"
  using rd_small_int[of 0] by simp

lemma rd_nonneg: "0 \<le> x \<Longrightarrow> 0 \<le> rd x"
  using rd_mono[of 0 x] rd_zero by simp

lemma rd_below: "x \<le> rd b \<Longrightarrow> rd x \<le> rd b"
  using rd_mono[of x "rd b"] rd_idem by simp

lemma rd_dec:
  assumes "1 \<le> t" "t \<le> rd b"
  shows "0 \<le> rd (t - 1) \<and> rd (t - 1) \<le> rd b"
  using rd_nonneg[of "t - 1"] rd_below[of "t - 1" b] assms by simp

text \<open>Counting down from an integer is exact.\<close>

lemma rd_dec_int: "0 \<le> n \<Longrightarrow> n \<le> 2 ^ 53 \<Longrightarrow> 1 \<le> n \<Longrightarrow> rd (of_int n - 1) = of_int (n - 1)"
  using rd_small_int[of "n - 1"] by simp

end

interpretation f64: rounding rnd
  by unfold_locales (simp_all add: rnd_mono rnd_int)

section \<open>Invariant\<close>

definition bucket_ok :: "RateLimiter \<Rightarrow> bucket \<Rightarrow> bool" where
  "bucket_ok r b \<longleftrightarrow> 0 \<le> tokens b \<and> tokens b \<le> rl_burst r"

definition rl_inv :: "RateLimiter \<Rightarrow> bool" where
  "rl_inv r \<longleftrightarrow> 0 \<le> rl_rate r \<and> 0 \<le> rl_burst r \<and> rnd (rl_burst r) = rl_burst r
     \<and> (\<forall>s b. rl_buckets r s = Some b \<longrightarrow> bucket_ok r b)"

lemma New_inv: "rl_inv (NewRateLimiter l b)"
  by (auto simp: rl_inv_def NewRateLimiter_def Let_def f64.rd_nonneg)

lemma get_bucket_ok: "rl_inv r \<Longrightarrow> bucket_ok r (get_bucket r s t)"
  by (simp add: rl_inv_def get_bucket_def bucket_ok_def split: option.splits)

lemma refill_ok:
  assumes "rl_inv r" "bucket_ok r b"
  shows "bucket_ok r (refill fma r now b)"
  using assms
  by (auto simp: rl_inv_def refill_def bucket_ok_def Let_def intro!: f64.rd_nonneg add_nonneg_nonneg)

lemma Allow_frame [simp]:
  "rl_rate (snd (Allow fma s t r)) = rl_rate r" "rl_burst (snd (Allow fma s t r)) = rl_burst r"
  "s' \<noteq> s \<Longrightarrow> rl_buckets (snd (Allow fma s t r)) s' = rl_buckets r s'"
  by (simp_all add: Allow_def Let_def)

lemma Allow_bucket:
  "rl_buckets (snd (Allow fma s t r)) s =
     Some (let b = refill fma r t (get_bucket r s t) in if 1 \<le> tokens b then b\<lparr>tokens := rnd (tokens b - 1)\<rparr> else b)"
  "fst (Allow fma s t r) \<longleftrightarrow> 1 \<le> tokens (refill fma r t (get_bucket r s t))"
  by (simp_all add: Allow_def Let_def)

lemma Allow_inv [inv_intros]: "rl_inv r \<Longrightarrow> rl_inv (snd (Allow fma s t r))"
proof -
  assume r: "rl_inv r"
  let ?b = "refill fma r t (get_bucket r s t)"
  have b: "bucket_ok r ?b" using r refill_ok get_bucket_ok by blast
  have d: "bucket_ok r (?b\<lparr>tokens := rnd (tokens ?b - 1)\<rparr>)" if "1 \<le> tokens ?b"
    using f64.rd_dec[of "tokens ?b" "rl_burst r"] that b r by (simp add: rl_inv_def bucket_ok_def)
  show ?thesis using r b d by (auto simp: rl_inv_def Allow_def Let_def bucket_ok_def)
qed

lemma run_calls_Cons:
  "run_calls fma ((s, t) # cs) r = (fst (Allow fma s t r) # fst (run_calls fma cs (snd (Allow fma s t r))),
     snd (run_calls fma cs (snd (Allow fma s t r))))"
  by (simp add: split_beta Let_def)

declare run_calls.simps(2) [simp del]

lemma run_inv: "rl_inv r \<Longrightarrow> rl_inv (snd (run_calls fma cs r))"
  by (induction cs arbitrary: r) (auto simp: run_calls_Cons Allow_inv)

lemma run_frame: "rl_rate (snd (run_calls fma cs r)) = rl_rate r \<and> rl_burst (snd (run_calls fma cs r)) = rl_burst r"
  by (induction cs arbitrary: r) (auto simp: run_calls_Cons)

text \<open>C34. Token buckets stay between empty and full: whatever the configuration, the calls and their
  clock readings (also one that goes backwards), every bucket holds between zero and \<open>burst\<close>
  tokens, in rounded arithmetic, whether or not the machine fuses the refill into one rounding.\<close>

theorem tokens_bounded:
  "(case rl_buckets (snd (run_calls fma cs (NewRateLimiter l b))) s of
      None \<Rightarrow> True
    | Some bk \<Rightarrow> 0 \<le> tokens bk \<and> tokens bk \<le> rl_burst (NewRateLimiter l b))"
  using run_inv[OF New_inv, of fma cs l b] run_frame[of fma cs "NewRateLimiter l b"]
  by (auto simp: rl_inv_def bucket_ok_def split: option.splits)

section \<open>Isolation of sources\<close>

text \<open>Two limiters that agree on one source.\<close>

definition same_for :: "string \<Rightarrow> RateLimiter \<Rightarrow> RateLimiter \<Rightarrow> bool" where
  "same_for s r r' \<longleftrightarrow> rl_rate r = rl_rate r' \<and> rl_burst r = rl_burst r' \<and> rl_buckets r s = rl_buckets r' s"

lemma same_for_Allow:
  assumes "same_for s r r'"
  shows "fst (Allow fma s t r) = fst (Allow fma s t r')" "same_for s (snd (Allow fma s t r)) (snd (Allow fma s t r'))"
proof -
  have g: "get_bucket r s t = get_bucket r' s t"
    using assms by (simp add: same_for_def get_bucket_def cong: option.case_cong)
  have "refill fma r t b = refill fma r' t b" for b
    using assms by (simp add: same_for_def refill_def Let_def)
  with g assms show "fst (Allow fma s t r) = fst (Allow fma s t r')"
    "same_for s (snd (Allow fma s t r)) (snd (Allow fma s t r'))"
    by (simp_all add: same_for_def Allow_bucket)
qed

lemma same_for_other: "s' \<noteq> s \<Longrightarrow> same_for s r r' \<Longrightarrow> same_for s (snd (Allow fma s' t r)) r'"
  by (simp add: same_for_def)

lemma run_isolated:
  assumes "same_for s r r'"
  shows "map snd (filter (\<lambda>(c, a). fst c = s) (zip cs (fst (run_calls fma cs r))))
    = fst (run_calls fma (filter (\<lambda>c. fst c = s) cs) r')"
  using assms
proof (induction cs arbitrary: r r')
  case (Cons c cs)
  obtain s' t where c: "c = (s', t)" by (cases c)
  show ?case
  proof (cases "s' = s")
    case True
    then show ?thesis using Cons.IH[OF same_for_Allow(2)[OF Cons.prems]] same_for_Allow(1)[OF Cons.prems]
      by (simp add: c run_calls_Cons)
  next
    case False
    then show ?thesis using Cons.IH[OF same_for_other[OF False Cons.prems]] by (simp add: c run_calls_Cons)
  qed
qed simp

text \<open>C35. Sources are isolated: in any interleaving of calls the answers one source gets are those it
  would get alone, so a chatty source cannot starve a quiet one.\<close>

theorem sources_isolated:
  "map snd (filter (\<lambda>(c, a). fst c = s) (zip cs (fst (run_calls fma cs r))))
    = fst (run_calls fma (filter (\<lambda>c. fst c = s) cs) r)"
  by (rule run_isolated) (simp add: same_for_def)

section \<open>Bursts\<close>

lemma go_div_nonpos: "a \<le> 0 \<Longrightarrow> 0 < b \<Longrightarrow> go_div a b \<le> 0"
  by (cases "a = 0") (auto simp: go_div_def pos_imp_zdiv_nonneg_iff)

lemma go_mod_nonpos:
  assumes "a \<le> 0" "0 < b"
  shows "go_mod a b \<le> 0"
proof (cases "a = 0")
  case False
  then have "go_mod a b = a + b * (- a div b)" using assms by (simp add: go_mod_def go_div_def)
  also have "\<dots> = - (- a mod b)" using mult_div_mod_eq[of b "- a"] by linarith
  finally have "go_mod a b = - (- a mod b)" .
  then show ?thesis using assms by simp
qed (simp add: go_mod_def go_div_def)

lemma Seconds_nonpos: "d \<le> 0 \<Longrightarrow> Seconds d \<le> 0"
  unfolding Seconds_def
  by (intro rnd_nonpos add_nonpos_nonpos divide_nonpos_pos)
    (simp_all add: rnd_nonpos go_div_nonpos go_mod_nonpos)

lemma no_refill: "now \<le> lastSeen b \<Longrightarrow> refill fma r now b = b"
  using Seconds_nonpos[of "Sub now (lastSeen b)"] by (simp add: refill_def Sub_def Let_def)

lemma drain_bucket:
  assumes "rl_buckets r s = Some \<lparr>tokens = of_nat n, lastSeen = t0\<rparr>" "int n \<le> 2 ^ 53" "\<forall>t\<in>set ts. t \<le> t0"
  shows "fst (run_calls fma (map (Pair s) ts) r)
    = replicate (min n (length ts)) True @ replicate (length ts - n) False"
  using assms
proof (induction ts arbitrary: n r)
  case (Cons t ts)
  let ?b = "\<lparr>tokens = of_nat n, lastSeen = t0\<rparr>"
  have b: "refill fma r t (get_bucket r s t) = ?b" using Cons.prems by (simp add: get_bucket_def no_refill)
  show ?case
  proof (cases n)
    case 0
    have "rl_buckets (snd (Allow fma s t r)) s = Some \<lparr>tokens = of_nat 0, lastSeen = t0\<rparr>"
      using Allow_bucket(1)[of fma s t r] b 0 by simp
    from Cons.IH[OF this] Cons.prems show ?thesis using Allow_bucket(2)[of fma s t r] b 0
      by (simp add: run_calls_Cons)
  next
    case (Suc m)
    have "rnd (of_int (int n) - 1) = of_int (int n - 1)"
      using f64.rd_dec_int[of "int n"] Cons.prems(2) Suc by simp
    then have "rl_buckets (snd (Allow fma s t r)) s = Some \<lparr>tokens = of_nat m, lastSeen = t0\<rparr>"
      using Allow_bucket(1)[of fma s t r] b Suc by simp
    from Cons.IH[OF this] Cons.prems Suc show ?thesis using Allow_bucket(2)[of fma s t r] b
      by (simp add: run_calls_Cons)
  qed
qed simp

text \<open>Bursts are exact: a source that starts on a fresh limiter and calls without the clock
  advancing is allowed exactly its first \<open>burst\<close> lines and refused every later one, for every burst
  a \<^verbatim>\<open>float64\<close> counts exactly.\<close>

theorem burst_exact:
  assumes "0 < b" "b \<le> 2 ^ 53" "\<forall>t\<in>set ts. t \<le> t0"
  shows "fst (run_calls fma (map (Pair s) (t0 # ts)) (NewRateLimiter l b))
    = replicate (min (nat b) (length ts + 1)) True @ replicate (length ts + 1 - nat b) False"
proof -
  let ?r = "NewRateLimiter l b"
  have burst: "rl_burst ?r = of_nat (nat b)" using rnd_int[of b] assms(1,2) by (simp add: NewRateLimiter_def Let_def)
  let ?r' = "?r\<lparr>rl_buckets := (rl_buckets ?r)(s \<mapsto> \<lparr>tokens = of_nat (nat b), lastSeen = t0\<rparr>)\<rparr>"
  have "get_bucket ?r s t0 = get_bucket ?r' s t0"
    using burst by (simp add: get_bucket_def) (simp add: NewRateLimiter_def Let_def)
  then have "Allow fma s t0 ?r = Allow fma s t0 ?r'" by (simp add: Allow_def refill_def Let_def)
  then have "fst (run_calls fma (map (Pair s) (t0 # ts)) ?r) = fst (run_calls fma (map (Pair s) (t0 # ts)) ?r')"
    by (simp add: run_calls_Cons)
  also have "\<dots> = replicate (min (nat b) (length (t0 # ts))) True @ replicate (length (t0 # ts) - nat b) False"
    by (rule drain_bucket) (use assms in auto)
  finally show ?thesis by simp
qed

theorem burst_exact_witness:
  "fst (run_calls False (map (Pair ''syslog'') [100, 100, 99, 100]) (NewRateLimiter 5 2)) = [True, True, False, False]"
  using burst_exact[of 2 "[100, 99, 100]" 100 False "''syslog''" 5] by (simp add: numeral_2_eq_2)

end
