(* ===== verification/Syslog_Common.thy ===== *)
theory Syslog_Common
  imports Go_Time
begin

text \<open>
  \<^verbatim>\<open>src/internal/parser/syslog_common.go\<close>: the PRI field, the severity table and the trailing
  newline, shared by the parser theories.
\<close>

section \<open>Operations\<close>

definition maxPriority :: int where
  "maxPriority = 191"

text \<open>The loop of \<^verbatim>\<open>parsePriorityField\<close> from index \<open>i\<close>: the index of the closing bracket if it was
  found, and the number read.\<close>

function pri_loop :: "string \<Rightarrow> nat \<Rightarrow> int \<Rightarrow> (sentinel, nat option \<times> int) result" where
  "pri_loop s i prio =
     (if i < length s \<and> i \<le> 4
      then let c = s ! i in
        if c = CHR ''>'' then Inr (Some i, prio)
        else if \<not> is_digit c then Inl ErrInvalidPriority
        else pri_loop s (i + 1) (prio * 10 + int (digit_val c))
      else Inr (None, prio))"
  by pat_completeness auto
termination
  by (relation "measure (\<lambda>(s, i, p). 5 - i)") auto

declare pri_loop.simps [simp del]

definition parsePriorityField :: "string \<Rightarrow> (sentinel, string \<times> int \<times> int) result" where
  "parsePriorityField s =
     (if length s < 3 \<or> hd s \<noteq> CHR ''<'' then Inl ErrInvalidFormat
      else case pri_loop s 1 0 of
        Inl e \<Rightarrow> Inl e
      | Inr (end, prio) \<Rightarrow>
          (case end of
             None \<Rightarrow> Inl ErrInvalidPriority
           | Some i \<Rightarrow>
               if i = 1 then Inl ErrInvalidPriority
               else if maxPriority < prio then Inl ErrInvalidPriority
               else Inr (drop (i + 1) s, prio div 8, prio mod 8)))"

definition severityToLevel :: "int \<Rightarrow> Level" where
  "severityToLevel severity =
     (if severity = 0 then LevelEmergency
      else if severity = 1 then LevelAlert
      else if severity = 2 then LevelCritical
      else if severity = 3 then LevelError
      else if severity = 4 then LevelWarning
      else if severity = 5 then LevelNotice
      else if severity = 6 then LevelInfo
      else if severity = 7 then LevelDebug
      else LevelWarning)"

definition trimTrailingNewline :: "string \<Rightarrow> string" where
  "trimTrailingNewline line =
     (let l1 = (if line \<noteq> [] \<and> last line = CHR 0x0A then butlast line else line)
      in if l1 \<noteq> [] \<and> last l1 = CHR 0x0D then butlast l1 else l1)"

section \<open>Facts\<close>

lemma severityToLevel_le: "severityToLevel n \<le> 7"
  by (simp add: severityToLevel_def)

lemma severityToLevel_unat: "0 \<le> n \<Longrightarrow> n \<le> 7 \<Longrightarrow> int (unat (severityToLevel n)) = n"
proof -
  assume "0 \<le> n" "n \<le> 7"
  then consider "n = 0" | "n = 1" | "n = 2" | "n = 3" | "n = 4" | "n = 5" | "n = 6" | "n = 7"
    by linarith
  then show ?thesis by cases (simp_all add: severityToLevel_def)
qed

lemma trim_Nil [simp]: "trimTrailingNewline [] = []"
  by (simp add: trimTrailingNewline_def)

lemma trim_none: "l = [] \<or> (last l \<noteq> CHR 0x0A \<and> last l \<noteq> CHR 0x0D) \<Longrightarrow> trimTrailingNewline l = l"
  by (auto simp: trimTrailingNewline_def)

lemma trim_lf:
  "l = [] \<or> last l \<noteq> CHR 0x0D \<Longrightarrow> trimTrailingNewline (l @ [CHR 0x0A]) = l"
  by (auto simp: trimTrailingNewline_def)

text \<open>The loop on a block of digits that fits the four-byte window.\<close>

lemma pri_loop_digits:
  assumes "list_all is_digit ds" "length pre + length ds \<le> 4"
  shows "pri_loop (pre @ ds @ CHR ''>'' # rest) (length pre) p
    = Inr (Some (length pre + length ds), foldl (\<lambda>n c. n * 10 + int (digit_val c)) p ds)"
  using assms
proof (induction ds arbitrary: pre p)
  case Nil
  then show ?case by (subst pri_loop.simps) simp
next
  case (Cons d ds)
  have nd: "d \<noteq> CHR ''>''" using Cons.prems by (auto simp: is_digit_def)
  from Cons.IH[of "pre @ [d]" "p * 10 + int (digit_val d)"] Cons.prems nd
  show ?case by (subst pri_loop.simps) (simp add: Let_def)
qed

lemma foldl_digits: "foldl (\<lambda>n c. n * 10 + int (digit_val c)) (int p) ds
    = int (foldl (\<lambda>n c. n * 10 + digit_val c) p ds)"
proof (induction ds arbitrary: p)
  case (Cons d ds)
  from Cons.IH[of "p * 10 + digit_val d"] show ?case by simp
qed simp

text \<open>Inversion: what a successful scan has read.\<close>

lemma pri_loop_found:
  assumes "pri_loop s i p = Inr (Some e, q)"
  shows "i \<le> e \<and> e \<le> 4 \<and> e < length s \<and> s ! e = CHR ''>'' \<and> list_all is_digit (take (e - i) (drop i s))
    \<and> q = foldl (\<lambda>n c. n * 10 + int (digit_val c)) p (take (e - i) (drop i s))"
  using assms
proof (induction s i p rule: pri_loop.induct)
  case (1 s i p)
  from "1.prems" have b: "i < length s" "i \<le> 4" by (subst (asm) pri_loop.simps, simp split: if_splits)+
  show ?case
  proof (cases "s ! i = CHR ''>''")
    case True
    then show ?thesis using "1.prems" b by (subst (asm) pri_loop.simps) (simp add: Let_def)
  next
    case False
    have "pri_loop s i p = (if \<not> is_digit (s ! i) then Inl ErrInvalidPriority
        else pri_loop s (i + 1) (p * 10 + int (digit_val (s ! i))))"
      using b False pri_loop.simps[of s i p] by (simp add: Let_def)
    then have d: "is_digit (s ! i)"
      and rec: "pri_loop s (i + 1) (p * 10 + int (digit_val (s ! i))) = Inr (Some e, q)"
      using "1.prems" by (simp_all split: if_splits)
    have ih: "i + 1 \<le> e \<and> e \<le> 4 \<and> e < length s \<and> s ! e = CHR ''>''
      \<and> list_all is_digit (take (e - (i + 1)) (drop (i + 1) s))
      \<and> q = foldl (\<lambda>n c. n * 10 + int (digit_val c)) (p * 10 + int (digit_val (s ! i)))
            (take (e - (i + 1)) (drop (i + 1) s))"
      using "1.IH" b False d rec by simp
    have "drop i s = s ! i # drop (i + 1) s" using b by (simp add: Cons_nth_drop_Suc)
    moreover have "e - i = Suc (e - (i + 1))" using ih by linarith
    ultimately show ?thesis using ih d by simp
  qed
qed

lemma parsePriorityField_digits:
  assumes "list_all is_digit ds" "ds \<noteq> []" "length ds \<le> 3" "digits_val ds \<le> 191"
  shows "parsePriorityField (CHR ''<'' # ds @ CHR ''>'' # rest)
    = Inr (rest, int (digits_val ds) div 8, int (digits_val ds) mod 8)"
proof -
  have "pri_loop (CHR ''<'' # ds @ CHR ''>'' # rest) 1 0 = Inr (Some (1 + length ds), int (digits_val ds))"
    using pri_loop_digits[OF assms(1), of "''<''" rest 0] assms(3) foldl_digits[of 0 ds]
    by (simp add: digits_val_def)
  moreover have "3 \<le> length (CHR ''<'' # ds @ CHR ''>'' # rest)" using assms(2) by (cases ds) auto
  ultimately show ?thesis using assms(2,4)
    by (simp add: parsePriorityField_def maxPriority_def)
qed

lemma parsePriorityField_Inr:
  assumes "parsePriorityField s = Inr (rest, f, v)"
  obtains ds where "s = CHR ''<'' # ds @ CHR ''>'' # rest" "list_all is_digit ds" "ds \<noteq> []" "length ds \<le> 3"
    "digits_val ds \<le> 191" "f = int (digits_val ds) div 8" "v = int (digits_val ds) mod 8"
proof -
  from assms have h: "3 \<le> length s" "hd s = CHR ''<''"
    by (auto simp: parsePriorityField_def split: if_splits)
  with assms obtain e q where l: "pri_loop s 1 0 = Inr (Some e, q)" and e: "e \<noteq> 1" "q \<le> 191"
    "rest = drop (e + 1) s" "f = q div 8" "v = q mod 8"
    by (auto simp: parsePriorityField_def maxPriority_def split: sum.splits prod.splits option.splits if_splits)
  let ?ds = "take (e - 1) (drop 1 s)"
  note f = pri_loop_found[OF l]
  have q: "q = int (digits_val ?ds)" using f foldl_digits[of 0 ?ds] by (simp add: digits_val_def)
  obtain l where s: "s = CHR ''<'' # l" using h by (cases s) auto
  have "e - 1 < length l" using f e(1) s by auto
  then have "l = take (e - 1) l @ l ! (e - 1) # drop (Suc (e - 1)) l" by (rule id_take_nth_drop)
  then have "s = CHR ''<'' # ?ds @ CHR ''>'' # rest" using f e(1,3) s by (cases e) auto
  moreover have "list_all is_digit ?ds" using f by blast
  moreover have "length ?ds = e - 1" "1 \<le> e" "e \<le> 4" using f by auto
  then have "?ds \<noteq> []" "length ?ds \<le> 3" using e(1) by (fastforce, linarith)
  moreover have "digits_val ?ds \<le> 191" using e(2) q by linarith
  ultimately show ?thesis using that e(4,5) q by metis
qed

end
