(* ===== verification/Parser_Env.thy ===== *)
theory Parser_Env
  imports Syslog_Common Go_Float
begin

text \<open>
  What the parser constructors take from outside: the clock, the local time zone, the time zone
  database, \<^verbatim>\<open>/proc/uptime\<close> and the machine's conversion of an out of range \<^verbatim>\<open>float64\<close> to an integer,
  as fields of one record; and the dynamically typed option map
  \<^verbatim>\<open>map[string]any\<close> of a \<^verbatim>\<open>Factory\<close>.
\<close>

record parser_env =
  env_now :: instant
  env_year :: int
  env_local :: location
  env_load :: "string \<Rightarrow> location option"
  env_uptime :: "string option"
  env_cvt :: "float64 \<Rightarrow> int"

datatype anyval = AnyInt int | AnyInt64 int | AnyString string | AnyBool bool | AnyOther

type_synonym options = "string \<Rightarrow> anyval option"

text \<open>The type assertions \<^verbatim>\<open>v, ok := raw[k].(T)\<close>.\<close>

fun as_string :: "anyval option \<Rightarrow> string option" where
  "as_string (Some (AnyString s)) = Some s"
| "as_string _ = None"

fun as_bool :: "anyval option \<Rightarrow> bool option" where
  "as_bool (Some (AnyBool b)) = Some b"
| "as_bool _ = None"

fun as_int :: "anyval option \<Rightarrow> int option" where
  "as_int (Some (AnyInt n)) = Some n"
| "as_int _ = None"

fun as_int64 :: "anyval option \<Rightarrow> int option" where
  "as_int64 (Some (AnyInt64 n)) = Some n"
| "as_int64 _ = None"

section \<open>Lengths of decimal numerals\<close>

lemma dec_digits_length: "0 < k \<Longrightarrow> n < 10 ^ k \<Longrightarrow> length (dec_digits n) \<le> k"
proof (induction n arbitrary: k rule: dec_digits.induct)
  case (1 n)
  show ?case
  proof (cases "n < 10")
    case True
    then show ?thesis using "1.prems" by (subst dec_digits.simps) simp
  next
    case False
    obtain j where k: "k = Suc j" "0 < j" using "1.prems" False by (cases k; cases "k - 1") auto
    then have "n div 10 < 10 ^ j" using "1.prems" by (simp add: div_less_iff_less_mult mult.commute)
    with "1.IH"[OF False, of j] k have "length (dec_digits (n div 10)) \<le> j" by simp
    then show ?thesis using False k by (subst dec_digits.simps) simp
  qed
qed

lemma parsePriorityField_dec:
  "p \<le> 191 \<Longrightarrow> parsePriorityField (CHR ''<'' # dec_digits p @ CHR ''>'' # rest)
     = Inr (rest, int p div 8, int p mod 8)"
  using parsePriorityField_digits[OF dec_digits_digits dec_digits_ne, of p rest]
    dec_digits_length[of 3 p] by simp

lemma digit_not_in: "list_all is_digit ds \<Longrightarrow> \<not> is_digit c \<Longrightarrow> c \<notin> set ds"
  by (auto simp: list_all_iff)

lemma dec_digits_no_bracket [simp]: "CHR '']'' \<notin> set (dec_digits n)"
  by (rule digit_not_in[OF dec_digits_digits]) (simp add: is_digit_def)

section \<open>Line ends\<close>

text \<open>Line ends that \<^const>\<open>trimTrailingNewline\<close> removes.\<close>

definition line_ends :: "string list" where
  "line_ends = [[], [CHR 0x0A], [CHR 0x0D, CHR 0x0A]]"

lemma trim_line_end:
  assumes "eol \<in> set line_ends" "l \<noteq> []" "last l \<noteq> CHR 0x0A" "last l \<noteq> CHR 0x0D"
  shows "trimTrailingNewline (l @ eol) = l"
  using assms by (auto simp: line_ends_def trimTrailingNewline_def butlast_append)

end
