(* ===== verification/Parser_BSD.thy ===== *)
theory Parser_BSD
  imports Parser_Env
begin

text \<open>
  \<^verbatim>\<open>src/internal/parser/syslog_bsd.go\<close>: the RFC 3164 parser, its two constructors, and the
  round trip with a printer of well-formed RFC 3164 lines.
\<close>

section \<open>Configuration and construction\<close>

record SyslogBSDConfig =
  DefaultYear :: int
  Timezone :: string
  Strict :: bool

record syslogBSD =
  bsd_defaultYear :: int
  bsd_loc :: location
  bsd_strict :: bool

text \<open>The only error is a time zone name that does not load.\<close>

definition NewSyslogBSD :: "parser_env \<Rightarrow> SyslogBSDConfig \<Rightarrow> (string, syslogBSD) result" where
  "NewSyslogBSD env cfg =
     (let p = \<lparr>bsd_defaultYear = DefaultYear cfg, bsd_loc = env_local env, bsd_strict = Strict cfg\<rparr>;
          p1 = (if bsd_defaultYear p = 0 then p\<lparr>bsd_defaultYear := env_year env\<rparr> else p)
      in if Timezone cfg \<noteq> []
         then (case env_load env (Timezone cfg) of
                 None \<Rightarrow> Inl ''syslog_bsd: load timezone''
               | Some l \<Rightarrow> Inr (p1\<lparr>bsd_loc := l\<rparr>))
         else Inr p1)"

definition newSyslogBSD :: "parser_env \<Rightarrow> options \<Rightarrow> (string, syslogBSD) result" where
  "newSyslogBSD env raw =
     (let y = (case as_int (raw ''default_year'') of
                 Some v \<Rightarrow> v
               | None \<Rightarrow> (case as_int64 (raw ''default_year'') of Some v \<Rightarrow> v | None \<Rightarrow> 0));
          tz = (case as_string (raw ''timezone'') of Some v \<Rightarrow> v | None \<Rightarrow> []);
          st = (case as_bool (raw ''strict'') of Some v \<Rightarrow> v | None \<Rightarrow> False)
      in NewSyslogBSD env \<lparr>DefaultYear = y, Timezone = tz, Strict = st\<rparr>)"

section \<open>Parsing\<close>

definition splitTagAndMessage :: "string \<Rightarrow> bool \<Rightarrow> string \<times> int \<times> string" where
  "splitTagAndMessage s strict =
     (case IndexAny s ''[: '' of
        None \<Rightarrow> (s, 0, [])
      | Some e \<Rightarrow>
          (let tag = take e s; rest = drop e s;
               (pid, rest1) =
                 (if HasPrefix rest ''[''
                  then (case IndexByte rest (CHR '']'') of
                          None \<Rightarrow> (0, rest)
                        | Some closeIdx \<Rightarrow>
                            if closeIdx > 0
                            then ((case Atoi (take (closeIdx - 1) (drop 1 rest)) of
                                     Some v \<Rightarrow> if v \<ge> 0 then v else if \<not> strict then 0 else 0
                                   | None \<Rightarrow> if \<not> strict then 0 else 0),
                                  drop (closeIdx + 1) rest)
                            else (0, rest))
                  else (0, rest))
           in (tag, pid, TrimLeft (TrimPrefix rest1 '':'') '' '')))"

definition syslogBSD_Parse :: "syslogBSD \<Rightarrow> Parser" where
  "syslogBSD_Parse p line0 =
     (let line = trimTrailingNewline line0 in
      if line = [] then Inl (wrap ''syslog_bsd'' ErrTruncatedLine)
      else rbind (map_err (wrap ''syslog_bsd: priority'') (parsePriorityField line))
        (\<lambda>(rest, facility, severity).
          if length rest < 15 then Inl (wrap ''syslog_bsd: timestamp'' ErrTruncatedLine)
          else case parse_fields syslogTimestampLayout (take 15 rest) of
            None \<Rightarrow> Inl (wrap ''syslog_bsd: timestamp'' ErrInvalidFormat)
          | Some t \<Rightarrow>
              (let ts = Date (bsd_defaultYear p) (t_month t) (t_day t) (t_hour t) (t_min t) (t_sec t) 0
                          (bsd_loc p);
                   rest1 = drop 15 rest
               in if rest1 = [] \<or> hd rest1 \<noteq> CHR '' ''
                  then Inl (wrap ''syslog_bsd: after timestamp'' ErrInvalidFormat)
                  else let rest2 = tl rest1 in
                    case IndexByte rest2 (CHR '' '') of
                      None \<Rightarrow> Inl (wrap ''syslog_bsd: hostname'' ErrInvalidFormat)
                    | Some hostEnd \<Rightarrow>
                        if hostEnd = 0 then Inl (wrap ''syslog_bsd: hostname'' ErrInvalidFormat)
                        else let (tag, pid, msg) = splitTagAndMessage (drop (hostEnd + 1) rest2) (bsd_strict p)
                          in Inr \<lparr>Timestamp = ts, Level = severityToLevel severity, Facility = facility,
                                  Hostname = take hostEnd rest2, Process = tag, PID = pid, Message = msg,
                                  Source = ''syslog_bsd'', Fields = []\<rparr>)))"

section \<open>The parser contract\<close>

lemma bsd_Inr:
  assumes "syslogBSD_Parse p l = Inr e"
  shows "Source e = ''syslog_bsd'' \<and> Fields e = [] \<and> Level e \<le> 7"
  using assms unfolding syslogBSD_Parse_def
  by (auto simp: Let_def rbind_eq_Inr severityToLevel_le
      split: if_splits option.splits prod.splits)

interpretation bsd: log_parser "syslogBSD_Parse p" "''syslog_bsd''" for p
  by unfold_locales (simp_all add: syslogBSD_Parse_def[of _ "[]"] bsd_Inr entry_ok_def)

section \<open>Round trip\<close>

text \<open>The fifteen bytes \<^verbatim>\<open>Mmm _D HH:MM:SS\<close>.\<close>

definition print_day :: "nat \<Rightarrow> string" where
  "print_day d = (if d < 10 then [CHR '' '', digit_char d] else pad2 d)"

definition print_stamp :: "nat \<Rightarrow> nat \<Rightarrow> nat \<Rightarrow> nat \<Rightarrow> nat \<Rightarrow> string" where
  "print_stamp m d h mi s = shortMonthNames ! (m - 1) @ CHR '' '' # print_day d @ CHR '' '' # pad2 h
     @ CHR '':'' # pad2 mi @ CHR '':'' # pad2 s"

text \<open>The separator before the message: a colon or none, and spaces. The pid is optional.\<close>

definition print_sep :: "bool \<Rightarrow> nat \<Rightarrow> string" where
  "print_sep colon spaces = (if colon then '':'' else []) @ replicate spaces (CHR '' '')"

definition print_pid :: "nat option \<Rightarrow> string" where
  "print_pid pid = (case pid of None \<Rightarrow> [] | Some k \<Rightarrow> CHR ''['' # dec_digits k @ '']'')"

definition print_bsd :: "nat \<Rightarrow> string \<Rightarrow> string \<Rightarrow> string \<Rightarrow> nat option \<Rightarrow> string \<Rightarrow> string \<Rightarrow> string" where
  "print_bsd pri stamp host tag pid sep msg =
     CHR ''<'' # dec_digits pri @ CHR ''>'' # stamp @ CHR '' '' # host @ CHR '' '' # tag @ print_pid pid @ sep @ msg"

definition pid_value :: "nat option \<Rightarrow> int" where
  "pid_value pid = (case pid of None \<Rightarrow> 0 | Some k \<Rightarrow> int k)"

lemma lookup_month:
  assumes "1 \<le> m" "m \<le> 12"
  shows "lookup_name shortMonthNames (shortMonthNames ! (m - 1) @ r) 1 = Some (int m, r)"
  using assms by (rule month_cases) (simp_all add: shortMonthNames_def to_lower_def Let_def)

lemma length_month:
  assumes "1 \<le> m" "m \<le> 12"
  shows "length (shortMonthNames ! (m - 1)) = 3"
  using assms by (rule month_cases) (simp_all add: shortMonthNames_def)

lemma length_print_stamp: "1 \<le> m \<Longrightarrow> m \<le> 12 \<Longrightarrow> length (print_stamp m d h mi s) = 15"
  using length_month[of m] by (simp add: print_stamp_def print_day_def pad2_def)

lemma digit_ne_space: "d < 10 \<Longrightarrow> digit_char d \<noteq> CHR '' ''"
  using is_digit_digit_char[of d] by (auto simp: is_digit_def)

lemma cutspace_day:
  assumes "d < 100"
  shows "cutspace (CHR '' '' # print_day d @ r) = (if d < 10 then digit_char d # r else pad2 d @ r)"
  using assms cutspace_pad2[of d r] by (auto simp: print_day_def cutspace_def digit_ne_space)

lemma space_not_digit [simp]: "\<not> is_digit (CHR '' '')"
  by (simp add: is_digit_def)

lemma parse_under_day:
  assumes "d < 100" "v = (if d < 10 then digit_char d # CHR '' '' # r else pad2 d @ CHR '' '' # r)"
  shows "parse_chunk StdUnderDay nxt v t = Some (CHR '' '' # r, t\<lparr>t_day := int d\<rparr>)"
proof (cases "d < 10")
  case True
  then show ?thesis using assms digit_ne_space[OF True] by simp
next
  case False
  then show ?thesis
    using assms pad2_ne_space[of d "CHR '' '' # r"] by simp
qed

lemma parse_stamp:
  assumes "1 \<le> m" "m \<le> 12" "1 \<le> d" "int d \<le> daysIn (int m) 0" "h < 24" "mi < 60" "s < 60"
  shows "parse_fields syslogTimestampLayout (print_stamp m d h mi s)
    = Some \<lparr>t_year = 0, t_month = int m, t_day = int d, t_hour = int h, t_min = int mi, t_sec = int s,
        t_nsec = 0, t_zone = None\<rparr>"
proof -
  have d: "d < 100"
    using daysIn_le_31[OF assms(1,2), of 0] assms(4) by linarith
  have sk: "skip (CHR '' '' # print_day d @ CHR '' '' # r) '' ''
      = Some (if d < 10 then digit_char d # CHR '' '' # r else pad2 d @ CHR '' '' # r)" for r
    using d by (simp add: cutspace_day) (simp add: cutspace_def)
  have sk2: "skip (CHR '' '' # pad2 h @ r) '' '' = Some (pad2 h @ r)" for r
    using assms(5) by simp (simp add: cutspace_def)
  have sec: "num_in True (pad2 s) 0 59 = Some (int s, [])"
    using num_in_pad2[of s True "[]" 0 59] assms(7) by simp
  have "parse_layout syslogTimestampLayout (print_stamp m d h mi s) tparts0
    = Some \<lparr>t_year = 0, t_month = int m, t_day = int d, t_hour = int h, t_min = int mi, t_sec = int s,
        t_nsec = 0, t_zone = None\<rparr>"
    unfolding print_stamp_def syslogTimestampLayout_def parse_layout.simps
    using assms d
    using lookup_month[OF assms(1,2), unfolded One_nat_def]
    by (simp add: parse_under_day[OF d refl] sk sk2 sec tparts0_def has_frac_def
        del: skip.simps(2) parse_chunk.simps(5))
  then show ?thesis using assms by (simp add: parse_fields_def)
qed

lemma sep_trimmed:
  assumes "msg = [] \<or> hd msg \<noteq> CHR '' ''" "colon \<or> 0 < n \<or> msg = []"
  shows "TrimLeft (TrimPrefix (print_sep colon n @ msg) '':'') '' '' = msg"
proof -
  have d: "dropWhile (\<lambda>c. c \<in> set '' '') (replicate n (CHR '' '') @ msg) = msg" for n
    using assms(1) by (induction n) (cases msg, auto)
  show ?thesis
  proof (cases colon)
    case True
    then show ?thesis using d by (simp add: print_sep_def TrimLeft_def TrimPrefix_def HasPrefix_def)
  next
    case False
    then have "\<not> HasPrefix (print_sep colon n @ msg) '':''"
      using assms(2) by (cases n) (auto simp: print_sep_def HasPrefix_def)
    then show ?thesis using False d by (simp add: print_sep_def TrimLeft_def TrimPrefix_def)
  qed
qed

lemma splitTag_print:
  assumes "\<forall>c\<in>set tag. c \<notin> set ''[: ''" "pid_value pid < 2 ^ 63" "msg = [] \<or> hd msg \<noteq> CHR '' ''"
    "colon \<or> 0 < n \<or> msg = []"
  shows "splitTagAndMessage (tag @ print_pid pid @ print_sep colon n @ msg) b = (tag, pid_value pid, msg)"
proof (cases pid)
  case None
  let ?r = "print_sep colon n @ msg"
  note tl = sep_trimmed[OF assms(3,4)]
  show ?thesis
  proof (cases ?r)
    case Nil
    then have "IndexAny tag ''[: '' = None" using assms(1) by (simp add: IndexAny_def)
    then show ?thesis using Nil None by (simp add: splitTagAndMessage_def print_pid_def pid_value_def)
  next
    case (Cons x xs)
    then have x: "x \<in> set '': ''" using assms(4) by (cases n) (auto simp: print_sep_def split: if_splits)
    have "IndexAny (tag @ x # xs) ''[: '' = Some (length tag)"
      unfolding IndexAny_def by (rule index_where_stop) (use assms(1) x in auto)
    moreover have "\<not> HasPrefix (x # xs) ''[''" using x by (auto simp: HasPrefix_def)
    ultimately show ?thesis
      using None tl unfolding Cons by (simp add: splitTagAndMessage_def print_pid_def pid_value_def)
  qed
next
  case (Some k)
  let ?s = "print_sep colon n @ msg"
  let ?r = "CHR ''['' # dec_digits k @ CHR '']'' # ?s"
  have i: "IndexAny (tag @ ?r) ''[: '' = Some (length tag)"
    unfolding IndexAny_def by (rule index_where_stop) (use assms(1) in auto)
  have "IndexByte ((CHR ''['' # dec_digits k) @ CHR '']'' # ?s) (CHR '']'') = Some (length (CHR ''['' # dec_digits k))"
    by (rule IndexByte_stop) simp
  then have j: "IndexByte ?r (CHR '']'') = Some (Suc (length (dec_digits k)))" by simp
  have a: "Atoi (dec_digits k) = Some (int k)"
    using ParseInt_dec_digits[of k 64] assms(2) Some by (simp add: pid_value_def)
  have r: "tag @ print_pid pid @ ?s = tag @ ?r" by (simp add: print_pid_def Some)
  show ?thesis
    unfolding r splitTagAndMessage_def i using j a sep_trimmed[OF assms(3,4)] by (simp add: HasPrefix_def Some pid_value_def)
qed

text \<open>C28. RFC 3164 round trip, for the grammar in the head of the file: a line printed from a priority, a valid stamp, a
  host, a tag, an optional pid in brackets, a separator (a colon or none, and spaces; only when there is no message may
  both be missing) and a message that does not start with a space parses, with any of the accepted line ends, to the
  entry that carries exactly these values, the pid 0 when there is none, the year and zone being the configured ones.
  The strict flag plays no role.\<close>

theorem bsd_roundtrip:
  assumes "pri \<le> 191" "1 \<le> m" "m \<le> 12" "1 \<le> d" "int d \<le> daysIn (int m) 0" "h < 24" "mi < 60" "s < 60"
    and "host \<noteq> []" "CHR '' '' \<notin> set host" "\<forall>c\<in>set tag. c \<notin> set ''[: ''" "pid_value pid < 2 ^ 63"
    and "msg = [] \<or> hd msg \<noteq> CHR '' '' \<and> last msg \<noteq> CHR 0x0A \<and> last msg \<noteq> CHR 0x0D"
    and "tag = [] \<or> last tag \<noteq> CHR 0x0A \<and> last tag \<noteq> CHR 0x0D" "colon \<or> 0 < spaces \<or> msg = []"
    and "eol \<in> set line_ends"
  shows "syslogBSD_Parse p (print_bsd pri (print_stamp m d h mi s) host tag pid (print_sep colon spaces) msg @ eol)
    = Inr \<lparr>Timestamp = Date (bsd_defaultYear p) (int m) (int d) (int h) (int mi) (int s) 0 (bsd_loc p),
        Level = severityToLevel (int pri mod 8), Facility = int pri div 8, Hostname = host, Process = tag,
        PID = pid_value pid, Message = msg, Source = ''syslog_bsd'', Fields = []\<rparr>"
proof -
  let ?st = "print_stamp m d h mi s"
  let ?l = "print_bsd pri ?st host tag pid (print_sep colon spaces) msg"
  let ?t = "tag @ print_pid pid @ print_sep colon spaces @ msg"
  have lt: "last (CHR '' '' # ?t) \<noteq> CHR 0x0A \<and> last (CHR '' '' # ?t) \<noteq> CHR 0x0D"
    using assms(13,14) by (auto simp: print_pid_def print_sep_def last_append last_replicate split: option.splits)
  have ll: "?l = (CHR ''<'' # dec_digits pri @ CHR ''>'' # ?st @ CHR '' '' # host) @ CHR '' '' # ?t" by (simp add: print_bsd_def)
  have tr: "trimTrailingNewline (?l @ eol) = ?l"
    using lt assms(16) unfolding ll by (intro trim_line_end) simp_all
  have pr: "parsePriorityField ?l = Inr (?st @ CHR '' '' # host @ CHR '' '' # ?t, int pri div 8, int pri mod 8)"
    unfolding print_bsd_def by (rule parsePriorityField_dec) (rule assms(1))
  have len: "length ?st = 15" using assms(2,3) by (rule length_print_stamp)
  have st: "splitTagAndMessage ?t b = (tag, pid_value pid, msg)" for b
    using assms(11,12,13,15) by (intro splitTag_print) auto
  have ne: "?l \<noteq> []" by (simp add: print_bsd_def)
  show ?thesis
    unfolding syslogBSD_Parse_def tr Let_def using ne pr len st assms(9,10)
      parse_stamp[OF assms(2-8)] by simp
qed

text \<open>A tag with and without a pid, a colon and a message.\<close>

theorem bsd_roundtrip_witness:
  "syslogBSD_Parse \<lparr>bsd_defaultYear = 2024, bsd_loc = UTC, bsd_strict = False\<rparr>
     (print_bsd 34 (print_stamp 2 29 22 14 15) ''mymachine'' ''su'' (Some 230) (print_sep True 1) ''su root failed'' @ [CHR 0x0A])
   = Inr \<lparr>Timestamp = Date 2024 2 29 22 14 15 0 UTC, Level = LevelCritical, Facility = 4,
        Hostname = ''mymachine'', Process = ''su'', PID = 230, Message = ''su root failed'',
        Source = ''syslog_bsd'', Fields = []\<rparr>
   \<and> syslogBSD_Parse \<lparr>bsd_defaultYear = 2024, bsd_loc = UTC, bsd_strict = False\<rparr>
     (print_bsd 34 (print_stamp 2 29 22 14 15) ''mymachine'' ''su'' None (print_sep False 1) ''failed'' @ [])
   = Inr \<lparr>Timestamp = Date 2024 2 29 22 14 15 0 UTC, Level = LevelCritical, Facility = 4,
        Hostname = ''mymachine'', Process = ''su'', PID = 0, Message = ''failed'',
        Source = ''syslog_bsd'', Fields = []\<rparr>"
  using bsd_roundtrip[of 34 2 29 22 14 15 "''mymachine''" "''su''" "Some 230" "''su root failed''" True 1 "[CHR 0x0A]"
      "\<lparr>bsd_defaultYear = 2024, bsd_loc = UTC, bsd_strict = False\<rparr>"]
    bsd_roundtrip[of 34 2 29 22 14 15 "''mymachine''" "''su''" None "''failed''" False 1 "[]"
      "\<lparr>bsd_defaultYear = 2024, bsd_loc = UTC, bsd_strict = False\<rparr>"]
  by (simp add: line_ends_def daysIn_def isLeap_def severityToLevel_def pid_value_def)

text \<open>The strict option, documented as rejecting deviations from the RFC, has no effect: a parser
  returns the same result, error included, on every line whether it is set or not.\<close>

theorem bsd_strict_no_effect:
  "syslogBSD_Parse (p\<lparr>bsd_strict := b\<rparr>) line = syslogBSD_Parse (p\<lparr>bsd_strict := c\<rparr>) line"
proof -
  have "splitTagAndMessage s b = splitTagAndMessage s c" for s
    by (simp add: splitTagAndMessage_def Let_def split: option.splits)
  then show ?thesis by (simp add: syslogBSD_Parse_def Let_def cong: option.case_cong if_cong)
qed

end
