(* ===== verification/Parser_RFC5424.thy ===== *)
theory Parser_RFC5424
  imports Parser_Env
begin

text \<open>
  \<^verbatim>\<open>src/internal/parser/syslog_rfc5424.go\<close>: the RFC 5424 parser, its field scanner and the scanner
  of the structured data, with a round trip for both.
\<close>

section \<open>Operations\<close>

definition takeUntilSpace :: "string \<Rightarrow> (sentinel, string \<times> string) result" where
  "takeUntilSpace s =
     (case IndexByte s (CHR '' '') of
        None \<Rightarrow> if s = [] then Inl ErrTruncatedLine else Inr ([], s)
      | Some idx \<Rightarrow> if idx = 0 then Inl ErrInvalidFormat else Inr (drop (idx + 1) s, take idx s))"

text \<open>The inner loop of \<^verbatim>\<open>readStructuredData\<close>: the value of \<open>j\<close> when it stops.\<close>

function sd_inner :: "string \<Rightarrow> nat \<Rightarrow> bool \<Rightarrow> nat" where
  "sd_inner s j inQuote =
     (if j < length s
      then (let c = s ! j in
        if c = CHR 0x5C \<and> j + 1 < length s then sd_inner s (j + 2) inQuote
        else if c = CHR 0x22 then sd_inner s (j + 1) (\<not> inQuote)
        else if \<not> inQuote \<and> c = CHR '']'' then j
        else sd_inner s (j + 1) inQuote)
      else j)"
  by pat_completeness auto
termination
  by (relation "measure (\<lambda>(s, j, q). length s - j)") auto

declare sd_inner.simps [simp del]

lemma sd_inner_ge: "j \<le> sd_inner s j q"
proof (induction s j q rule: sd_inner.induct)
  case (1 s j q)
  then show ?case by (subst sd_inner.simps) (auto simp: Let_def)
qed

text \<open>The outer loop: \<^const>\<open>None\<close> for an unterminated segment.\<close>

function sd_outer :: "string \<Rightarrow> nat \<Rightarrow> nat option" where
  "sd_outer s i =
     (if i < length s
      then if s ! i \<noteq> CHR ''['' then Some i
        else let j = sd_inner s (i + 1) False in
          if length s \<le> j then None else sd_outer s (j + 1)
      else Some i)"
  by pat_completeness auto
termination
proof (relation "measure (\<lambda>(s, i). length s - i)", goal_cases)
  case (2 s i j)
  then show ?case using sd_inner_ge[of "i + 1" s False] by auto
qed simp

declare sd_outer.simps [simp del]

definition readStructuredData :: "string \<Rightarrow> (sentinel, string \<times> string) result" where
  "readStructuredData s =
     (if s = [] then Inl ErrTruncatedLine
      else if hd s = CHR ''-'' then Inr (drop 1 s, ''-'')
      else if hd s \<noteq> CHR ''['' then Inl ErrInvalidFormat
      else case sd_outer s 0 of
        None \<Rightarrow> Inl ErrInvalidFormat
      | Some i \<Rightarrow> Inr (drop i s, take i s))"

definition nilIfDash :: "string \<Rightarrow> string" where
  "nilIfDash s = (if s = ''-'' then [] else s)"

abbreviation bom :: string where
  "bom \<equiv> [CHR 0xEF, CHR 0xBB, CHR 0xBF]"

definition syslogRFC5424_Parse :: Parser where
  "syslogRFC5424_Parse line0 =
     (let line = trimTrailingNewline line0;
          field = (\<lambda>ctx s. map_err (wrap (''syslog_rfc5424: '' @ ctx)) (takeUntilSpace s))
      in if line = [] then Inl (wrap ''syslog_rfc5424'' ErrTruncatedLine)
      else rbind (map_err (wrap ''syslog_rfc5424: priority'') (parsePriorityField line))
        (\<lambda>(rest, facility, severity).
      rbind (field ''version'' rest) (\<lambda>(rest, _).
      rbind (field ''timestamp'' rest) (\<lambda>(rest, tsField).
      rbind (if tsField \<noteq> ''-''
             then (case time_Parse RFC3339Nano tsField of
                     None \<Rightarrow> Inl (wrap ''syslog_rfc5424: timestamp'' ErrInvalidFormat)
                   | Some t \<Rightarrow> Inr t)
             else Inr 0) (\<lambda>ts.
      rbind (field ''hostname'' rest) (\<lambda>(rest, host).
      rbind (field ''app-name'' rest) (\<lambda>(rest, app).
      rbind (field ''procid'' rest) (\<lambda>(rest, procid).
      rbind (field ''msgid'' rest) (\<lambda>(rest, _).
      rbind (map_err (wrap ''syslog_rfc5424: structured-data'') (readStructuredData rest)) (\<lambda>(rest, sd).
        let rest1 = (if HasPrefix rest '' '' then drop 1 rest else rest);
            rest2 = TrimPrefix rest1 bom;
            pid = (if procid \<noteq> ''-'' then (case Atoi procid of Some v \<Rightarrow> v | None \<Rightarrow> 0) else 0)
        in Inr \<lparr>Timestamp = ts, Level = severityToLevel severity, Facility = facility,
             Hostname = nilIfDash host, Process = nilIfDash app, PID = pid, Message = rest2,
             Source = ''syslog_rfc5424'',
             Fields = (if sd \<noteq> [] \<and> sd \<noteq> ''-'' then [(''structured_data'', sd)] else [])\<rparr>))))))))))"

section \<open>The parser contract\<close>

lemma rfc5424_ok:
  "on_ok (\<lambda>e. Source e = ''syslog_rfc5424'' \<and> entry_ok e) (syslogRFC5424_Parse l)"
  unfolding syslogRFC5424_Parse_def
  by (intro on_ok_intros) (simp_all add: severityToLevel_le entry_ok_def)

interpretation rfc5424: log_parser syslogRFC5424_Parse "''syslog_rfc5424''"
  by unfold_locales
    (use on_okD[OF rfc5424_ok] in \<open>simp_all add: syslogRFC5424_Parse_def[of "[]"]\<close>)

section \<open>Structured data\<close>

text \<open>A grammar of structured data elements: text outside quotes, escaped bytes, and quoted values
  in which brackets are ordinary and quotes and backslashes are escaped.\<close>

datatype qtok = QPlain char | QEsc char

datatype sdtok = Plain char | Esc char | Quote "qtok list"

fun print_q :: "qtok \<Rightarrow> string" where
  "print_q (QPlain c) = [c]"
| "print_q (QEsc c) = [CHR 0x5C, c]"

fun print_tok :: "sdtok \<Rightarrow> string" where
  "print_tok (Plain c) = [c]"
| "print_tok (Esc c) = [CHR 0x5C, c]"
| "print_tok (Quote qs) = CHR 0x22 # concat (map print_q qs) @ [CHR 0x22]"

fun q_ok :: "qtok \<Rightarrow> bool" where
  "q_ok (QPlain c) \<longleftrightarrow> c \<noteq> CHR 0x22 \<and> c \<noteq> CHR 0x5C"
| "q_ok (QEsc c) \<longleftrightarrow> True"

fun tok_ok :: "sdtok \<Rightarrow> bool" where
  "tok_ok (Plain c) \<longleftrightarrow> c \<noteq> CHR 0x22 \<and> c \<noteq> CHR 0x5C \<and> c \<noteq> CHR '']''"
| "tok_ok (Esc c) \<longleftrightarrow> True"
| "tok_ok (Quote qs) \<longleftrightarrow> list_all q_ok qs"

definition print_elem :: "sdtok list \<Rightarrow> string" where
  "print_elem ts = CHR ''['' # concat (map print_tok ts) @ [CHR '']'']"

definition print_sd :: "sdtok list list \<Rightarrow> string" where
  "print_sd es = concat (map print_elem es)"

lemma sd_inner_q:
  assumes "list_all q_ok qs"
  shows "sd_inner (pre @ concat (map print_q qs) @ CHR 0x22 # post) (length pre) True
    = sd_inner (pre @ concat (map print_q qs) @ CHR 0x22 # post)
        (length pre + length (concat (map print_q qs)) + 1) False"
  using assms
proof (induction qs arbitrary: pre)
  case Nil
  then show ?case by (subst sd_inner.simps) (simp add: Let_def)
next
  case (Cons q qs)
  show ?case
  proof (cases q)
    case (QPlain c)
    from Cons.IH[of "pre @ [c]"] Cons.prems QPlain show ?thesis
      by (subst sd_inner.simps) (simp add: Let_def)
  next
    case (QEsc c)
    from Cons.IH[of "pre @ [CHR 0x5C, c]"] Cons.prems QEsc show ?thesis
      by (subst sd_inner.simps) (simp add: Let_def nth_append)
  qed
qed

lemma sd_inner_toks:
  assumes "list_all tok_ok ts"
  shows "sd_inner (pre @ concat (map print_tok ts) @ CHR '']'' # post) (length pre) False
    = length pre + length (concat (map print_tok ts))"
  using assms
proof (induction ts arbitrary: pre)
  case Nil
  then show ?case by (subst sd_inner.simps) (simp add: Let_def)
next
  case (Cons t ts)
  show ?case
  proof (cases t)
    case (Plain c)
    from Cons.IH[of "pre @ [c]"] Cons.prems Plain show ?thesis
      by (subst sd_inner.simps) (simp add: Let_def)
  next
    case (Esc c)
    from Cons.IH[of "pre @ [CHR 0x5C, c]"] Cons.prems Esc show ?thesis
      by (subst sd_inner.simps) (simp add: Let_def nth_append)
  next
    case (Quote qs)
    let ?p = "concat (map print_tok ts) @ CHR '']'' # post"
    have "sd_inner (pre @ CHR 0x22 # concat (map print_q qs) @ CHR 0x22 # ?p) (length pre) False
      = sd_inner ((pre @ [CHR 0x22]) @ concat (map print_q qs) @ CHR 0x22 # ?p) (length (pre @ [CHR 0x22])) True"
      by (subst sd_inner.simps) (simp add: Let_def)
    also have "\<dots> = sd_inner ((pre @ print_tok t) @ ?p) (length (pre @ print_tok t)) False"
      using sd_inner_q[of qs "pre @ [CHR 0x22]" ?p] Cons.prems Quote by simp
    also have "\<dots> = length (pre @ print_tok t) + length (concat (map print_tok ts))"
      using Cons.IH[of "pre @ print_tok t"] Cons.prems by simp
    finally show ?thesis using Quote by simp
  qed
qed

lemma sd_outer_print:
  assumes "\<forall>ts\<in>set es. list_all tok_ok ts" "post = [] \<or> hd post \<noteq> CHR ''[''"
  shows "sd_outer (pre @ print_sd es @ post) (length pre) = Some (length pre + length (print_sd es))"
  using assms
proof (induction es arbitrary: pre)
  case Nil
  then show ?case
    by (subst sd_outer.simps) (cases post, simp_all add: print_sd_def nth_append)
next
  case (Cons ts es)
  let ?b = "concat (map print_tok ts)"
  let ?s = "pre @ print_sd (ts # es) @ post"
  have s: "?s = (pre @ [CHR ''['']) @ ?b @ CHR '']'' # (print_sd es @ post)"
    "?s = (pre @ print_elem ts) @ print_sd es @ post"
    by (simp_all add: print_sd_def print_elem_def)
  have j: "sd_inner ?s (length pre + 1) False = length pre + 1 + length ?b"
    using sd_inner_toks[of ts "pre @ [CHR ''['']" "print_sd es @ post"] Cons.prems s(1) by simp
  have at: "?s ! length pre = CHR ''[''" "length pre < length ?s" "\<not> length ?s \<le> length pre + 1 + length ?b"
    by (simp_all add: print_sd_def print_elem_def nth_append)
  have "sd_outer ?s (length pre) = sd_outer ?s (length (pre @ print_elem ts))"
    using at j by (subst sd_outer.simps) (simp add: Let_def print_elem_def)
  also have "\<dots> = Some (length (pre @ print_elem ts) + length (print_sd es))"
    using Cons.IH[of "pre @ print_elem ts"] Cons.prems s(2) by simp
  finally show ?case by (simp add: print_sd_def)
qed

lemma readStructuredData_print:
  assumes "es \<noteq> []" "\<forall>ts\<in>set es. list_all tok_ok ts" "post = [] \<or> hd post \<noteq> CHR ''[''"
  shows "readStructuredData (print_sd es @ post) = Inr (post, print_sd es)"
proof -
  have "hd (print_sd es @ post) = CHR ''[''" "print_sd es \<noteq> []"
    using assms(1) by (cases es; simp add: print_sd_def print_elem_def)+
  then show ?thesis
    using sd_outer_print[OF assms(2,3), of "[]"] by (simp add: readStructuredData_def)
qed

lemma sd_outer_ge: "sd_outer s i = Some k \<Longrightarrow> i \<le> k"
proof (induction s i rule: sd_outer.induct)
  case (1 s i)
  show ?case
  proof (cases "i < length s \<and> s ! i = CHR ''[''")
    case True
    define j where "j = sd_inner s (i + 1) False"
    from True "1.prems" have "\<not> length s \<le> j" "sd_outer s (j + 1) = Some k"
      unfolding j_def sd_outer.simps[of s i] by (simp_all add: Let_def split: if_splits)
    with "1.IH"[of j] True have "j + 1 \<le> k" by (simp add: j_def)
    with sd_inner_ge[of "i + 1" s False] show ?thesis by (simp add: j_def)
  next
    case False
    with "1.prems" show ?thesis unfolding sd_outer.simps[of s i] by (auto split: if_splits)
  qed
qed

lemma sd_outer_pos:
  assumes "sd_outer s 0 = Some i" "hd s = CHR ''[''" "s \<noteq> []"
  shows "0 < i"
  using assms sd_outer_ge[of s "sd_inner s 1 False + 1" i] unfolding sd_outer.simps[of s 0]
  by (auto simp: Let_def hd_conv_nth split: if_splits)

lemma readStructuredData_splits:
  "on_ok (\<lambda>(rest, sd). sd @ rest = s \<and> sd \<noteq> []) (readStructuredData s)"
  unfolding readStructuredData_def using sd_outer_pos[of s]
  by (cases s) (auto split: option.splits)

text \<open>Structured data is read losslessly and exactly: on success the element text and the
  remainder are together the input, and a sequence of well-formed elements (escaped bytes,
  brackets inside quotes) is consumed to its end and no further.\<close>

theorem structured_data_exact:
  "on_ok (\<lambda>(rest, sd). sd @ rest = s \<and> sd \<noteq> []) (readStructuredData s)
   \<and> (es \<noteq> [] \<and> (\<forall>ts\<in>set es. list_all tok_ok ts) \<and> (post = [] \<or> hd post \<noteq> CHR ''['')
      \<longrightarrow> readStructuredData (print_sd es @ post) = Inr (post, print_sd es))"
  using readStructuredData_splits readStructuredData_print by blast

text \<open>The line \<^verbatim>\<open>[a k="]\"\"][b] x\<close> of two elements, one with a bracket and a quote inside a value.\<close>

definition example_sd :: "sdtok list list" where
  "example_sd = [[Plain (CHR ''a''), Plain (CHR '' ''), Plain (CHR ''k''), Plain (CHR ''=''),
     Quote [QPlain (CHR '']''), QEsc (CHR 0x22)]], [Plain (CHR ''b'')]]"

theorem structured_data_exact_witness:
  "readStructuredData (print_sd example_sd @ '' x'') = Inr ('' x'', print_sd example_sd)
   \<and> length (print_sd example_sd) = 14"
  using structured_data_exact[where es = example_sd and post = "'' x''" and s = "[]"]
  by (simp add: example_sd_def print_sd_def print_elem_def)

section \<open>Round trip\<close>

definition token :: "string \<Rightarrow> bool" where
  "token t \<longleftrightarrow> t \<noteq> [] \<and> CHR '' '' \<notin> set t"

lemma takeUntilSpace_token: "token t \<Longrightarrow> takeUntilSpace (t @ CHR '' '' # r) = Inr (r, t)"
  by (simp add: token_def takeUntilSpace_def)

definition print_5424 :: "nat \<Rightarrow> string list \<Rightarrow> string \<Rightarrow> string" where
  "print_5424 pri header tail =
     CHR ''<'' # dec_digits pri @ CHR ''>'' # concat (map (\<lambda>t. t @ [CHR '' '']) header) @ tail"

text \<open>The optional message: a space, a byte order mark or none, and the text.\<close>

definition print_msg :: "(bool \<times> string) option \<Rightarrow> string" where
  "print_msg m = (case m of None \<Rightarrow> [] | Some (mark, body) \<Rightarrow> CHR '' '' # (if mark then bom else []) @ body)"

definition msg_text :: "(bool \<times> string) option \<Rightarrow> string" where
  "msg_text m = (case m of None \<Rightarrow> [] | Some (mark, body) \<Rightarrow> body)"

text \<open>Text without a mark does not start with one, and the text does not end like a line.\<close>

definition msg_ok :: "(bool \<times> string) option \<Rightarrow> bool" where
  "msg_ok m \<longleftrightarrow> (case m of None \<Rightarrow> True
     | Some (mark, body) \<Rightarrow> (mark \<or> \<not> HasPrefix body bom) \<and> (body = [] \<or> last body \<noteq> CHR 0x0A \<and> last body \<noteq> CHR 0x0D))"

lemma msg_read:
  assumes "msg_ok m"
  shows "TrimPrefix (if HasPrefix (print_msg m) '' '' then drop 1 (print_msg m) else print_msg m) bom = msg_text m"
proof (cases m)
  case None
  then show ?thesis by (simp add: print_msg_def msg_text_def HasPrefix_def TrimPrefix_def)
next
  case (Some mt)
  obtain mark body where m: "m = Some (mark, body)" using Some by (cases mt) simp
  have "TrimPrefix ((if mark then bom else []) @ body) bom = body"
    using assms m TrimPrefix_append[of bom body] by (auto simp: msg_ok_def TrimPrefix_def[of body])
  then show ?thesis using m by (simp add: print_msg_def msg_text_def HasPrefix_def[of _ "'' ''"])
qed

lemma msg_end:
  assumes "msg_ok m" "l \<noteq> []" "last l \<noteq> CHR 0x0A" "last l \<noteq> CHR 0x0D"
  shows "last (l @ print_msg m) \<noteq> CHR 0x0A \<and> last (l @ print_msg m) \<noteq> CHR 0x0D"
  using assms by (auto simp: print_msg_def msg_ok_def last_append split: option.splits)

text \<open>C29. RFC 5424 round trip, for the grammar in the head of the file: a line printed from a priority, a parsable
  timestamp (or the nil value), the header tokens, well-formed structured data (or the nil value) and an optional
  message, with or without a byte order mark, parses, with any of the accepted line ends, to the entry that carries
  exactly these values, nil values and a missing message as empty strings.\<close>

theorem rfc5424_roundtrip:
  assumes "pri \<le> 191" "token ver" "token tsf" "token host" "token app" "token procid" "token msgid"
    and "tsf = ''-'' \<and> t = 0 \<or> tsf \<noteq> ''-'' \<and> time_Parse RFC3339Nano tsf = Some t"
    and "\<forall>ts\<in>set es. list_all tok_ok ts" "sd = (if es = [] then ''-'' else print_sd es)"
    and "msg_ok m" "eol \<in> set line_ends"
  shows "syslogRFC5424_Parse (print_5424 pri [ver, tsf, host, app, procid, msgid] (sd @ print_msg m) @ eol)
    = Inr \<lparr>Timestamp = t, Level = severityToLevel (int pri mod 8), Facility = int pri div 8,
        Hostname = nilIfDash host, Process = nilIfDash app,
        PID = (case Atoi procid of Some v \<Rightarrow> v | None \<Rightarrow> 0), Message = msg_text m, Source = ''syslog_rfc5424'',
        Fields = (if es = [] then [] else [(''structured_data'', print_sd es)])\<rparr>"
proof -
  let ?tail = "print_msg m"
  let ?l = "print_5424 pri [ver, tsf, host, app, procid, msgid] (sd @ ?tail)"
  have ps: "print_sd es \<noteq> []" "last (print_sd es) = CHR '']''" if "es \<noteq> []"
    using that by (cases es rule: rev_cases; simp add: print_sd_def print_elem_def)+
  have sde: "sd \<noteq> []" "last sd \<noteq> CHR 0x0A" "last sd \<noteq> CHR 0x0D" using ps assms(10) by (cases "es = []"; simp)+
  have tr: "trimTrailingNewline (?l @ eol) = ?l"
    using msg_end[OF assms(11) sde] sde(1) assms(12) by (intro trim_line_end) (auto simp: print_5424_def)
  have ne: "?l \<noteq> []" by (simp add: print_5424_def)
  have pr: "parsePriorityField ?l = Inr (ver @ CHR '' '' # tsf @ CHR '' '' # host @ CHR '' '' # app
       @ CHR '' '' # procid @ CHR '' '' # msgid @ CHR '' '' # sd @ ?tail, int pri div 8, int pri mod 8)"
    using parsePriorityField_dec[OF assms(1)] by (simp add: print_5424_def)
  have tl: "?tail = [] \<or> hd ?tail \<noteq> CHR ''[''" by (auto simp: print_msg_def split: option.splits)
  have sd: "readStructuredData (sd @ ?tail) = Inr (?tail, sd)"
  proof (cases "es = []")
    case True
    then show ?thesis using assms(10) by (simp add: readStructuredData_def)
  next
    case False
    then show ?thesis using readStructuredData_print[OF False assms(9) tl] assms(10) by simp
  qed
  have f: "(sd \<noteq> [] \<and> sd \<noteq> ''-'') = (es \<noteq> [])" "es \<noteq> [] \<Longrightarrow> sd = print_sd es"
    using assms(10) by (cases es; simp add: print_sd_def print_elem_def)+
  have dash: "Atoi ''-'' = None" by (simp add: ParseInt_def)
  show ?thesis
    unfolding syslogRFC5424_Parse_def tr Let_def
    using ne pr sd f msg_read[OF assms(11)] assms(8) dash
    by (auto simp: takeUntilSpace_token assms(2-7))
qed

text \<open>A line with structured data and a marked message, and one without a message.\<close>

theorem rfc5424_roundtrip_witness:
  "syslogRFC5424_Parse (print_5424 165 [''1'', ''2003-10-11T22:14:15.003Z'', ''mymachine'', ''evntslog'', ''-'', ''ID47'']
       (print_sd example_sd @ print_msg (Some (True, ''An event''))) @ [CHR 0x0A])
   = Inr \<lparr>Timestamp = Date 2003 10 11 22 14 15 3000000 UTC, Level = LevelNotice, Facility = 20,
        Hostname = ''mymachine'', Process = ''evntslog'', PID = 0, Message = ''An event'',
        Source = ''syslog_rfc5424'', Fields = [(''structured_data'', print_sd example_sd)]\<rparr>
   \<and> syslogRFC5424_Parse (print_5424 165 [''1'', ''-'', ''mymachine'', ''-'', ''77'', ''-''] (''-'' @ print_msg None) @ [])
   = Inr \<lparr>Timestamp = 0, Level = LevelNotice, Facility = 20, Hostname = ''mymachine'', Process = [], PID = 77, Message = [],
        Source = ''syslog_rfc5424'', Fields = []\<rparr>"
proof -
  have t: "time_Parse RFC3339Nano ''2003-10-11T22:14:15.003Z'' = Some (Date 2003 10 11 22 14 15 3000000 UTC)"
    by code_simp
  have a: "Atoi ''-'' = None" "Atoi ''77'' = Some 77" by (simp add: ParseInt_def) code_simp
  have ok: "msg_ok (Some (True, ''An event''))" "msg_ok None" "[CHR 0x0A] \<in> set line_ends" "[] \<in> set line_ends"
    by (simp_all add: msg_ok_def line_ends_def)
  show ?thesis
    using rfc5424_roundtrip[of 165 "''1''" "''2003-10-11T22:14:15.003Z''" "''mymachine''" "''evntslog''"
        "''-''" "''ID47''" "Date 2003 10 11 22 14 15 3000000 UTC" example_sd "print_sd example_sd",
        OF _ _ _ _ _ _ _ _ _ _ ok(1,3)]
      rfc5424_roundtrip[of 165 "''1''" "''-''" "''mymachine''" "''-''" "''77''" "''-''" 0 "[]" "''-''", OF _ _ _ _ _ _ _ _ _ _ ok(2,4)] t a
    by (simp add: token_def severityToLevel_def msg_text_def) (simp add: example_sd_def nilIfDash_def)
qed

end
