(* ===== verification/Parser_Kmsg.thy ===== *)
theory Parser_Kmsg
  imports Parser_Env
begin

text \<open>
  \<^verbatim>\<open>src/internal/parser/kmsg.go\<close>: the \<^verbatim>\<open>/dev/kmsg\<close> record parser with its microsecond clock, and the
  boot time read from \<^verbatim>\<open>/proc/uptime\<close>.
\<close>

section \<open>Boot time and construction\<close>

text \<open>\<^verbatim>\<open>t.Add(-time.Duration(secs * 1e9))\<close>; \<open>cvt\<close> is the machine's out of range conversion. The
  negation of the smallest duration wraps.\<close>

definition readBootTime :: "parser_env \<Rightarrow> instant" where
  "readBootTime env =
     (case env_uptime env of
        None \<Rightarrow> 0
      | Some b \<Rightarrow>
          if first_field b = [] then 0
          else case ParseFloat (first_field b) of
            None \<Rightarrow> 0
          | Some secs \<Rightarrow> env_now env + wrap64 (- to_int64 (env_cvt env) (fmul secs (Fin 1000000000))))"

record KMsgConfig =
  kmsg_BootTime :: instant

record kmsg =
  kmsg_bootTime :: instant

definition NewKMsg :: "parser_env \<Rightarrow> KMsgConfig \<Rightarrow> (string, kmsg) result" where
  "NewKMsg env cfg =
     (let bt = kmsg_BootTime cfg;
          bt1 = (if IsZero bt then readBootTime env else bt)
      in Inr \<lparr>kmsg_bootTime = bt1\<rparr>)"

text \<open>The option \<^verbatim>\<open>boot_time\<close>, shared with the dmesg parser.\<close>

definition boot_time_option :: "string \<Rightarrow> options \<Rightarrow> (string, instant) result" where
  "boot_time_option ctx raw =
     (case as_string (raw ''boot_time'') of
        Some v \<Rightarrow> if v \<noteq> [] then (case time_Parse RFC3339Nano v of None \<Rightarrow> Inl ctx | Some t \<Rightarrow> Inr t)
                  else Inr 0
      | None \<Rightarrow> Inr 0)"

definition newKMsg :: "parser_env \<Rightarrow> options \<Rightarrow> (string, kmsg) result" where
  "newKMsg env raw =
     rbind (boot_time_option ''kmsg: boot_time'' raw) (\<lambda>t. NewKMsg env \<lparr>kmsg_BootTime = t\<rparr>)"

section \<open>Parsing\<close>

definition maxUsec :: int where
  "maxUsec = 9223372036854775"

definition kmsg_Parse :: "kmsg \<Rightarrow> Parser" where
  "kmsg_Parse p line0 =
     (let line = trimTrailingNewline line0 in
      if line = [] then Inl (wrap ''kmsg'' ErrTruncatedLine)
      else case IndexByte line (CHR '';'') of
        None \<Rightarrow> Inl (wrap ''kmsg: missing semicolon'' ErrInvalidFormat)
      | Some semi \<Rightarrow>
          (let header = take semi line; msg = drop (semi + 1) line; parts = SplitN header (CHR '','') 5 in
           if length parts < 4 then Inl (wrap ''kmsg: header fields'' ErrInvalidFormat)
           else case Atoi (parts ! 0) of
             None \<Rightarrow> Inl (wrap ''kmsg: bad priority'' ErrInvalidPriority)
           | Some pri \<Rightarrow>
               if pri < 0 \<or> maxPriority < pri then Inl (wrap ''kmsg: bad priority'' ErrInvalidPriority)
               else case ParseInt64 (parts ! 2) of
                 None \<Rightarrow> Inl (wrap ''kmsg: bad timestamp'' ErrInvalidFormat)
               | Some usec \<Rightarrow>
                   if usec < 0 then Inl (wrap ''kmsg: bad timestamp'' ErrInvalidFormat)
                   else if maxUsec < usec then Inl (wrap ''kmsg: timestamp out of range'' ErrInvalidFormat)
                   else Inr (zero_entry
                     \<lparr>Timestamp := (if \<not> IsZero (kmsg_bootTime p) then kmsg_bootTime p + wrap64 (usec * 1000) else 0),
                      Level := severityToLevel (go_mod pri 8), Facility := go_div pri 8,
                      Process := ''kernel'', Message := msg, Source := ''kmsg'',
                      Fields := (if parts ! 3 \<noteq> [] \<and> parts ! 3 \<noteq> ''-''
                                 then [(''flag'', parts ! 3), (''seq'', parts ! 1)] else [])\<rparr>)))"

section \<open>The parser contract\<close>

lemma kmsg_ok: "on_ok (\<lambda>e. Source e = ''kmsg'' \<and> entry_ok e) (kmsg_Parse p l)"
  unfolding kmsg_Parse_def
  by (intro on_ok_intros) (simp_all add: severityToLevel_le entry_ok_def)

interpretation kmsg: log_parser "kmsg_Parse p" "''kmsg''" for p
  by unfold_locales (use on_okD[OF kmsg_ok] in \<open>simp_all add: kmsg_Parse_def[of _ "[]"]\<close>)

section \<open>Functional behaviour\<close>

text \<open>A record \<^verbatim>\<open>PRI,SEQ,USEC,FLAG[,...];MSG\<close>.\<close>

definition print_kmsg :: "nat \<Rightarrow> string \<Rightarrow> nat \<Rightarrow> string \<Rightarrow> string option \<Rightarrow> string \<Rightarrow> string" where
  "print_kmsg pri seq usec flag extra msg =
     dec_digits pri @ CHR '','' # seq @ CHR '','' # dec_digits usec @ CHR '','' # flag
       @ (case extra of None \<Rightarrow> [] | Some x \<Rightarrow> CHR '','' # x) @ CHR '';'' # msg"

lemma SplitN_sep: "c \<notin> set a \<Longrightarrow> SplitN (a @ c # b) c (Suc (Suc n)) = a # SplitN b c (Suc n)"
  by simp

lemma SplitN_last: "c \<notin> set a \<Longrightarrow> SplitN a c (Suc (Suc n)) = [a]"
proof -
  assume "c \<notin> set a"
  then have "IndexByte a c = None" by simp
  then show ?thesis by (simp del: IndexByte_None)
qed

lemma dec_digits_no: "\<not> is_digit c \<Longrightarrow> c \<notin> set (dec_digits n)"
  by (rule digit_not_in[OF dec_digits_digits])

lemma kmsg_header_split:
  assumes "CHR '','' \<notin> set seq" "CHR '','' \<notin> set flag"
  shows "\<exists>r. SplitN (dec_digits pri @ CHR '','' # seq @ CHR '','' # dec_digits usec @ CHR '','' # flag
      @ (case extra of None \<Rightarrow> [] | Some x \<Rightarrow> CHR '','' # x)) (CHR '','') 5
    = [dec_digits pri, seq, dec_digits usec, flag] @ r"
proof -
  have n: "CHR '','' \<notin> set (dec_digits k)" for k by (rule dec_digits_no) (simp add: is_digit_def)
  have five: "5 = Suc (Suc (Suc (Suc (Suc 0))))" by simp
  show ?thesis
    using assms n SplitN_last[OF assms(2), of 0] unfolding five
    by (cases extra) (simp_all del: SplitN.simps(3) add: SplitN_sep)
qed

text \<open>C30. Kernel records: every well-formed header with a priority and a time in range parses to the
  entry of that priority, stamped exactly \<open>usec\<close> microseconds after boot (the multiplication in
  64-bit nanoseconds never wraps under the guard), and one with a larger time is rejected.\<close>

theorem kmsg_record:
  assumes "pri \<le> 191" "CHR '','' \<notin> set seq" "CHR '','' \<notin> set flag" "kmsg_bootTime p \<noteq> 0"
    and "CHR '';'' \<notin> set seq" "CHR '';'' \<notin> set flag" "\<forall>x\<in>set_option extra. CHR '';'' \<notin> set x"
    and "msg \<noteq> []" "last msg \<noteq> CHR 0x0A" "last msg \<noteq> CHR 0x0D"
  shows "kmsg_Parse p (print_kmsg pri seq usec flag extra msg) =
    (if int usec \<le> maxUsec
     then Inr \<lparr>Timestamp = kmsg_bootTime p + int usec * 1000, Level = severityToLevel (int pri mod 8),
        Facility = int pri div 8, Hostname = [], Process = ''kernel'', PID = 0, Message = msg,
        Source = ''kmsg'', Fields = (if flag = [] \<or> flag = ''-'' then [] else [(''flag'', flag), (''seq'', seq)])\<rparr>
     else Inl (if int usec < 2 ^ 63 then wrap ''kmsg: timestamp out of range'' ErrInvalidFormat
               else wrap ''kmsg: bad timestamp'' ErrInvalidFormat))"
proof -
  let ?h = "dec_digits pri @ CHR '','' # seq @ CHR '','' # dec_digits usec @ CHR '','' # flag
      @ (case extra of None \<Rightarrow> [] | Some x \<Rightarrow> CHR '','' # x)"
  let ?l = "print_kmsg pri seq usec flag extra msg"
  have l: "?l = ?h @ CHR '';'' # msg" by (simp add: print_kmsg_def split: option.splits)
  have d: "CHR '';'' \<notin> set (dec_digits k)" for k by (rule dec_digits_no) (simp add: is_digit_def)
  have h: "CHR '';'' \<notin> set ?h" using assms(5-7) d by (auto split: option.splits)
  have tr: "trimTrailingNewline ?l = ?l" unfolding l using assms(8-10) by (intro trim_none) simp
  have semi: "IndexByte ?l (CHR '';'') = Some (length ?h)" unfolding l by (rule IndexByte_stop[OF h])
  obtain r where r: "SplitN ?h (CHR '','') 5 = [dec_digits pri, seq, dec_digits usec, flag] @ r"
    using kmsg_header_split[OF assms(2,3)] by blast
  have a: "Atoi (dec_digits pri) = Some (int pri)" using assms(1) ParseInt_dec_digits[of pri 64] by simp
  have b: "ParseInt64 (dec_digits usec) = (if int usec < 2 ^ 63 then Some (int usec) else None)"
    using ParseInt_dec_digits[of usec 64] ParseInt_over[of 64 usec] by simp
  have w: "int usec \<le> maxUsec \<Longrightarrow> wrap64 (int usec * 1000) = int usec * 1000"
    by (rule wrap64_id) (simp_all add: maxUsec_def)
  have t: "take (length ?h) ?l = ?h" "drop (length ?h + 1) ?l = msg" "?l \<noteq> []"
    unfolding l by (rule take_sep, rule drop_sep, simp)
  show ?thesis
    unfolding kmsg_Parse_def tr Let_def semi option.case t
    using t(3) r a b w assms(1,4)
    by (auto simp: maxPriority_def maxUsec_def go_div_nonneg go_mod_nonneg zero_entry_def)
qed

theorem kmsg_record_witness:
  "kmsg_Parse \<lparr>kmsg_bootTime = 1000000000\<rparr> (print_kmsg 6 ''339'' 5140900 ''-'' (Some ''x'') ''NET: ok'')
   = Inr \<lparr>Timestamp = 6140900000, Level = LevelInfo, Facility = 0, Hostname = [], Process = ''kernel'',
        PID = 0, Message = ''NET: ok'', Source = ''kmsg'', Fields = []\<rparr>"
  using kmsg_record[of 6 "''339''" "''-''" "\<lparr>kmsg_bootTime = 1000000000\<rparr>" "Some ''x''" "''NET: ok''" 5140900]
  by (simp add: maxUsec_def severityToLevel_def)

end
