(* ===== verification/Parser_Dmesg.thy ===== *)
theory Parser_Dmesg
  imports Parser_Kmsg
begin

text \<open>
  \<^verbatim>\<open>src/internal/parser/dmesg.go\<close>: the parser of \<^verbatim>\<open>dmesg\<close> text with its two time formats.
\<close>

section \<open>Construction\<close>

record dmesg =
  dmesg_bootTime :: instant

definition NewDmesg :: "parser_env \<Rightarrow> instant \<Rightarrow> (string, dmesg) result" where
  "NewDmesg env cfg_BootTime =
     (let bt = (if IsZero cfg_BootTime then readBootTime env else cfg_BootTime)
      in Inr \<lparr>dmesg_bootTime = bt\<rparr>)"

definition newDmesg :: "parser_env \<Rightarrow> options \<Rightarrow> (string, dmesg) result" where
  "newDmesg env raw = rbind (boot_time_option ''dmesg: boot_time'' raw) (NewDmesg env)"

section \<open>Parsing\<close>

definition maxSecs :: float64 where
  "maxSecs = Fin 9223372036"

definition parseDmesgTimestamp :: "(float64 \<Rightarrow> int) \<Rightarrow> string \<Rightarrow> instant \<Rightarrow> (sentinel, instant) result" where
  "parseDmesgTimestamp cvt s0 bootTime =
     (let s = TrimSpace s0 in
      if s = [] then Inl ErrInvalidFormat
      else if (case IndexByte s (CHR ''T'') of None \<Rightarrow> False | Some i \<Rightarrow> 0 < i)
      then (case time_Parse dmesgISOLayout s of None \<Rightarrow> Inl ErrTime | Some t \<Rightarrow> Inr t)
      else case ParseFloat s of
        None \<Rightarrow> Inl ErrInvalidFormat
      | Some secs \<Rightarrow>
          if fless secs (Fin 0) \<or> is_nan secs \<or> fless maxSecs secs then Inl ErrInvalidFormat
          else if IsZero bootTime then Inr 0
          else Inr (bootTime + to_int64 cvt (fmul secs (Fin 1000000000))))"

definition dmesg_Parse :: "(float64 \<Rightarrow> int) \<Rightarrow> dmesg \<Rightarrow> Parser" where
  "dmesg_Parse cvt p line0 =
     (let line = trimTrailingNewline line0 in
      if line = [] then Inl (wrap ''dmesg'' ErrTruncatedLine)
      else if hd line \<noteq> CHR ''['' then Inl (wrap ''dmesg: no leading bracket'' ErrInvalidFormat)
      else case IndexByte line (CHR '']'') of
        None \<Rightarrow> Inl (wrap ''dmesg: no closing bracket'' ErrInvalidFormat)
      | Some closeIdx \<Rightarrow>
          (let tsField = drop 1 (take closeIdx line);
               rest = TrimLeft (drop (closeIdx + 1) line) [CHR '' '', CHR 0x09]
           in rbind (map_err (wrap ''dmesg: timestamp'') (parseDmesgTimestamp cvt tsField (dmesg_bootTime p)))
             (\<lambda>ts. Inr (zero_entry\<lparr>Timestamp := ts, Level := LevelInfo, Process := ''kernel'',
                    Message := rest, Source := ''dmesg''\<rparr>))))"

section \<open>The parser contract\<close>

lemma dmesg_ok: "on_ok (\<lambda>e. Source e = ''dmesg'' \<and> entry_ok e) (dmesg_Parse cvt p l)"
  unfolding dmesg_Parse_def
  by (intro on_ok_intros) (simp_all add: entry_ok_def zero_entry_def)

interpretation dmesg: log_parser "dmesg_Parse cvt p" "''dmesg''" for cvt p
  by unfold_locales (use on_okD[OF dmesg_ok] in \<open>simp_all add: dmesg_Parse_def[of _ _ "[]"]\<close>)

section \<open>The legacy clock\<close>

lemma rnd_max_nanos: "rnd 9223372036000000000 = 9223372036000000000"
proof -
  have "(9223372036000000000 :: rat) = of_int 4503599626953125 * pow2 11"
    using pow2_nat[of 11] by simp
  then show ?thesis using rnd_pos_scaled[of 4503599626953125 11] by (simp add: rnd_def)
qed

lemma nanos_in_range:
  assumes "0 \<le> q" "q \<le> 9223372036"
  shows "to_int64 cvt (fmul (Fin q) (Fin 1000000000)) = \<lfloor>rnd (q * 1000000000)\<rfloor>
    \<and> 0 \<le> \<lfloor>rnd (q * 1000000000)\<rfloor> \<and> \<lfloor>rnd (q * 1000000000)\<rfloor> \<le> 9223372036000000000"
proof -
  let ?r = "rnd (q * 1000000000)"
  have r: "0 \<le> ?r" "?r \<le> 9223372036000000000"
    using rnd_nonneg[of "q * 1000000000"] rnd_mono[of "q * 1000000000" 9223372036000000000]
      rnd_max_nanos assms by simp_all
  then have f: "0 \<le> \<lfloor>?r\<rfloor>" "\<lfloor>?r\<rfloor> \<le> 9223372036000000000" by (auto simp: floor_le_iff)
  have "?r < max_exp" "- max_exp < ?r" using r by (simp_all add: max_exp_def)
  then have "fmul (Fin q) (Fin 1000000000) = Fin ?r" by (simp add: mk_float_def Let_def)
  then show ?thesis using r f by (simp add: to_int64_def trunc_def)
qed

text \<open>C31. The legacy clock of \<^verbatim>\<open>dmesg\<close> lines: a time without a \<open>T\<close> that is accepted gives a stamp at
  most 9223372036 seconds after boot, never before it, and the conversion to a 64-bit duration is
  always in range, so the result is the same on every machine.\<close>

theorem dmesg_legacy_in_range:
  assumes "parseDmesgTimestamp cvt s boot = Inr t" "CHR ''T'' \<notin> set (TrimSpace s)" "boot \<noteq> 0"
  shows "boot \<le> t \<and> t \<le> boot + 9223372036 * 1000000000 \<and> (\<forall>cvt'. parseDmesgTimestamp cvt' s boot = Inr t)"
proof -
  have T: "IndexByte (TrimSpace s) (CHR ''T'') = None" using assms(2) by simp
  from assms(1,3) T obtain secs where p: "TrimSpace s \<noteq> []" "ParseFloat (TrimSpace s) = Some secs"
    "\<not> (fless secs (Fin 0) \<or> is_nan secs \<or> fless maxSecs secs)"
    "t = boot + to_int64 cvt (fmul secs (Fin 1000000000))"
    unfolding parseDmesgTimestamp_def
    by (simp add: Let_def del: IndexByte_None split: if_splits option.splits)
  from p(3) obtain q where q: "secs = Fin q" "0 \<le> q" "q \<le> 9223372036"
    by (cases secs) (auto simp: maxSecs_def is_nan_def)
  from nanos_in_range[OF q(2,3)] p q(1) T assms(3) show ?thesis
    by (simp add: parseDmesgTimestamp_def Let_def del: fmul.simps IndexByte_None)
qed

text \<open>The stamp \<open>[    5.250000]\<close> of a machine booted one second after the zero time.\<close>

theorem dmesg_legacy_in_range_witness:
  "parseDmesgTimestamp (\<lambda>_. 0) ''    5.250000'' 1000000000 = Inr 6250000000
   \<and> (\<forall>cvt. parseDmesgTimestamp cvt ''    5.250000'' 1000000000 = Inr 6250000000)"
proof -
  have t: "TrimSpace ''    5.250000'' = ''5.250000''" by code_simp
  have "rnd (21 / 4) = 21 / 4" using rnd_pos_scaled[of 21 "- 2"] 
    by (simp add: rnd_def pow2_def power_int_def power2_eq_square)
  then have p: "ParseFloat ''5.250000'' = Some (Fin (21 / 4))"
    using ParseFloat_decimal[of "''5''" "''250000''"] by (simp add: is_digit_def digits_val_def digit_val_def mk_float_def max_exp_def)
  have "rnd (5250000000) = 5250000000" using rnd_int[of 5250000000] by simp
  then have "parseDmesgTimestamp (\<lambda>_. 0) ''    5.250000'' 1000000000 = Inr 6250000000"
    by (simp add: parseDmesgTimestamp_def t p IndexByte_def maxSecs_def is_nan_def mk_float_def max_exp_def
        to_int64_def trunc_def)
  then show ?thesis using dmesg_legacy_in_range[of "\<lambda>_. 0" "''    5.250000''" 1000000000 6250000000] t by simp
qed

end
