(* ===== verification/Parser_Journald.thy ===== *)
theory Parser_Journald
  imports Parser_Env
begin

text \<open>
  \<^verbatim>\<open>src/internal/parser/journald.go\<close>: the parser of one record of the systemd journal export format,
  and what it makes of every field of a record.
\<close>

section \<open>Operations\<close>

definition assignJournaldField :: "string \<Rightarrow> string \<Rightarrow> LogEntry \<times> strmap \<Rightarrow> LogEntry \<times> strmap" where
  "assignJournaldField key val st =
     (case st of (e, fs) \<Rightarrow>
        if key = ''MESSAGE'' then (e\<lparr>Message := val\<rparr>, fs)
        else if key = ''PRIORITY'' then
          (case Atoi val of
             Some n \<Rightarrow> if 0 \<le> n \<and> n \<le> 7 then (e\<lparr>Level := severityToLevel n\<rparr>, fs) else (e, fs)
           | None \<Rightarrow> (e, fs))
        else if key = ''_HOSTNAME'' then (e\<lparr>Hostname := val\<rparr>, fs)
        else if key = ''_PID'' then
          (case Atoi val of Some n \<Rightarrow> (e\<lparr>PID := n\<rparr>, fs) | None \<Rightarrow> (e, fs))
        else if key = ''SYSLOG_IDENTIFIER'' then (e\<lparr>Process := val\<rparr>, fs)
        else if key = ''_COMM'' then
          (if Process e = [] then (e\<lparr>Process := val\<rparr>, fs) else (e, fs))
        else if key = ''SYSLOG_FACILITY'' then
          (case Atoi val of Some n \<Rightarrow> (e\<lparr>Facility := n\<rparr>, fs) | None \<Rightarrow> (e, fs))
        else if key = ''__REALTIME_TIMESTAMP'' then
          (case ParseInt64 val of
             Some n \<Rightarrow> (e\<lparr>Timestamp := Unix (go_div n 1000000) (go_mod n 1000000 * 1000)\<rparr>, fs)
           | None \<Rightarrow> (e, fs))
        else (e, AList.update key val fs))"

text \<open>One turn of the loop over the lines of a record.\<close>

definition journald_line :: "LogEntry \<times> strmap \<Rightarrow> string \<Rightarrow> LogEntry \<times> strmap" where
  "journald_line st line =
     (if line = [] then st
      else case IndexByte line (CHR ''='') of
        None \<Rightarrow> st
      | Some eq \<Rightarrow> if eq = 0 then st else assignJournaldField (take eq line) (drop (eq + 1) line) st)"

definition journald_Parse :: Parser where
  "journald_Parse rec =
     (if rec = [] then Inl (wrap ''journald'' ErrTruncatedLine)
      else let (entry, fs) =
             foldl journald_line (zero_entry\<lparr>Source := ''journald''\<rparr>, []) (split_on (CHR 0x0A) rec)
        in if Message entry = [] \<and> fs = [] then Inl (wrap ''journald: no recognisable fields'' ErrInvalidFormat)
           else Inr (if fs \<noteq> [] then entry\<lparr>Fields := fs\<rparr> else entry))"

section \<open>The parser contract\<close>

definition journald_inv :: "LogEntry \<times> strmap \<Rightarrow> bool" where
  "journald_inv st \<longleftrightarrow> Source (fst st) = ''journald'' \<and> Level (fst st) \<le> 7 \<and> Fields (fst st) = []
     \<and> distinct (map fst (snd st))"

lemma assign_inv: "journald_inv st \<Longrightarrow> journald_inv (assignJournaldField k v st)"
  by (cases st) (simp add: journald_inv_def assignJournaldField_def severityToLevel_le split: option.splits)

lemma line_inv: "journald_inv st \<Longrightarrow> journald_inv (journald_line st l)"
  by (simp add: journald_line_def assign_inv split: option.splits)

lemma lines_inv: "journald_inv st \<Longrightarrow> journald_inv (foldl journald_line st ls)"
  by (induction ls arbitrary: st) (simp_all add: line_inv)

lemma journald_start_inv [simp]: "journald_inv (zero_entry\<lparr>Source := ''journald''\<rparr>, [])"
  by (simp add: journald_inv_def zero_entry_def)

lemma journald_ok: "on_ok (\<lambda>e. Source e = ''journald'' \<and> entry_ok e) (journald_Parse l)"
proof -
  let ?r = "foldl journald_line (zero_entry\<lparr>Source := ''journald''\<rparr>, []) (split_on (CHR 0x0A) l)"
  obtain e f where r: "?r = (e, f)" by (cases ?r)
  have "journald_inv (e, f)" using lines_inv[OF journald_start_inv, of "split_on (CHR 0x0A) l"] r by simp
  then show ?thesis
    unfolding journald_Parse_def r Let_def prod.case
    by (intro on_ok_intros) (simp_all add: journald_inv_def entry_ok_def)
qed

interpretation journald: log_parser journald_Parse "''journald''"
  by unfold_locales (use on_okD[OF journald_ok] in \<open>simp_all add: journald_Parse_def[of "[]"]\<close>)

section \<open>What a record means\<close>

definition print_journal :: "strmap \<Rightarrow> string" where
  "print_journal kvs = concat (map (\<lambda>(k, v). k @ CHR ''='' # v @ [CHR 0x0A]) kvs)"

definition kvs_ok :: "strmap \<Rightarrow> bool" where
  "kvs_ok kvs \<longleftrightarrow> (\<forall>(k, v)\<in>set kvs. k \<noteq> [] \<and> CHR ''='' \<notin> set k \<and> CHR 0x0A \<notin> set k \<and> CHR 0x0A \<notin> set v)"

text \<open>The value of a slot: the last line of the key that the slot accepts, else the initial value.\<close>

definition last_valid :: "(string \<Rightarrow> 'a option) \<Rightarrow> string \<Rightarrow> strmap \<Rightarrow> 'a \<Rightarrow> 'a" where
  "last_valid f key kvs d =
     foldl (\<lambda>acc (k, v). if k = key then (case f v of Some x \<Rightarrow> x | None \<Rightarrow> acc) else acc) d kvs"

definition journald_keys :: "string list" where
  "journald_keys = [''MESSAGE'', ''PRIORITY'', ''_HOSTNAME'', ''_PID'', ''SYSLOG_IDENTIFIER'', ''_COMM'',
     ''SYSLOG_FACILITY'', ''__REALTIME_TIMESTAMP'']"

definition priority_of :: "string \<Rightarrow> Level option" where
  "priority_of v = (case Atoi v of Some n \<Rightarrow> if 0 \<le> n \<and> n \<le> 7 then Some (severityToLevel n) else None | None \<Rightarrow> None)"

text \<open>Microseconds since the Unix epoch as an instant.\<close>

definition usec_instant :: "int \<Rightarrow> instant" where
  "usec_instant n = unix_offset * 1000000000 + n * 1000"

lemma Unix_usec: "Unix (go_div n 1000000) (go_mod n 1000000 * 1000) = usec_instant n"
  using go_div_mod[of n 1000000] by (simp add: Unix_def usec_instant_def algebra_simps)

definition assign_all :: "LogEntry \<times> strmap \<Rightarrow> strmap \<Rightarrow> LogEntry \<times> strmap" where
  "assign_all st kvs = foldl (\<lambda>s (k, v). assignJournaldField k v s) st kvs"

lemma journald_line_kv:
  "k \<noteq> [] \<Longrightarrow> CHR ''='' \<notin> set k \<Longrightarrow> journald_line st (k @ CHR ''='' # v) = assignJournaldField k v st"
  by (simp add: journald_line_def)

lemma lines_assign:
  "kvs_ok kvs \<Longrightarrow> foldl journald_line st (split_on (CHR 0x0A) (print_journal kvs)) = assign_all st kvs"
proof (induction kvs arbitrary: st)
  case Nil
  then show ?case by (simp add: print_journal_def assign_all_def journald_line_def)
next
  case (Cons kv kvs)
  obtain k v where kv: "kv = (k, v)" by (cases kv)
  have ok: "k \<noteq> []" "CHR ''='' \<notin> set k" "CHR 0x0A \<notin> set (k @ CHR ''='' # v)" "kvs_ok kvs"
    using Cons.prems kv by (auto simp: kvs_ok_def)
  have "print_journal (kv # kvs) = (k @ CHR ''='' # v) @ CHR 0x0A # print_journal kvs"
    by (simp add: print_journal_def kv)
  then have "split_on (CHR 0x0A) (print_journal (kv # kvs)) = (k @ CHR ''='' # v) # split_on (CHR 0x0A) (print_journal kvs)"
    using split_on_append_sep[OF ok(3)] by simp
  then show ?case using Cons.IH[OF ok(4)] journald_line_kv[OF ok(1,2)] by (simp add: assign_all_def kv)
qed

lemma assign_all_snoc [simp]: "assign_all st (kvs @ [(k, v)]) = assignJournaldField k v (assign_all st kvs)"
  by (simp add: assign_all_def)

lemma last_valid_snoc [simp]: "last_valid f key (kvs @ [(k, v)]) d
    = (if k = key then (case f v of Some x \<Rightarrow> x | None \<Rightarrow> last_valid f key kvs d) else last_valid f key kvs d)"
  by (simp add: last_valid_def split: option.split)

lemma assign_slot_snd:
  "snd (assignJournaldField k v st) = (if k \<in> set journald_keys then snd st else AList.update k v (snd st))"
  by (cases st) (simp add: assignJournaldField_def journald_keys_def split: option.splits)

text \<open>The slots of one assignment, each on its own.\<close>

lemma assign_slots:
  "Message (fst (assignJournaldField k v st)) = (if k = ''MESSAGE'' then v else Message (fst st))"
  "Level (fst (assignJournaldField k v st))
     = (if k = ''PRIORITY'' then (case priority_of v of Some l \<Rightarrow> l | None \<Rightarrow> Level (fst st)) else Level (fst st))"
  "Hostname (fst (assignJournaldField k v st)) = (if k = ''_HOSTNAME'' then v else Hostname (fst st))"
  "PID (fst (assignJournaldField k v st))
     = (if k = ''_PID'' then (case Atoi v of Some n \<Rightarrow> n | None \<Rightarrow> PID (fst st)) else PID (fst st))"
  "Facility (fst (assignJournaldField k v st))
     = (if k = ''SYSLOG_FACILITY'' then (case Atoi v of Some n \<Rightarrow> n | None \<Rightarrow> Facility (fst st)) else Facility (fst st))"
  "Timestamp (fst (assignJournaldField k v st))
     = (if k = ''__REALTIME_TIMESTAMP''
        then (case map_option usec_instant (ParseInt64 v) of Some t \<Rightarrow> t | None \<Rightarrow> Timestamp (fst st))
        else Timestamp (fst st))"
  by (cases st; simp add: assignJournaldField_def priority_of_def Unix_usec split: option.splits)+

lemma assign_all_slots:
  "Message (fst (assign_all st kvs)) = last_valid Some ''MESSAGE'' kvs (Message (fst st))"
  "Level (fst (assign_all st kvs)) = last_valid priority_of ''PRIORITY'' kvs (Level (fst st))"
  "Hostname (fst (assign_all st kvs)) = last_valid Some ''_HOSTNAME'' kvs (Hostname (fst st))"
  "PID (fst (assign_all st kvs)) = last_valid Atoi ''_PID'' kvs (PID (fst st))"
  "Facility (fst (assign_all st kvs)) = last_valid Atoi ''SYSLOG_FACILITY'' kvs (Facility (fst st))"
  "Timestamp (fst (assign_all st kvs))
     = last_valid (\<lambda>v. map_option usec_instant (ParseInt64 v)) ''__REALTIME_TIMESTAMP'' kvs (Timestamp (fst st))"
  by (induction kvs rule: rev_induct; (simp add: assign_all_def last_valid_def; fail)?;
      clarsimp simp: assign_slots split: option.split)+

lemma assign_all_fields:
  "map_of (snd (assign_all st kvs)) k
     = (if k \<in> set journald_keys then map_of (snd st) k else last_valid (\<lambda>v. Some (Some v)) k kvs (map_of (snd st) k))"
  by (induction kvs rule: rev_induct; (simp add: assign_all_def last_valid_def; fail)?;
      clarsimp simp: assign_slot_snd)

lemma assign_all_inv: "journald_inv st \<Longrightarrow> journald_inv (assign_all st kvs)"
  by (induction kvs rule: rev_induct) (simp add: assign_all_def, clarsimp simp: assign_inv)

lemma assign_all_empty: "snd (assign_all st kvs) = [] \<longleftrightarrow> snd st = [] \<and> fst ` set kvs \<subseteq> set journald_keys"
proof (induction kvs rule: rev_induct)
  case Nil
  then show ?case by (simp add: assign_all_def)
next
  case (snoc kv kvs)
  obtain k v where kv: "kv = (k, v)" by (cases kv)
  have u: "AList.update k v l \<noteq> []" for l :: strmap by (cases l) auto
  show ?case using snoc u by (simp add: kv assign_slot_snd)
qed

text \<open>The preferred name of the process wins wherever it stands in the record.\<close>

lemma assign_Process:
  "Process (fst (assignJournaldField k v st)) =
     (if k = ''SYSLOG_IDENTIFIER'' then v
      else if k = ''_COMM'' \<and> Process (fst st) = [] then v else Process (fst st))"
  by (cases st) (simp add: assignJournaldField_def split: option.splits)

lemma assign_all_prefers:
  assumes step: "\<And>k v st. Process (fst (assignJournaldField k v st)) =
      (if k = S then v else if k = C \<and> Process (fst st) = [] then v else Process (fst st))"
    and "(S, p) \<in> set kvs" "p \<noteq> []" "\<forall>v. (S, v) \<in> set kvs \<longrightarrow> v = p"
  shows "Process (fst (assign_all st kvs)) = p"
  using assms(2-)
proof (induction kvs rule: rev_induct)
  case (snoc kv kvs)
  obtain k v where kv: "kv = (k, v)" by (cases kv)
  show ?case
  proof (cases "k = S")
    case True
    have "v = p" using snoc.prems(3) True kv by simp
    then show ?thesis using True kv step[of k v "assign_all st kvs"] by simp
  next
    case False
    have "(S, p) \<in> set kvs" using snoc.prems(1) False kv by simp
    moreover have "\<forall>v. (S, v) \<in> set kvs \<longrightarrow> v = p" using snoc.prems(3) by simp
    ultimately have "Process (fst (assign_all st kvs)) = p" using snoc.IH snoc.prems(2) by blast
    then show ?thesis using False snoc.prems(2) kv step[of k v "assign_all st kvs"] by simp
  qed
qed simp

lemmas assign_all_Process = assign_all_prefers[OF assign_Process]

text \<open>The process name that a record determines: the last syslog identifier; without one, or when it is empty, the first
  command name behind it that is not empty.\<close>

definition comm_of :: "strmap \<Rightarrow> string" where
  "comm_of kvs = (case filter (\<lambda>(k, v). k = ''_COMM'' \<and> v \<noteq> []) kvs of [] \<Rightarrow> [] | (k, v) # rest \<Rightarrow> v)"

definition process_of :: "strmap \<Rightarrow> string" where
  "process_of kvs =
     (let name = last_valid Some ''SYSLOG_IDENTIFIER'' kvs [] in
      if name \<noteq> [] then name else comm_of (rev (takeWhile (\<lambda>(k, v). k \<noteq> ''SYSLOG_IDENTIFIER'') (rev kvs))))"

lemma comm_of_snoc: "comm_of (kvs @ [(k, v)]) = (if comm_of kvs = [] \<and> k = ''_COMM'' then v else comm_of kvs)"
  by (induction kvs) (auto simp: comm_of_def)

lemma process_of_snoc: "process_of (kvs @ [(k, v)]) =
     (if k = ''SYSLOG_IDENTIFIER'' then v else if k = ''_COMM'' \<and> process_of kvs = [] then v else process_of kvs)"
  by (simp add: process_of_def Let_def comm_of_snoc) (simp add: comm_of_def)

lemma assign_all_process: "Process (fst st) = [] \<Longrightarrow> Process (fst (assign_all st kvs)) = process_of kvs"
proof (induction kvs rule: rev_induct)
  case Nil
  then show ?case by (simp add: assign_all_def process_of_def last_valid_def comm_of_def)
next
  case (snoc kv kvs)
  then show ?case by (cases kv) (simp only: assign_all_snoc assign_Process process_of_snoc)
qed

lemma process_of_comm: "''SYSLOG_IDENTIFIER'' \<notin> fst ` set kvs \<Longrightarrow> process_of kvs = comm_of kvs"
proof (induction kvs rule: rev_induct)
  case Nil
  then show ?case by (simp add: process_of_def last_valid_def)
next
  case (snoc kv kvs)
  then show ?case by (cases kv) (auto simp: process_of_snoc comm_of_snoc)
qed

text \<open>C32. Journal records: a record of well-formed \<^verbatim>\<open>KEY=value\<close> lines is accepted exactly when it has a message or an
  unrecognised key. Message, host, level, pid, facility and time stamp (exactly, in microseconds) are the last valid
  value of their key, and every unrecognised key is kept in the field map with its last value. The process name is the
  last syslog identifier; when there is none, or that one is empty, it is the first non-empty command name behind it, so
  that a non-empty identifier wins wherever it stands, and a record without any has its first non-empty command
  name.\<close>

theorem journald_record:
  assumes "kvs_ok kvs" "kvs \<noteq> []"
  shows "(case journald_Parse (print_journal kvs) of
      Inl e \<Rightarrow> e = wrap ''journald: no recognisable fields'' ErrInvalidFormat
        \<and> last_valid Some ''MESSAGE'' kvs [] = [] \<and> fst ` set kvs \<subseteq> set journald_keys
    | Inr e \<Rightarrow> Message e = last_valid Some ''MESSAGE'' kvs [] \<and> Hostname e = last_valid Some ''_HOSTNAME'' kvs []
        \<and> Level e = last_valid priority_of ''PRIORITY'' kvs LevelEmergency
        \<and> PID e = last_valid Atoi ''_PID'' kvs 0 \<and> Facility e = last_valid Atoi ''SYSLOG_FACILITY'' kvs 0
        \<and> Timestamp e = last_valid (\<lambda>v. map_option usec_instant (ParseInt64 v)) ''__REALTIME_TIMESTAMP'' kvs 0
        \<and> (\<forall>k. map_of (Fields e) k
              = (if k \<in> set journald_keys then None else last_valid (\<lambda>v. Some (Some v)) k kvs None))
        \<and> Process e = process_of kvs
        \<and> (''SYSLOG_IDENTIFIER'' \<notin> fst ` set kvs \<longrightarrow> Process e = comm_of kvs)
        \<and> (\<forall>p. p \<noteq> [] \<and> {v. (''SYSLOG_IDENTIFIER'', v) \<in> set kvs} = {p} \<longrightarrow> Process e = p))"
proof -
  let ?s0 = "(zero_entry\<lparr>Source := ''journald''\<rparr>, [])"
  obtain e f where r: "assign_all ?s0 kvs = (e, f)" by (cases "assign_all ?s0 kvs")
  have ne: "print_journal kvs \<noteq> []" using assms(2) by (cases kvs) (auto simp: print_journal_def)
  have fl: "foldl journald_line ?s0 (split_on (CHR 0x0A) (print_journal kvs)) = (e, f)"
    using lines_assign[OF assms(1)] r by simp
  have sl: "Message e = last_valid Some ''MESSAGE'' kvs []" "Hostname e = last_valid Some ''_HOSTNAME'' kvs []"
    "Level e = last_valid priority_of ''PRIORITY'' kvs LevelEmergency" "PID e = last_valid Atoi ''_PID'' kvs 0"
    "Facility e = last_valid Atoi ''SYSLOG_FACILITY'' kvs 0"
    "Timestamp e = last_valid (\<lambda>v. map_option usec_instant (ParseInt64 v)) ''__REALTIME_TIMESTAMP'' kvs 0"
    using assign_all_slots[of ?s0 kvs, unfolded r fst_conv] by (simp_all add: zero_entry_def)
  have fm: "map_of f k = (if k \<in> set journald_keys then None else last_valid (\<lambda>v. Some (Some v)) k kvs None)" for k
    using assign_all_fields[of ?s0 kvs k] by (simp add: r)
  have pr: "p \<noteq> [] \<Longrightarrow> {v. (''SYSLOG_IDENTIFIER'', v) \<in> set kvs} = {p} \<Longrightarrow> Process e = p" for p
    using assign_all_Process[of p kvs ?s0] unfolding r fst_conv by blast
  have po: "Process e = process_of kvs" using assign_all_process[of ?s0 kvs, unfolded r fst_conv] by (simp add: zero_entry_def)
  have f0: "Fields e = []" using assign_all_inv[OF journald_start_inv, of kvs] r by (simp add: journald_inv_def)
  have nf: "f = [] \<longleftrightarrow> fst ` set kvs \<subseteq> set journald_keys"
    using assign_all_empty[of ?s0 kvs] by (simp add: r)
  show ?thesis
    unfolding journald_Parse_def fl Let_def prod.case
    using ne sl fm pr po process_of_comm[of kvs] f0 nf by (cases "f = []") simp_all
qed

definition example_record :: strmap where
  "example_record = [(''_COMM'', ''sshd-session''), (''MESSAGE'', ''hello''), (''PRIORITY'', ''3''),
     (''SYSLOG_IDENTIFIER'', ''sshd''), (''UNIT'', ''ssh=x'')]"

theorem journald_record_witness:
  "(case journald_Parse (print_journal example_record) of Inl e \<Rightarrow> False
    | Inr e \<Rightarrow> Message e = ''hello'' \<and> Level e = LevelError \<and> Process e = ''sshd''
       \<and> map_of (Fields e) ''UNIT'' = Some ''ssh=x'')
   \<and> (case journald_Parse (print_journal (take 3 example_record)) of Inl e \<Rightarrow> False | Inr e \<Rightarrow> Process e = ''sshd-session'')"
proof -
  have ok: "kvs_ok example_record" "example_record \<noteq> []" "kvs_ok (take 3 example_record)" "take 3 example_record \<noteq> []"
    by (simp_all add: example_record_def kvs_ok_def)
  have m: "last_valid Some ''MESSAGE'' example_record [] = ''hello''"
    "last_valid priority_of ''PRIORITY'' example_record LevelEmergency = LevelError"
    "last_valid (\<lambda>v. Some (Some v)) ''UNIT'' example_record None = Some ''ssh=x''"
    "''UNIT'' \<notin> set journald_keys" "last_valid Some ''MESSAGE'' (take 3 example_record) [] = ''hello''"
    by code_simp+
  have i: "process_of example_record = ''sshd''" "process_of (take 3 example_record) = ''sshd-session''" by code_simp+
  show ?thesis
    using journald_record[OF ok(1,2)] journald_record[OF ok(3,4)] m i
    by (cases "journald_Parse (print_journal example_record)"; cases "journald_Parse (print_journal (take 3 example_record))") auto
qed

text \<open>The fallback does not survive an empty identifier: a command name in front of it is lost.\<close>

theorem journald_comm_lost:
  "process_of [(''_COMM'', c), (''SYSLOG_IDENTIFIER'', [])] = [] \<and> process_of [(''SYSLOG_IDENTIFIER'', []), (''_COMM'', c)] = c"
proof -
  have l: "[(''_COMM'', c), (''SYSLOG_IDENTIFIER'', [])] = ([] @ [(''_COMM'', c)]) @ [(''SYSLOG_IDENTIFIER'', [])]"
    "[(''SYSLOG_IDENTIFIER'', []), (''_COMM'', c)] = ([] @ [(''SYSLOG_IDENTIFIER'', [])]) @ [(''_COMM'', c)]" by simp_all
  show ?thesis unfolding l process_of_snoc by simp
qed

text \<open>A journal record without a valid \<^verbatim>\<open>PRIORITY\<close> line is given the most severe level: the slot keeps
  the zero value of the severity type, which is \<^verbatim>\<open>emerg\<close>.\<close>

theorem journald_missing_priority:
  assumes "kvs_ok kvs" "\<forall>(k, v)\<in>set kvs. k \<noteq> ''PRIORITY'' \<or> priority_of v = None"
    and "journald_Parse (print_journal kvs) = Inr e"
  shows "Level e = LevelEmergency \<and> Level_String (Level e) = ''emerg''"
proof -
  let ?s0 = "(zero_entry\<lparr>Source := ''journald''\<rparr>, [])"
  have "last_valid priority_of K kvs d = d"
    if "\<forall>(k, v)\<in>set kvs. k \<noteq> K \<or> priority_of v = None" for K d
    using that by (induction kvs arbitrary: d) (auto simp: last_valid_def)
  then have "Level (fst (assign_all ?s0 kvs)) = 0"
    using assms(2) assign_all_slots(2)[of ?s0 kvs] by (simp add: zero_entry_def)
  moreover have "Level e = Level (fst (assign_all ?s0 kvs))"
    using assms(3) unfolding journald_Parse_def lines_assign[OF assms(1)]
    by (auto simp: Let_def split: prod.splits if_splits)
  ultimately show ?thesis by (simp add: Level_String_def)
qed

theorem journald_missing_priority_witness:
  "on_ok (\<lambda>e. Level e = LevelEmergency) (journald_Parse (print_journal [(''MESSAGE'', ''ok'')]))
   \<and> \<not> isl (journald_Parse (print_journal [(''MESSAGE'', ''ok'')]))"
proof -
  have p: "\<not> isl (journald_Parse (print_journal [(''MESSAGE'', ''ok'')]))" by code_simp
  then obtain e where e: "journald_Parse (print_journal [(''MESSAGE'', ''ok'')]) = Inr e"
    by (cases "journald_Parse (print_journal [(''MESSAGE'', ''ok'')])") auto
  have "Level e = LevelEmergency"
    using journald_missing_priority[OF _ _ e] by (simp add: kvs_ok_def)
  then show ?thesis using e by simp
qed

end
