(* ===== verification/Parser_Registry.thy ===== *)
theory Parser_Registry
  imports Parser_BSD Parser_RFC5424 Parser_Dmesg Parser_Journald "HOL-Library.List_Lexorder"
    "HOL-Library.Char_ord"
begin

text \<open>
  \<^verbatim>\<open>src/internal/parser/registry.go\<close> and the \<^verbatim>\<open>init\<close> functions of the format files: registration,
  lookup by name and the sorted list of names. The registry is the Go map as an association list,
  whose order stands for the unspecified iteration order.
\<close>

section \<open>Operations\<close>

text \<open>A value of the interface \<^verbatim>\<open>Parser\<close>: its \<^verbatim>\<open>Name()\<close> and its \<^verbatim>\<open>Parse\<close>.\<close>

type_synonym parser_value = "string \<times> Parser"

type_synonym Factory = "options \<Rightarrow> (string, parser_value) result"

type_synonym registry = "(string \<times> Factory) list"

datatype register_panic = PanicEmptyName | PanicNilFactory string | PanicDuplicate string

text \<open>A nil \<^verbatim>\<open>Factory\<close> is \<^const>\<open>None\<close>.\<close>

definition Register :: "string \<Rightarrow> Factory option \<Rightarrow> registry \<Rightarrow> (register_panic, registry) result" where
  "Register name f reg =
     (if name = [] then Inl PanicEmptyName
      else case f of
        None \<Rightarrow> Inl (PanicNilFactory name)
      | Some fac \<Rightarrow>
          if map_of reg name \<noteq> None then Inl (PanicDuplicate name)
          else Inr (AList.update name fac reg))"

definition RegisteredNames :: "registry \<Rightarrow> string list" where
  "RegisteredNames reg = sort (map fst reg)"

text \<open>An unknown name is an error that carries the known ones.\<close>

datatype build_error = UnknownType string "string list" | FactoryError string

definition Build :: "registry \<Rightarrow> string \<Rightarrow> options \<Rightarrow> (build_error, parser_value) result" where
  "Build reg name config =
     (case map_of reg name of
        None \<Rightarrow> Inl (UnknownType name (RegisteredNames reg))
      | Some f \<Rightarrow> map_err FactoryError (f config))"

section \<open>The five formats\<close>

definition named :: "string \<Rightarrow> ('c \<Rightarrow> Parser) \<Rightarrow> (string, 'c) result \<Rightarrow> (string, parser_value) result" where
  "named n parse r = (case r of Inl e \<Rightarrow> Inl e | Inr c \<Rightarrow> Inr (n, parse c))"

text \<open>The constructors of the two formats without options.\<close>

definition newSyslogRFC5424 :: "options \<Rightarrow> (string, unit) result" where
  "newSyslogRFC5424 raw = Inr ()"

definition newJournald :: "options \<Rightarrow> (string, unit) result" where
  "newJournald raw = Inr ()"

text \<open>What the \<^verbatim>\<open>init\<close> function of each format file registers.\<close>

definition init_syslog_bsd :: "parser_env \<Rightarrow> string \<times> Factory" where
  "init_syslog_bsd env = (''syslog_bsd'', \<lambda>raw. named ''syslog_bsd'' syslogBSD_Parse (newSyslogBSD env raw))"

definition init_syslog_rfc5424 :: "parser_env \<Rightarrow> string \<times> Factory" where
  "init_syslog_rfc5424 env = (''syslog_rfc5424'', \<lambda>raw. named ''syslog_rfc5424'' (\<lambda>_. syslogRFC5424_Parse) (newSyslogRFC5424 raw))"

definition init_kmsg :: "parser_env \<Rightarrow> string \<times> Factory" where
  "init_kmsg env = (''kmsg'', \<lambda>raw. named ''kmsg'' kmsg_Parse (newKMsg env raw))"

definition init_dmesg :: "parser_env \<Rightarrow> string \<times> Factory" where
  "init_dmesg env = (''dmesg'', \<lambda>raw. named ''dmesg'' (dmesg_Parse (env_cvt env)) (newDmesg env raw))"

definition init_journald :: "parser_env \<Rightarrow> string \<times> Factory" where
  "init_journald env = (''journald'', \<lambda>raw. named ''journald'' (\<lambda>_. journald_Parse) (newJournald raw))"

definition init_registrations :: "parser_env \<Rightarrow> (string \<times> Factory) list" where
  "init_registrations env =
     [init_syslog_bsd env, init_syslog_rfc5424 env, init_kmsg env, init_dmesg env, init_journald env]"

lemmas init_defs = init_registrations_def init_syslog_bsd_def init_syslog_rfc5424_def init_kmsg_def init_dmesg_def
  init_journald_def newSyslogRFC5424_def newJournald_def

text \<open>The \<^verbatim>\<open>init\<close> functions run one after the other in some order.\<close>

fun register_all :: "(string \<times> Factory) list \<Rightarrow> registry \<Rightarrow> (register_panic, registry) result" where
  "register_all [] reg = Inr reg"
| "register_all ((n, f) # rest) reg = rbind (Register n (Some f) reg) (register_all rest)"

section \<open>Facts\<close>

lemma register_all_fresh:
  assumes "distinct (map fst (rev reg @ rs))" "[] \<notin> fst ` set rs"
  shows "register_all rs reg = Inr (reg @ rs)"
  using assms
proof (induction rs arbitrary: reg)
  case (Cons r rs)
  obtain n f where r: "r = (n, f)" by (cases r)
  have n: "n \<noteq> []" "n \<notin> fst ` set reg" using Cons.prems r by auto
  then have "AList.update n f reg = reg @ [(n, f)]" by (induction reg) auto
  moreover have "map_of reg n = None" using n by (simp add: map_of_eq_None_iff)
  ultimately show ?case using Cons r n(1) by (simp add: Register_def)
qed simp

text \<open>The contract of a built parser, written out over its two methods.\<close>

definition parser_contract :: "string \<Rightarrow> parser_value \<Rightarrow> bool" where
  "parser_contract n v \<longleftrightarrow> fst v = n \<and> snd v [] = Inl (wrap n ErrTruncatedLine)
     \<and> (\<forall>l e. snd v l = Inr e \<longrightarrow> Source e = n \<and> entry_ok e)"

context log_parser
begin

lemma contract: "parser_contract name (name, parse)"
  by (simp add: parser_contract_def parse_empty parse_name parse_ok)

end

lemmas format_contracts = bsd.contract rfc5424.contract kmsg.contract dmesg.contract journald.contract

lemma init_contract:
  assumes "(n, f) \<in> set (init_registrations env)"
  shows "on_ok (parser_contract n) (f raw)"
  using assms format_contracts
  by (auto simp: init_defs named_def on_ok_def split: sum.splits)

definition format_names :: "string list" where
  "format_names = [''dmesg'', ''journald'', ''kmsg'', ''syslog_bsd'', ''syslog_rfc5424'']"

lemma init_names: "sort (map fst (init_registrations env)) = format_names"
  unfolding init_defs format_names_def list.map fst_conv by code_simp

lemma init_fresh: "distinct (map fst (init_registrations env))" "[] \<notin> fst ` set (init_registrations env)"
  by (simp_all add: init_defs)

text \<open>C33. Whatever order the \<^verbatim>\<open>init\<close> functions run in, registration never panics and the registry has
  exactly the five formats: their names come back sorted, a name outside them is an error that
  lists them, and a parser built for a name answers to that name, rejects the empty record as
  truncated and labels every entry with it.\<close>

theorem registry_complete:
  assumes "mset rs = mset (init_registrations env)"
  shows "register_all rs [] = Inr rs \<and> RegisteredNames rs = format_names
    \<and> (name \<notin> set format_names \<longrightarrow> Build rs name raw = Inl (UnknownType name format_names))
    \<and> on_ok (parser_contract name) (Build rs name raw)"
proof -
  have st: "set rs = set (init_registrations env)" using assms by (rule mset_eq_setD)
  have ms: "mset (map fst rs) = mset (map fst (init_registrations env))" using assms by simp
  have d: "distinct (map fst rs)" using init_fresh(1) mset_eq_imp_distinct_iff[OF ms] by blast
  have r: "register_all rs [] = Inr rs"
    using register_all_fresh[of "[]" rs] d init_fresh(2) st by simp
  have n: "RegisteredNames rs = format_names"
    using ms init_names by (metis RegisteredNames_def sorted_list_of_multiset_mset)
  have k: "set format_names = fst ` set rs"
    using n by (metis RegisteredNames_def list.set_map set_sort)
  have "name \<notin> set format_names \<Longrightarrow> map_of rs name = None" by (simp add: k map_of_eq_None_iff)
  then have "name \<notin> set format_names \<Longrightarrow> Build rs name raw = Inl (UnknownType name format_names)"
    by (simp add: Build_def n)
  moreover have "on_ok (parser_contract name) (Build rs name raw)"
  proof (cases "map_of rs name")
    case (Some f)
    then have "(name, f) \<in> set (init_registrations env)" using st by (auto dest: map_of_SomeD)
    from init_contract[OF this, of raw] show ?thesis
      using Some by (cases "f raw") (simp_all add: Build_def)
  qed (simp add: Build_def)
  ultimately show ?thesis using r n by blast
qed

definition example_env :: parser_env where
  "example_env = \<lparr>env_now = 0, env_year = 2026, env_local = UTC, env_load = (\<lambda>_. None), env_uptime = None,
     env_cvt = (\<lambda>_. 0)\<rparr>"

theorem registry_complete_witness:
  "RegisteredNames (rev (init_registrations example_env)) = format_names
   \<and> Build (rev (init_registrations example_env)) ''json'' (\<lambda>_. None) = Inl (UnknownType ''json'' format_names)"
  using registry_complete[of "rev (init_registrations example_env)" example_env "''json''" "\<lambda>_. None"]
  by (simp add: format_names_def)

end
