(* ===== verification/Spool.thy ===== *)
theory Spool
  imports Go_Time "HOL-Library.List_Lexorder" "HOL-Library.Char_ord"
begin

text \<open>
  \<^verbatim>\<open>src/internal/transport/spool.go\<close>, type \<^verbatim>\<open>Spool\<close>: the on-disk queue of batches. The spool directory is
  an association list of names and nodes, whose order stands for the unspecified order of the
  disk; every system call can fail, as a record of faults says. Paths are names below the spool
  directory. The chronological order of the names, the size bound and the effect of every error
  path are proved here.
\<close>

section \<open>The directory\<close>

datatype fnode = File bytes | Dir

type_synonym dirfs = "(string \<times> fnode) list"

text \<open>Which calls fail: opening, writing (after how many bytes), syncing, closing, renaming, reading the
  directory, and, by name, \<^verbatim>\<open>Info\<close>, \<^verbatim>\<open>Remove\<close> and \<^verbatim>\<open>Open\<close>.\<close>

record faults =
  f_open :: bool
  f_write :: "nat option"
  f_sync :: bool
  f_close :: bool
  f_rename :: bool
  f_readdir :: bool
  f_info :: "string \<Rightarrow> bool"
  f_remove :: "string \<Rightarrow> bool"
  f_read :: "string \<Rightarrow> bool"

definition no_faults :: faults where
  "no_faults = \<lparr>f_open = False, f_write = None, f_sync = False, f_close = False, f_rename = False,
     f_readdir = False, f_info = (\<lambda>_. False), f_remove = (\<lambda>_. False), f_read = (\<lambda>_. False)\<rparr>"

text \<open>\<^verbatim>\<open>os.ReadDir\<close>: sorted by file name.\<close>

definition ReadDir :: "dirfs \<Rightarrow> (string \<times> fnode) list" where
  "ReadDir fs = sort_key fst fs"

datatype io_error = ErrNotExist | ErrIO

text \<open>\<^verbatim>\<open>os.Remove\<close> on a file.\<close>

definition os_Remove :: "faults \<Rightarrow> string \<Rightarrow> dirfs \<Rightarrow> io_error option \<times> dirfs" where
  "os_Remove flt n fs =
     (if map_of fs n = None then (Some ErrNotExist, fs)
      else if f_remove flt n then (Some ErrIO, fs)
      else (None, AList.delete n fs))"

section \<open>State and operations\<close>

record Spool =
  sp_maxBytes :: int
  sp_seq :: "64 word"
  sp_drops :: "64 word"

text \<open>\<^verbatim>\<open>NewSpool\<close>: the outcomes of \<^verbatim>\<open>MkdirAll\<close> and \<^verbatim>\<open>Chmod\<close> are arguments.\<close>

definition NewSpool :: "bool \<Rightarrow> bool \<Rightarrow> string \<Rightarrow> int \<Rightarrow> (string, Spool) result" where
  "NewSpool mkdir_fails chmod_fails dir mb0 =
     (if dir = [] then Inl ''spool: dir required''
      else let mb = (if mb0 \<le> 0 then 100 * 1024 * 1024 else mb0) in
        if mkdir_fails then Inl ''spool: mkdir''
        else if chmod_fails then Inl ''spool: chmod''
        else Inr \<lparr>sp_maxBytes = mb, sp_seq = 0, sp_drops = 0\<rparr>)"

text \<open>\<^verbatim>\<open>%020d\<close> and \<^verbatim>\<open>%010d\<close>.\<close>

definition fmt_d :: "nat \<Rightarrow> int \<Rightarrow> string" where
  "fmt_d w n = (if n < 0 then CHR ''-'' # dec_pad (w - 1) (nat (- n)) else dec_pad w (nat n))"

abbreviation spool_ext :: string where "spool_ext \<equiv> ''.jsonl.gz''"

definition spool_name :: "int \<Rightarrow> 64 word \<Rightarrow> string" where
  "spool_name now q = fmt_d 20 now @ CHR ''-'' # fmt_d 10 (int (unat q)) @ spool_ext"

text \<open>The files that \<^verbatim>\<open>evict\<close> sees, with their sizes.\<close>

fun evict_items :: "faults \<Rightarrow> (string \<times> fnode) list \<Rightarrow> (string \<times> int) list" where
  "evict_items flt [] = []"
| "evict_items flt ((n, Dir) # es) = evict_items flt es"
| "evict_items flt ((n, File b) # es) =
     (if f_info flt n then evict_items flt es else (n, int (length b)) # evict_items flt es)"

fun spool_evict_loop :: "faults \<Rightarrow> int \<Rightarrow> (string \<times> int) list \<Rightarrow> int \<Rightarrow> 64 word \<Rightarrow> dirfs \<Rightarrow> 64 word \<times> dirfs" where
  "spool_evict_loop flt mb [] tot d fs = (d, fs)"
| "spool_evict_loop flt mb ((n, sz) # items) tot d fs =
     (if tot \<le> mb then (d, fs)
      else case os_Remove flt n fs of
        (Some e, fs') \<Rightarrow> spool_evict_loop flt mb items tot d fs'
      | (None, fs') \<Rightarrow> spool_evict_loop flt mb items (tot - sz) (d + 1) fs')"

definition evict :: "faults \<Rightarrow> Spool \<Rightarrow> dirfs \<Rightarrow> Spool \<times> dirfs" where
  "evict flt s fs =
     (if f_readdir flt then (s, fs)
      else let items = evict_items flt (ReadDir fs); tot = sum_list (map snd items) in
        if tot \<le> sp_maxBytes s then (s, fs)
        else let (d, fs') = spool_evict_loop flt (sp_maxBytes s) (sort_key fst items) tot (sp_drops s) fs
             in (s\<lparr>sp_drops := d\<rparr>, fs'))"

definition Append :: "faults \<Rightarrow> int \<Rightarrow> bytes \<Rightarrow> Spool \<Rightarrow> dirfs \<Rightarrow> (string, unit) result \<times> Spool \<times> dirfs" where
  "Append flt now payload s0 fs =
     (let s = s0\<lparr>sp_seq := sp_seq s0 + 1\<rparr>;
          final = spool_name now (sp_seq s);
          tmp = final @ ''.tmp'';
          cleanup = (\<lambda>g. snd (os_Remove flt tmp g))
      in if f_open flt \<or> map_of fs tmp = Some Dir then (Inl ''spool open'', s, fs)
      else case f_write flt of
        Some k \<Rightarrow> (Inl ''spool write'', s, cleanup (AList.update tmp (File (take k payload)) fs))
      | None \<Rightarrow>
          let fs1 = AList.update tmp (File payload) fs in
          if f_sync flt then (Inl ''spool fsync'', s, cleanup fs1)
          else if f_close flt then (Inl ''spool close'', s, cleanup fs1)
          else if f_rename flt \<or> map_of fs1 final = Some Dir then (Inl ''spool rename'', s, cleanup fs1)
          else let fs2 = AList.update final (File payload) (AList.delete tmp fs1);
                   (s', fs3) = evict flt s fs2
               in (Inr (), s', fs3))"

text \<open>The files that \<^verbatim>\<open>List\<close> returns.\<close>

definition listed :: "string \<times> fnode \<Rightarrow> bool" where
  "listed e \<longleftrightarrow> snd e \<noteq> Dir \<and> \<not> (HasSuffix (fst e) ''.tmp'' \<or> \<not> HasSuffix (fst e) spool_ext)"

definition Spool_List :: "faults \<Rightarrow> dirfs \<Rightarrow> (string, string list) result" where
  "Spool_List flt fs =
     (if f_readdir flt then Inl ''spool list''
      else Inr (sort (map fst (filter listed (ReadDir fs)))))"

definition Spool_Read :: "faults \<Rightarrow> string \<Rightarrow> dirfs \<Rightarrow> (io_error, bytes) result" where
  "Spool_Read flt n fs =
     (case map_of fs n of
        None \<Rightarrow> Inl ErrNotExist
      | Some Dir \<Rightarrow> Inl ErrIO
      | Some (File b) \<Rightarrow> if f_read flt n then Inl ErrIO else Inr b)"

definition Spool_Delete :: "faults \<Rightarrow> string \<Rightarrow> dirfs \<Rightarrow> io_error option \<times> dirfs" where
  "Spool_Delete flt n fs = os_Remove flt n fs"

definition Spool_Drops :: "Spool \<Rightarrow> 64 word" where
  "Spool_Drops s = sp_drops s"

section \<open>Names are chronological\<close>

lemma lex_append:
  fixes xs ys :: string
  assumes "length xs = length ys"
  shows "xs @ as < ys @ bs \<longleftrightarrow> xs < ys \<or> xs = ys \<and> as < bs"
  using assms by (induction xs ys rule: list_induct2) auto

lemma div_mod_lex:
  fixes a b :: nat
  shows "(a < b \<longleftrightarrow> a div k < b div k \<or> a div k = b div k \<and> a mod k < b mod k)
    \<and> (a = b \<longleftrightarrow> a div k = b div k \<and> a mod k = b mod k)"
proof -
  have e: "a div k = b div k \<Longrightarrow> (a < b \<longleftrightarrow> a mod k < b mod k) \<and> (a = b \<longleftrightarrow> a mod k = b mod k)"
    using div_mult_mod_eq[of a k] div_mult_mod_eq[of b k] by (metis add_left_cancel add_less_cancel_left)
  have "a div k < b div k \<Longrightarrow> a < b" "b div k < a div k \<Longrightarrow> b < a"
    using div_le_mono[of b a k] div_le_mono[of a b k] by (auto simp: not_le[symmetric])
  with e show ?thesis by (cases "a div k" "b div k" rule: linorder_cases) auto
qed

lemma digit_char_less: "a < 10 \<Longrightarrow> b < 10 \<Longrightarrow> digit_char a < digit_char b \<longleftrightarrow> a < b"
  by (simp add: less_char_def of_char_digit_char)

lemma digit_char_inj: "a < 10 \<Longrightarrow> b < 10 \<Longrightarrow> digit_char a = digit_char b \<longleftrightarrow> a = b"
  using digit_val_digit_char by metis

lemma dec_pad_order:
  assumes "0 < w" "a < 10 ^ w" "b < 10 ^ w"
  shows "(dec_pad w a < dec_pad w b \<longleftrightarrow> a < b) \<and> (dec_pad w a = dec_pad w b \<longleftrightarrow> a = b)"
  using assms
proof (induction w arbitrary: a b)
  case (Suc w)
  show ?case
  proof (cases "w = 0")
    case True
    then have "a < 10" "b < 10" using Suc.prems by simp_all
    then show ?thesis
      using True by (simp add: dec_pad_def dec_digits.simps[of a] dec_digits.simps[of b] digit_char_less digit_char_inj)
  next
    case False
    then have q: "a div 10 < 10 ^ w" "b div 10 < 10 ^ w"
      using Suc.prems by (simp_all add: div_less_iff_less_mult mult.commute)
    have l: "length (dec_pad w (a div 10)) = length (dec_pad w (b div 10))"
      using dec_pad_length False q by simp
    have ih: "dec_pad w (a div 10) < dec_pad w (b div 10) \<longleftrightarrow> a div 10 < b div 10"
      "dec_pad w (a div 10) = dec_pad w (b div 10) \<longleftrightarrow> a div 10 = b div 10"
      using Suc.IH[OF _ q] False by simp_all
    have dg: "[digit_char (a mod 10)] < [digit_char (b mod 10)] \<longleftrightarrow> a mod 10 < b mod 10"
      "[digit_char (a mod 10)] = [digit_char (b mod 10)] \<longleftrightarrow> a mod 10 = b mod 10"
      by (simp_all add: digit_char_less digit_char_inj)
    have w: "0 < w" using False by simp
    show ?thesis
      unfolding dec_pad_Suc[OF w] lex_append[OF l] append_eq_append_conv[OF disjI1[OF l]] ih dg
      using div_mod_lex[of a b 10] by blast
  qed
qed simp

text \<open>File names sort chronologically: for the clock readings and sequence numbers that fit their
  columns, the byte order of two spool names is the order of the time stamps, and of the sequence
  numbers when the time stamps agree.\<close>

theorem spool_names_chronological:
  assumes "0 \<le> t" "t < 2 ^ 63" "0 \<le> t'" "t' < 2 ^ 63" "unat q < 10 ^ 10" "unat q' < 10 ^ 10"
  shows "(spool_name t q < spool_name t' q' \<longleftrightarrow> t < t' \<or> t = t' \<and> q < q')
    \<and> (spool_name t q = spool_name t' q' \<longleftrightarrow> t = t' \<and> q = q')"
proof -
  have t: "nat t < 10 ^ 20" "nat t' < 10 ^ 20" using assms(2,4) by simp_all
  let ?p = "dec_pad 20 (nat t)" and ?p' = "dec_pad 20 (nat t')"
  let ?r = "dec_pad 10 (unat q)" and ?r' = "dec_pad 10 (unat q')"
  have n: "spool_name t q = ?p @ CHR ''-'' # ?r @ spool_ext" "spool_name t' q' = ?p' @ CHR ''-'' # ?r' @ spool_ext"
    using assms(1,3) by (simp_all add: spool_name_def fmt_d_def)
  have l: "length ?p = length ?p'" "length ?r = length ?r'" using dec_pad_length t assms(5,6) by simp_all
  have o1: "?p < ?p' \<longleftrightarrow> t < t'" "?p = ?p' \<longleftrightarrow> t = t'"
    using dec_pad_order[OF _ t] assms(1,3) by auto
  have o2: "?r < ?r' \<longleftrightarrow> q < q'" "?r = ?r' \<longleftrightarrow> q = q'"
    using dec_pad_order[OF _ assms(5,6)] by (simp_all add: word_less_nat_alt word_unat_eq_iff)
  show ?thesis unfolding n using l o1 o2 by (simp add: lex_append)
qed

theorem spool_names_chronological_witness:
  "spool_name 999 3 < spool_name 1000 1 \<and> spool_name 1000 9 < spool_name 1000 10"
  using spool_names_chronological[of 999 1000 3 1] spool_names_chronological[of 1000 1000 9 10] by simp

section \<open>Eviction\<close>

fun node_size :: "fnode \<Rightarrow> int" where
  "node_size (File b) = int (length b)"
| "node_size Dir = 0"

definition sizes :: "dirfs \<Rightarrow> (string \<times> int) list" where
  "sizes fs = map (\<lambda>(n, x). (n, node_size x)) (filter (\<lambda>(n, x). x \<noteq> Dir) fs)"

text \<open>The bytes held by the files of the directory.\<close>

definition dir_size :: "dirfs \<Rightarrow> int" where
  "dir_size fs = sum_list (map snd (sizes fs))"

text \<open>The calls that \<^verbatim>\<open>evict\<close> makes all succeed.\<close>

definition evict_works :: "faults \<Rightarrow> bool" where
  "evict_works flt \<longleftrightarrow> \<not> f_readdir flt \<and> f_info flt = (\<lambda>_. False) \<and> f_remove flt = (\<lambda>_. False)"

lemma evict_items_sizes: "f_info flt = (\<lambda>_. False) \<Longrightarrow> evict_items flt es = sizes es"
  by (induction flt es rule: evict_items.induct) (auto simp: sizes_def)

lemma sizes_mset: "mset (sizes fs) = image_mset (\<lambda>(n, x). (n, node_size x)) (filter_mset (\<lambda>(n, x). x \<noteq> Dir) (mset fs))"
  by (simp add: sizes_def)

lemma sizes_ReadDir: "mset (sizes (ReadDir fs)) = mset (sizes fs)"
  by (simp add: sizes_mset ReadDir_def)

lemma sizes_names: "map fst (sizes fs) = map fst (filter (\<lambda>(n, x). x \<noteq> Dir) fs)"
  by (simp add: sizes_def split_beta comp_def)

lemma sum_list_mset: "mset xs = mset ys \<Longrightarrow> sum_list (map f xs) = (sum_list (map f ys) :: int)"
proof -
  assume "mset xs = mset ys"
  then have "mset (map f xs) = mset (map f ys)" by simp
  then show ?thesis unfolding sum_mset_sum_list[symmetric] by (rule arg_cong)
qed

lemma dir_size_ReadDir [simp]: "dir_size (ReadDir fs) = dir_size fs"
  unfolding dir_size_def by (rule sum_list_mset[OF sizes_ReadDir])

lemma sizes_sorted: "sorted (map fst (sizes (ReadDir fs)))"
  unfolding sizes_names ReadDir_def using sorted_filter[of fst "sort_key fst fs"] by simp

lemma sizes_distinct: "distinct (map fst fs) \<Longrightarrow> distinct (map fst (sizes fs))"
  unfolding sizes_names by (rule distinct_map_filter)

lemma ReadDir_distinct: "distinct (map fst fs) \<Longrightarrow> distinct (map fst (ReadDir fs))"
  unfolding ReadDir_def by (metis mset_map mset_sort mset_eq_imp_distinct_iff)

definition without :: "string set \<Rightarrow> dirfs \<Rightarrow> dirfs" where
  "without ns fs = filter (\<lambda>(n, x). n \<notin> ns) fs"

lemma delete_without: "AList.delete n fs = without {n} fs"
  unfolding AList.delete_eq without_def by (rule filter_cong) auto

lemma without_without [simp]: "without a (without b fs) = without (b \<union> a) fs"
  by (simp add: without_def) (rule filter_cong, auto)

lemma without_empty [simp]: "without {} fs = fs"
  by (simp add: without_def)

lemma without_names: "fst ` set (without ns fs) = fst ` set fs - ns"
  by (auto simp: without_def image_iff)

lemma map_of_without: "map_of (without ns fs) n = (if n \<in> ns then None else map_of fs n)"
  by (induction fs) (auto simp: without_def)

lemma sizes_without: "sizes (without ns fs) = filter (\<lambda>(n, k). n \<notin> ns) (sizes fs)"
  by (induction fs) (auto simp: sizes_def without_def)

text \<open>The loop removes the shortest prefix whose removal brings the rest under the cap.\<close>

lemma evict_loop_prefix:
  assumes "f_remove flt = (\<lambda>_. False)" "distinct (map fst items)" "fst ` set items \<subseteq> fst ` set fs" "0 \<le> mb"
  shows "\<exists>k\<le>length items. spool_evict_loop flt mb items (sum_list (map snd items)) d fs
      = (d + of_nat k, without (fst ` set (take k items)) fs)
    \<and> sum_list (map snd (drop k items)) \<le> mb \<and> (\<forall>j<k. mb < sum_list (map snd (drop j items)))"
  using assms(2-3)
proof (induction items arbitrary: d fs)
  case Nil
  then show ?case using assms(4) by simp
next
  case (Cons it items)
  obtain n z where it: "it = (n, z)" by (cases it)
  let ?tot = "z + sum_list (map snd items)"
  show ?case
  proof (cases "?tot \<le> mb")
    case True
    then show ?thesis by (intro exI[of _ 0]) (simp add: it)
  next
    case False
    have "map_of fs n \<noteq> None" using Cons.prems(2) it by (auto simp: map_of_eq_None_iff)
    then have r: "os_Remove flt n fs = (None, without {n} fs)"
      using assms(1) by (auto simp: os_Remove_def delete_without)
    have sub: "fst ` set items \<subseteq> fst ` set (without {n} fs)"
      using Cons.prems it unfolding without_names by (auto intro: rev_image_eqI)
    have "distinct (map fst items)" using Cons.prems(1) by simp
    from Cons.IH[OF this sub, of "d + 1"]
    obtain k where k: "k \<le> length items"
      "spool_evict_loop flt mb items (sum_list (map snd items)) (d + 1) (without {n} fs)
        = (d + 1 + of_nat k, without (fst ` set (take k items)) (without {n} fs))"
      "sum_list (map snd (drop k items)) \<le> mb" "\<forall>j<k. mb < sum_list (map snd (drop j items))"
      by blast
    have "\<forall>j<Suc k. mb < sum_list (map snd (drop j (it # items)))"
    proof (intro allI impI)
      fix j assume "j < Suc k"
      then show "mb < sum_list (map snd (drop j (it # items)))" using k(4) False it by (cases j) auto
    qed
    then show ?thesis using k False r it by (intro exI[of _ "Suc k"]) (simp add: algebra_simps)
  qed
qed

text \<open>The oldest \<open>k\<close> files of a directory.\<close>

definition oldest :: "nat \<Rightarrow> dirfs \<Rightarrow> string set" where
  "oldest k fs = fst ` set (take k (sizes (ReadDir fs)))"

lemma dir_size_without_oldest:
  assumes "distinct (map fst fs)"
  shows "dir_size (without (oldest k fs) fs) = sum_list (map snd (drop k (sizes (ReadDir fs))))"
proof -
  let ?it = "sizes (ReadDir fs)"
  have d: "distinct (map fst ?it)" using assms by (simp add: sizes_distinct ReadDir_distinct)
  have a: "filter (\<lambda>(n, z). n \<notin> oldest k fs) (take k ?it) = []"
    by (auto simp: oldest_def filter_empty_conv intro: image_eqI[rotated])
  have dj: "fst ` set (take k ?it) \<inter> fst ` set (drop k ?it) = {}"
    using d by (metis append_take_drop_id distinct_append list.set_map map_append)
  have b: "filter (\<lambda>(n, z). n \<notin> oldest k fs) (drop k ?it) = drop k ?it"
    unfolding oldest_def filter_id_conv
  proof (intro ballI)
    fix e assume "e \<in> set (drop k ?it)"
    then have "fst e \<notin> fst ` set (take k ?it)" using dj by blast
    then show "case e of (n, z) \<Rightarrow> n \<notin> fst ` set (take k ?it)" by (simp add: split_beta)
  qed
  have "filter (\<lambda>(n, z). n \<notin> oldest k fs) ?it = drop k ?it"
    using a b filter_append[of "\<lambda>(n, z). n \<notin> oldest k fs" "take k ?it" "drop k ?it"] by simp
  moreover have "mset (filter (\<lambda>(n, z). n \<notin> oldest k fs) (sizes fs)) = mset (filter (\<lambda>(n, z). n \<notin> oldest k fs) ?it)"
    by (simp add: sizes_ReadDir)
  ultimately show ?thesis unfolding dir_size_def sizes_without using sum_list_mset by metis
qed

text \<open>What one eviction does when its calls succeed.\<close>

definition evicted :: "int \<Rightarrow> nat \<Rightarrow> dirfs \<Rightarrow> dirfs \<Rightarrow> bool" where
  "evicted mb k fs fs' \<longleftrightarrow> fs' = without (oldest k fs) fs \<and> dir_size fs' \<le> mb
     \<and> (\<forall>j<k. mb < dir_size (without (oldest j fs) fs))"

lemma evict_spec:
  assumes "evict_works flt" "distinct (map fst fs)" "0 \<le> sp_maxBytes s"
  shows "\<exists>k. evict flt s fs = (s\<lparr>sp_drops := sp_drops s + of_nat k\<rparr>, without (oldest k fs) fs)
    \<and> evicted (sp_maxBytes s) k fs (without (oldest k fs) fs)"
proof (cases "dir_size fs \<le> sp_maxBytes s")
  case True
  then have "evict flt s fs = (s, fs)"
    using assms(1) by (simp add: evict_def evict_works_def evict_items_sizes dir_size_def[symmetric] Let_def)
  then show ?thesis using True by (intro exI[of _ 0]) (simp add: oldest_def evicted_def)
next
  case False
  let ?it = "sizes (ReadDir fs)"
  have so: "sort_key fst ?it = ?it" using sizes_sorted by (rule sort_key_id_if_sorted)
  have d: "distinct (map fst ?it)" using assms(2) by (simp add: sizes_distinct ReadDir_distinct)
  have sub: "fst ` set ?it \<subseteq> fst ` set fs" by (auto simp: sizes_def ReadDir_def intro: rev_image_eqI)
  obtain k where k: "spool_evict_loop flt (sp_maxBytes s) ?it (sum_list (map snd ?it)) (sp_drops s) fs
      = (sp_drops s + of_nat k, without (oldest k fs) fs)"
    "sum_list (map snd (drop k ?it)) \<le> sp_maxBytes s" "\<forall>j<k. sp_maxBytes s < sum_list (map snd (drop j ?it))"
    using evict_loop_prefix[OF _ d sub assms(3), of flt "sp_drops s"] assms(1)
    by (auto simp: evict_works_def oldest_def)
  have ev: "evicted (sp_maxBytes s) k fs (without (oldest k fs) fs)"
    using k(2,3) by (simp add: evicted_def dir_size_without_oldest[OF assms(2)])
  have "\<not> sum_list (map snd ?it) \<le> sp_maxBytes s" using False by (simp add: dir_size_def[symmetric])
  then have "evict flt s fs = (s\<lparr>sp_drops := sp_drops s + of_nat k\<rparr>, without (oldest k fs) fs)"
    using assms(1) k(1) so by (simp add: evict_def evict_works_def evict_items_sizes Let_def)
  with ev show ?thesis by blast
qed

lemma dir_size_ge: "(n, File b) \<in> set fs \<Longrightarrow> int (length b) \<le> dir_size fs"
proof -
  assume "(n, File b) \<in> set fs"
  then have "(n, int (length b)) \<in> set (sizes fs)" by (force simp: sizes_def)
  then have m: "int (length b) \<in> set (map snd (sizes fs))" by (force simp: image_iff)
  have "\<forall>x\<in>set (map snd (sizes fs)). 0 \<le> x"
  proof
    fix x assume "x \<in> set (map snd (sizes fs))"
    then obtain y where "x = node_size y" by (auto simp: sizes_def)
    then show "0 \<le> x" by (cases y) auto
  qed
  then show ?thesis unfolding dir_size_def using member_le_sum_list[OF m] by blast
qed

section \<open>Appending\<close>

text \<open>The directory after the rename: the temporary file is gone and the batch is there.\<close>

definition stored :: "string \<Rightarrow> bytes \<Rightarrow> dirfs \<Rightarrow> dirfs" where
  "stored final payload fs = AList.update final (File payload) (AList.delete (final @ ''.tmp'') fs)"

lemma HasSuffix_append [simp]: "HasSuffix (a @ b) b"
  by (simp add: HasSuffix_def)

definition append_works :: "faults \<Rightarrow> string \<Rightarrow> dirfs \<Rightarrow> bool" where
  "append_works flt final fs \<longleftrightarrow> \<not> f_open flt \<and> f_write flt = None \<and> \<not> f_sync flt \<and> \<not> f_close flt
     \<and> \<not> f_rename flt \<and> map_of fs (final @ ''.tmp'') \<noteq> Some Dir \<and> map_of fs final \<noteq> Some Dir"

lemma tmp_ne [simp]: "final @ ''.tmp'' \<noteq> final"
  by simp

lemma Append_works:
  assumes "append_works flt (spool_name now (sp_seq s + 1)) fs"
  shows "Append flt now payload s fs = (let (s', fs') = evict flt (s\<lparr>sp_seq := sp_seq s + 1\<rparr>)
     (stored (spool_name now (sp_seq s + 1)) payload fs) in (Inr (), s', fs'))"
  using assms unfolding Append_def append_works_def stored_def
  by (simp add: Let_def AList.delete_update_same)

lemma stored_distinct: "distinct (map fst fs) \<Longrightarrow> distinct (map fst (stored n p fs))"
  by (simp add: stored_def AList.distinct_delete)

lemma stored_lookup: "map_of (stored n p fs) m =
    (if m = n then Some (File p) else if m = n @ ''.tmp'' then None else map_of fs m)"
  by (simp add: stored_def AList.delete_conv')

text \<open>C12. Appending to the spool: when the system calls succeed the batch is stored under its name, and
  then exactly the shortest run of oldest files is removed that brings the directory under its
  byte cap; every removal is counted, and the directory is at most \<open>maxBytes\<close> afterwards.\<close>

theorem append_stores_and_evicts:
  assumes "append_works flt (spool_name now (sp_seq s + 1)) fs" "evict_works flt"
    and "distinct (map fst fs)" "0 \<le> sp_maxBytes s"
  shows "\<exists>k. let full = stored (spool_name now (sp_seq s + 1)) payload fs; fs' = without (oldest k full) full in
      Append flt now payload s fs
        = (Inr (), s\<lparr>sp_seq := sp_seq s + 1, sp_drops := sp_drops s + of_nat k\<rparr>, fs')
      \<and> dir_size fs' \<le> sp_maxBytes s \<and> (\<forall>j<k. sp_maxBytes s < dir_size (without (oldest j full) full))"
proof -
  let ?s = "s\<lparr>sp_seq := sp_seq s + 1\<rparr>"
  let ?full = "stored (spool_name now (sp_seq s + 1)) payload fs"
  obtain k where "evict flt ?s ?full = (?s\<lparr>sp_drops := sp_drops ?s + of_nat k\<rparr>, without (oldest k ?full) ?full)"
    "evicted (sp_maxBytes ?s) k ?full (without (oldest k ?full) ?full)"
    using evict_spec[of flt ?full ?s] assms(2,4) stored_distinct[OF assms(3)] by auto
  then show ?thesis
    using Append_works[OF assms(1)] by (intro exI[of _ k]) (simp add: Let_def evicted_def)
qed

text \<open>A spool of four bytes with two files of two bytes, to which a batch of two is appended.\<close>

definition example_spool :: Spool where
  "example_spool = \<lparr>sp_maxBytes = 4, sp_seq = 2, sp_drops = 0\<rparr>"

definition example_dir :: dirfs where
  "example_dir = [(spool_name 10 1, File ''aa''), (spool_name 20 2, File ''bb'')]"

theorem append_stores_and_evicts_witness:
  "\<exists>k. let full = stored (spool_name 30 3) ''cc'' example_dir; fs' = without (oldest k full) full in
      Append no_faults 30 ''cc'' example_spool example_dir
        = (Inr (), example_spool\<lparr>sp_seq := 3, sp_drops := of_nat k\<rparr>, fs')
      \<and> dir_size fs' \<le> 4 \<and> (\<forall>j<k. 4 < dir_size (without (oldest j full) full))"
proof -
  have w: "append_works no_faults (spool_name 30 3) example_dir" "distinct (map fst example_dir)" by code_simp+
  have e: "evict_works no_faults" by (simp add: evict_works_def no_faults_def)
  show ?thesis
    using append_stores_and_evicts[of no_faults 30 example_spool example_dir "''cc''"] w e
    by (simp add: example_spool_def)
qed

text \<open>A batch larger than the cap is lost without an error: appending it reports success, although
  the eviction that follows has removed it again.\<close>

theorem oversized_batch_lost:
  assumes "append_works flt (spool_name now (sp_seq s + 1)) fs" "evict_works flt"
    and "distinct (map fst fs)" "0 \<le> sp_maxBytes s" "sp_maxBytes s < int (length payload)"
  shows "fst (Append flt now payload s fs) = Inr ()
    \<and> map_of (snd (snd (Append flt now payload s fs))) (spool_name now (sp_seq s + 1)) = None"
proof -
  let ?s = "s\<lparr>sp_seq := sp_seq s + 1\<rparr>"
  let ?n = "spool_name now (sp_seq s + 1)"
  let ?full = "stored ?n payload fs"
  obtain k where k: "evict flt ?s ?full = (?s\<lparr>sp_drops := sp_drops ?s + of_nat k\<rparr>, without (oldest k ?full) ?full)"
    "evicted (sp_maxBytes ?s) k ?full (without (oldest k ?full) ?full)"
    using evict_spec[of flt ?full ?s] assms(2,4) stored_distinct[OF assms(3)] by auto
  let ?fs = "without (oldest k ?full) ?full"
  have "map_of ?fs ?n = None"
  proof (rule ccontr)
    assume "map_of ?fs ?n \<noteq> None"
    then have "map_of ?fs ?n = Some (File payload)" by (simp add: map_of_without stored_lookup split: if_splits)
    from dir_size_ge[OF map_of_SomeD[OF this]] k(2) assms(5) show False by (simp add: evicted_def)
  qed
  then show ?thesis using Append_works[OF assms(1), of payload] k(1) by (simp add: Let_def)
qed

theorem oversized_batch_lost_witness:
  "fst (Append no_faults 30 ''ccccc'' example_spool example_dir) = Inr ()
   \<and> map_of (snd (snd (Append no_faults 30 ''ccccc'' example_spool example_dir))) (spool_name 30 3) = None"
proof -
  have w: "append_works no_faults (spool_name 30 3) example_dir" "distinct (map fst example_dir)" by code_simp+
  have e: "evict_works no_faults" by (simp add: evict_works_def no_faults_def)
  show ?thesis
    using oversized_batch_lost[of no_faults 30 example_spool example_dir "''ccccc''"] w e
    by (simp add: example_spool_def)
qed

section \<open>Errors\<close>

text \<open>Writing and deleting a temporary file does not touch the listed ones.\<close>

lemma unlisted_tmp:
  assumes "HasSuffix t ''.tmp''"
  shows "filter listed (AList.update t x fs) = filter listed fs"
    "filter listed (AList.delete t (AList.update t x fs)) = filter listed fs"
    "n \<noteq> t \<Longrightarrow> map_of (AList.delete t (AList.update t x fs)) n = map_of fs n"
proof -
  have u: "\<not> listed (t, y)" for y using assms by (simp add: listed_def)
  show a: "filter listed (AList.update t x fs) = filter listed fs" by (induction fs) (auto simp: u)
  have "filter listed (AList.delete t gs) = filter listed gs" for gs
    by (induction gs) (auto simp: u)
  with a show "filter listed (AList.delete t (AList.update t x fs)) = filter listed fs" by simp
  show "n \<noteq> t \<Longrightarrow> map_of (AList.delete t (AList.update t x fs)) n = map_of fs n"
    by (simp add: AList.delete_conv')
qed

lemma Append_Inl:
  assumes "Append flt now payload s fs = (Inl e, s', fs')"
  shows "s' = s\<lparr>sp_seq := sp_seq s + 1\<rparr>" "\<not> HasSuffix n ''.tmp'' \<Longrightarrow> map_of fs' n = map_of fs n"
    "filter listed fs' = filter listed fs" "distinct (map fst fs) \<Longrightarrow> distinct (map fst fs')"
proof -
  let ?tmp = "spool_name now (sp_seq s + 1) @ ''.tmp''"
  from assms show "s' = s\<lparr>sp_seq := sp_seq s + 1\<rparr>"
    unfolding Append_def by (auto simp: Let_def split: if_splits option.splits prod.splits)
  from assms have f: "fs' = fs \<or> (\<exists>b. fs' = snd (os_Remove flt ?tmp (AList.update ?tmp (File b) fs)))"
    unfolding Append_def by (auto simp: Let_def split: if_splits option.splits prod.splits)
  have "(\<forall>n. n \<noteq> ?tmp \<longrightarrow> map_of fs' n = map_of fs n) \<and> filter listed fs' = filter listed fs"
    using f unlisted_tmp[where t = ?tmp and fs = fs] by (auto simp: os_Remove_def)
  moreover have "\<not> HasSuffix n ''.tmp'' \<Longrightarrow> n \<noteq> ?tmp" for n using HasSuffix_append by blast
  ultimately show "\<not> HasSuffix n ''.tmp'' \<Longrightarrow> map_of fs' n = map_of fs n"
    "filter listed fs' = filter listed fs" by simp_all
  show "distinct (map fst fs) \<Longrightarrow> distinct (map fst fs')"
    using f by (auto simp: os_Remove_def AList.distinct_delete)
qed

lemma Append_Inr:
  assumes "Append flt now payload s fs = (Inr u, s', fs')"
  shows "evict flt (s\<lparr>sp_seq := sp_seq s + 1\<rparr>) (stored (spool_name now (sp_seq s + 1)) payload fs) = (s', fs')"
  using assms unfolding Append_def stored_def
  by (auto simp: Let_def AList.delete_update_same split: if_splits option.splits prod.splits)

section \<open>Appending when calls fail\<close>

text \<open>The bytes that \<^verbatim>\<open>evict\<close> counts, and the files that it can remove, when some calls fail.\<close>

definition measured :: "faults \<Rightarrow> dirfs \<Rightarrow> int" where
  "measured flt fs = sum_list (map snd (evict_items flt fs))"

definition evictable :: "faults \<Rightarrow> dirfs \<Rightarrow> string set" where
  "evictable flt fs = {n. (\<exists>b. (n, File b) \<in> set fs) \<and> \<not> f_info flt n \<and> \<not> f_remove flt n}"

lemma evict_items_filter:
  "evict_items flt es = map (\<lambda>(n, x). (n, node_size x)) (filter (\<lambda>(n, x). x \<noteq> Dir \<and> \<not> f_info flt n) es)"
  by (induction flt es rule: evict_items.induct) auto

lemma evict_items_names: "map fst (evict_items flt es) = map fst (filter (\<lambda>(n, x). x \<noteq> Dir \<and> \<not> f_info flt n) es)"
  by (simp add: evict_items_filter split_beta comp_def)

lemma evictable_items: "evictable flt fs = {n \<in> fst ` set (evict_items flt fs). \<not> f_remove flt n}"
proof -
  have "(n \<in> fst ` set (evict_items flt fs)) = ((\<exists>b. (n, File b) \<in> set fs) \<and> \<not> f_info flt n)" for n
    by (induction flt fs rule: evict_items.induct) auto
  then show ?thesis by (auto simp: evictable_def)
qed

lemma evict_items_ReadDir: "mset (evict_items flt (ReadDir fs)) = mset (evict_items flt fs)"
  by (simp add: evict_items_filter ReadDir_def)

lemma evict_items_without: "evict_items flt (without ns fs) = filter (\<lambda>it. fst it \<notin> ns) (evict_items flt fs)"
  by (induction flt fs rule: evict_items.induct) (auto simp: without_def)

lemma measured_ReadDir [simp]: "measured flt (ReadDir fs) = measured flt fs"
  unfolding measured_def by (rule sum_list_mset[OF evict_items_ReadDir])

text \<open>The size of the items of some names.\<close>

abbreviation part :: "string set \<Rightarrow> (string \<times> int) list \<Rightarrow> int" where
  "part ns items \<equiv> sum_list (map snd (filter (\<lambda>it. fst it \<in> ns) items))"

lemma part_complement: "sum_list (map snd items) - part ns items = sum_list (map snd (filter (\<lambda>it. fst it \<notin> ns) items))"
  by (induction items) auto

lemma measured_without: "measured flt (without ns fs) = measured flt fs - part ns (evict_items flt fs)"
  unfolding measured_def evict_items_without part_complement ..

lemma part_irrelevant: "n \<notin> fst ` set items \<Longrightarrow> part (insert n ns) items = part ns items"
  by (induction items) auto

lemma part_none: "ns \<inter> fst ` set items = {} \<Longrightarrow> part ns items = 0"
  by (induction items) auto

text \<open>The loop under failing removals: oldest first, each removal needed, and only stopped by the cap or by the end.\<close>

lemma evict_loop_faulty:
  assumes "sorted (map fst items)" "distinct (map fst items)" "fst ` set items \<subseteq> fst ` set fs"
  shows "\<exists>ns. ns \<subseteq> {n \<in> fst ` set items. \<not> f_remove flt n}
    \<and> spool_evict_loop flt mb items t d fs = (d + of_nat (card ns), without ns fs)
    \<and> (\<forall>n\<in>ns. \<forall>m\<in>fst ` set items. \<not> f_remove flt m \<and> m < n \<longrightarrow> m \<in> ns)
    \<and> (\<forall>n\<in>ns. mb < t - part {m \<in> ns. m < n} items)
    \<and> (ns = {n \<in> fst ` set items. \<not> f_remove flt n} \<or> t - part ns items \<le> mb)"
  using assms
proof (induction items arbitrary: t d fs)
  case Nil
  then show ?case by (intro exI[of _ "{}"]) simp
next
  case (Cons it items)
  obtain n z where it: "it = (n, z)" by (cases it)
  have d: "distinct (map fst items)" "n \<notin> fst ` set items" "sorted (map fst items)" using Cons.prems it by auto
  have lt: "n < m" if "m \<in> fst ` set items" for m using Cons.prems(1) that d(2) it by (auto simp: less_le)
  have mem: "map_of fs n \<noteq> None" using Cons.prems(3) it by (auto simp: map_of_eq_None_iff)
  consider "t \<le> mb" | "mb < t" "f_remove flt n" | "mb < t" "\<not> f_remove flt n" by linarith
  then show ?case
  proof cases
    case 1
    then show ?thesis by (intro exI[of _ "{}"]) (simp add: it)
  next
    case 2
    have r: "os_Remove flt n fs = (Some ErrIO, fs)" using 2(2) mem by (simp add: os_Remove_def)
    have sub: "fst ` set items \<subseteq> fst ` set fs" using Cons.prems(3) by simp
    from Cons.IH[OF d(3,1) sub, of t d] obtain ns where ns: "ns \<subseteq> {n \<in> fst ` set items. \<not> f_remove flt n}"
      "spool_evict_loop flt mb items t d fs = (d + of_nat (card ns), without ns fs)"
      "\<forall>n\<in>ns. \<forall>m\<in>fst ` set items. \<not> f_remove flt m \<and> m < n \<longrightarrow> m \<in> ns"
      "\<forall>n\<in>ns. mb < t - part {m \<in> ns. m < n} items"
      "ns = {n \<in> fst ` set items. \<not> f_remove flt n} \<or> t - part ns items \<le> mb" by blast
    have nn: "n \<notin> ns" using ns(1) d(2) by blast
    have all: "{m \<in> fst ` set (it # items). \<not> f_remove flt m} = {m \<in> fst ` set items. \<not> f_remove flt m}"
      using 2(2) it by auto
    show ?thesis
    proof (rule exI[of _ ns], intro conjI)
      show "ns \<subseteq> {n \<in> fst ` set (it # items). \<not> f_remove flt n}" unfolding all by (rule ns(1))
      show "spool_evict_loop flt mb (it # items) t d fs = (d + of_nat (card ns), without ns fs)" using 2(1) r ns(2) it by simp
      show "\<forall>n\<in>ns. \<forall>m\<in>fst ` set (it # items). \<not> f_remove flt m \<and> m < n \<longrightarrow> m \<in> ns" using ns(3) 2(2) it by auto
      show "\<forall>n\<in>ns. mb < t - part {m \<in> ns. m < n} (it # items)" using ns(4) nn it by simp
      show "ns = {n \<in> fst ` set (it # items). \<not> f_remove flt n} \<or> t - part ns (it # items) \<le> mb"
        unfolding all using ns(5) nn it by simp
    qed
  next
    case 3
    have r: "os_Remove flt n fs = (None, without {n} fs)" using 3(2) mem by (auto simp: os_Remove_def delete_without)
    have sub: "fst ` set items \<subseteq> fst ` set (without {n} fs)"
      using Cons.prems(3) d(2) unfolding without_names by auto
    from Cons.IH[OF d(3,1) sub, of "t - z" "d + 1"] obtain ns where ns: "ns \<subseteq> {n \<in> fst ` set items. \<not> f_remove flt n}"
      "spool_evict_loop flt mb items (t - z) (d + 1) (without {n} fs) = (d + 1 + of_nat (card ns), without ns (without {n} fs))"
      "\<forall>n\<in>ns. \<forall>m\<in>fst ` set items. \<not> f_remove flt m \<and> m < n \<longrightarrow> m \<in> ns"
      "\<forall>n\<in>ns. mb < t - z - part {m \<in> ns. m < n} items"
      "ns = {n \<in> fst ` set items. \<not> f_remove flt n} \<or> t - z - part ns items \<le> mb" by blast
    have nn: "n \<notin> ns" and fin: "finite ns" using ns(1) d(2) by (auto intro: finite_subset)
    have all: "{m \<in> fst ` set (it # items). \<not> f_remove flt m} = insert n {m \<in> fst ` set items. \<not> f_remove flt m}"
      using 3(2) it by auto
    have ltn: "n < m" if "m \<in> ns" for m using ns(1) lt that by blast
    have none: "{m \<in> insert n ns. m < n} = {}" using ltn less_asym by auto
    have some: "{m \<in> insert n ns. m < k} = insert n {m \<in> ns. m < k}" if "k \<in> ns" for k using ltn[OF that] by auto
    show ?thesis
    proof (rule exI[of _ "insert n ns"], intro conjI)
      show "insert n ns \<subseteq> {n \<in> fst ` set (it # items). \<not> f_remove flt n}" unfolding all using ns(1) by blast
      show "spool_evict_loop flt mb (it # items) t d fs = (d + of_nat (card (insert n ns)), without (insert n ns) fs)"
        using 3(1) r ns(2) it nn fin by (simp add: algebra_simps)
      show "\<forall>k\<in>insert n ns. \<forall>m\<in>fst ` set (it # items). \<not> f_remove flt m \<and> m < k \<longrightarrow> m \<in> insert n ns"
        using ns(3) lt it by (auto dest: less_asym)
      show "\<forall>k\<in>insert n ns. mb < t - part {m \<in> insert n ns. m < k} (it # items)"
      proof
        fix k
        assume "k \<in> insert n ns"
        then consider "k = n" | "k \<in> ns" by blast
        then show "mb < t - part {m \<in> insert n ns. m < k} (it # items)"
        proof cases
          case 1
          show ?thesis unfolding 1 none using 3(1) part_none[of "{}"] by simp
        next
          case 2
          show ?thesis unfolding some[OF 2] using ns(4) 2 it part_irrelevant[OF d(2), of "{m \<in> ns. m < k}"] by (simp add: diff_diff_eq)
        qed
      qed
      show "insert n ns = {n \<in> fst ` set (it # items). \<not> f_remove flt n} \<or> t - part (insert n ns) (it # items) \<le> mb"
        unfolding all using ns(5) it part_irrelevant[OF d(2)] by (auto simp: diff_diff_eq)
    qed
  qed
qed

text \<open>What eviction did, when some calls failed: it removed \<open>ns\<close>.\<close>

definition evicted_under :: "faults \<Rightarrow> int \<Rightarrow> dirfs \<Rightarrow> string set \<Rightarrow> bool" where
  "evicted_under flt mb fs ns \<longleftrightarrow> ns \<subseteq> evictable flt fs \<and> (f_readdir flt \<longrightarrow> ns = {})
     \<and> (\<forall>n\<in>ns. \<forall>m\<in>evictable flt fs. m < n \<longrightarrow> m \<in> ns)
     \<and> (\<forall>n\<in>ns. mb < measured flt (without {m \<in> ns. m < n} fs))
     \<and> (f_readdir flt \<or> ns = evictable flt fs \<or> measured flt (without ns fs) \<le> mb)"

lemma evict_under_faults:
  assumes "distinct (map fst fs)"
  shows "\<exists>ns. evict flt s fs = (s\<lparr>sp_drops := sp_drops s + of_nat (card ns)\<rparr>, without ns fs)
    \<and> evicted_under flt (sp_maxBytes s) fs ns"
proof (cases "f_readdir flt \<or> measured flt fs \<le> sp_maxBytes s")
  case True
  then have "evict flt s fs = (s, fs)" by (auto simp: evict_def Let_def measured_def[symmetric])
  then show ?thesis using True by (intro exI[of _ "{}"]) (auto simp: evicted_under_def)
next
  case False
  let ?it = "evict_items flt (ReadDir fs)"
  have so: "sorted (map fst ?it)"
    unfolding evict_items_names ReadDir_def using sorted_filter[of fst "sort_key fst fs"] by simp
  have di: "distinct (map fst ?it)" unfolding evict_items_names by (rule distinct_map_filter[OF ReadDir_distinct[OF assms]])
  have sub: "fst ` set ?it \<subseteq> fst ` set fs" by (auto simp: evict_items_filter ReadDir_def intro: rev_image_eqI)
  have set: "set ?it = set (evict_items flt fs)" using evict_items_ReadDir by (rule mset_eq_setD)
  have pt: "part ns ?it = part ns (evict_items flt fs)" for ns
    by (rule sum_list_mset) (simp add: evict_items_ReadDir)
  obtain ns where ns: "ns \<subseteq> evictable flt fs"
    "spool_evict_loop flt (sp_maxBytes s) ?it (measured flt fs) (sp_drops s) fs = (sp_drops s + of_nat (card ns), without ns fs)"
    "\<forall>n\<in>ns. \<forall>m\<in>fst ` set (evict_items flt fs). \<not> f_remove flt m \<and> m < n \<longrightarrow> m \<in> ns"
    "\<forall>n\<in>ns. sp_maxBytes s < measured flt (without {m \<in> ns. m < n} fs)"
    "ns = evictable flt fs \<or> measured flt (without ns fs) \<le> sp_maxBytes s"
    using evict_loop_faulty[OF so di sub, of flt "sp_maxBytes s" "measured flt fs" "sp_drops s"]
    unfolding set evictable_items[symmetric] pt measured_without[symmetric] by blast
  have "evicted_under flt (sp_maxBytes s) fs ns"
    using ns(1,3,4,5) False by (auto simp: evicted_under_def evictable_items)
  moreover have "\<not> measured flt (ReadDir fs) \<le> sp_maxBytes s" using False by simp
  ultimately show ?thesis
    using False ns(2) sort_key_id_if_sorted[OF so] measured_ReadDir[of flt fs]
    by (intro exI[of _ ns]) (simp add: evict_def Let_def measured_def)
qed

text \<open>C13. An append under any failing calls. Either it reports an error, and then no file but the temporary one changes,
  nothing is counted as dropped and the list of batches is the same. Or it succeeds, and then the new batch is in the
  directory, except for what eviction removes: when the directory cannot be read that is nothing; otherwise the oldest of
  the files whose size can be read and which can be removed, each removed only while the sizes seen exceed the cap and
  each counted, until these are under the cap or no such file is left.\<close>

theorem failed_append_harmless:
  assumes "distinct (map fst fs)" "Append flt now payload s fs = (r, s', fs')"
    and "full = stored (spool_name now (sp_seq s + 1)) payload fs"
  shows "(\<exists>e. r = Inl e) \<and> sp_drops s' = sp_drops s \<and> (\<forall>n. \<not> HasSuffix n ''.tmp'' \<longrightarrow> map_of fs' n = map_of fs n)
      \<and> filter listed fs' = filter listed fs
    \<or> r = Inr () \<and> (\<exists>ns. fs' = without ns full \<and> sp_drops s' = sp_drops s + of_nat (card ns)
      \<and> evicted_under flt (sp_maxBytes s) full ns)"
proof (cases r)
  case (Inl e)
  then show ?thesis using Append_Inl[OF assms(2)[unfolded Inl]] by simp
next
  case (Inr u)
  have "distinct (map fst full)" unfolding assms(3) by (rule stored_distinct[OF assms(1)])
  from evict_under_faults[OF this, of flt "s\<lparr>sp_seq := sp_seq s + 1\<rparr>"]
  show ?thesis using Append_Inr[OF assms(2)[unfolded Inr]] Inr unfolding assms(3) by auto
qed

text \<open>The oldest file cannot be removed: the next one goes instead.\<close>

theorem failed_append_harmless_witness:
  "\<exists>ns. snd (snd (Append (no_faults\<lparr>f_remove := (\<lambda>n. n = spool_name 10 1)\<rparr>) 30 ''cc'' example_spool example_dir))
      = without ns (stored (spool_name 30 (sp_seq example_spool + 1)) ''cc'' example_dir)
    \<and> spool_name 10 1 \<notin> ns \<and> ns \<noteq> {}"
proof -
  let ?f = "no_faults\<lparr>f_remove := (\<lambda>n. n = spool_name 10 1)\<rparr>"
  let ?a = "Append ?f 30 ''cc'' example_spool example_dir"
  let ?full = "stored (spool_name 30 (sp_seq example_spool + 1)) ''cc'' example_dir"
  have e: "fst ?a = Inr ()" by code_simp
  then have a: "?a = (Inr (), fst (snd ?a), snd (snd ?a))" by (metis prod.collapse)
  have d: "distinct (map fst example_dir)" by code_simp
  have dr: "sp_drops (fst (snd ?a)) \<noteq> sp_drops example_spool" by code_simp
  from failed_append_harmless[OF d a refl] obtain ns where "snd (snd ?a) = without ns ?full"
    "sp_drops (fst (snd ?a)) = sp_drops example_spool + of_nat (card ns)" "evicted_under ?f (sp_maxBytes example_spool) ?full ns"
    by blast
  then show ?thesis using dr by (intro exI[of _ ns]) (auto simp: evicted_under_def evictable_def)
qed

section \<open>The batches of a directory\<close>

text \<open>What replay can see: the content of the listed files.\<close>

definition batch :: "dirfs \<Rightarrow> string \<Rightarrow> bytes option" where
  "batch fs n = (case map_of fs n of Some (File b) \<Rightarrow> if listed (n, File b) then Some b else None | _ \<Rightarrow> None)"

lemma listed_spool_name [simp]: "listed (spool_name t q, File b)"
proof -
  let ?p = "fmt_d 20 t @ CHR ''-'' # fmt_d 10 (int (unat q))"
  have n: "spool_name t q = ?p @ spool_ext" by (simp add: spool_name_def)
  have "HasSuffix (spool_name t q) spool_ext" unfolding n by (rule HasSuffix_append)
  moreover have "\<not> HasSuffix (spool_name t q) ''.tmp''"
  proof
    assume "HasSuffix (spool_name t q) ''.tmp''"
    then obtain r where "?p @ spool_ext = r @ ''.tmp''" unfolding HasSuffix_iff n by blast
    then have "last (?p @ spool_ext) = last (r @ ''.tmp'')" by (simp only:)
    then show False by simp
  qed
  ultimately show ?thesis by (simp add: listed_def)
qed

lemma os_Remove_cases:
  obtains e where "os_Remove flt n fs = (Some e, fs)"
  | "os_Remove flt n fs = (None, without {n} fs)" "n \<in> fst ` set fs"
proof (cases "map_of fs n = None \<or> f_remove flt n")
  case True
  then have "os_Remove flt n fs = (Some (if map_of fs n = None then ErrNotExist else ErrIO), fs)"
    by (auto simp: os_Remove_def)
  then show ?thesis by (rule that(1))
next
  case False
  then show ?thesis
    using that(2) map_of_eq_None_iff[of fs n] by (simp add: os_Remove_def delete_without)
qed

text \<open>Whatever fails, the loop removes a set of names and counts each of them.\<close>

lemma evict_loop_without:
  "distinct (map fst items) \<Longrightarrow> \<exists>ns. ns \<subseteq> fst ` set items \<inter> fst ` set fs
     \<and> spool_evict_loop flt mb items t d fs = (d + of_nat (card ns), without ns fs)"
proof (induction items arbitrary: t d fs)
  case Nil
  then show ?case by (intro exI[of _ "{}"]) simp
next
  case (Cons it items)
  obtain n z where it: "it = (n, z)" by (cases it)
  have d: "distinct (map fst items)" "n \<notin> fst ` set items" using Cons.prems it by auto
  show ?case
  proof (cases "t \<le> mb")
    case True
    then show ?thesis by (intro exI[of _ "{}"]) (simp add: it)
  next
    case False
    show ?thesis
    proof (cases rule: os_Remove_cases[of flt n fs])
      case 1
      from Cons.IH[OF d(1), of fs t] obtain ns where "ns \<subseteq> fst ` set items \<inter> fst ` set fs"
        "spool_evict_loop flt mb items t d fs = (d + of_nat (card ns), without ns fs)" by blast
      then show ?thesis using False 1 it by (intro exI[of _ ns]) auto
    next
      case 2
      from Cons.IH[OF d(1), of "without {n} fs" "t - z" "d + 1"] obtain ns
        where ns: "ns \<subseteq> fst ` set items \<inter> fst ` set (without {n} fs)"
        "spool_evict_loop flt mb items (t - z) (d + 1) (without {n} fs) = (d + 1 + of_nat (card ns), without ns (without {n} fs))"
        by blast
      have f: "finite ns" "n \<notin> ns" using ns(1) d(2) by (auto intro: finite_subset)
      have "ns \<subseteq> fst ` set items" "ns \<subseteq> fst ` set fs" using ns(1) by (auto simp: without_names)
      then have "insert n ns \<subseteq> fst ` set (it # items) \<inter> fst ` set fs" using 2(2) it by auto
      moreover have "spool_evict_loop flt mb (it # items) t d fs
          = (d + of_nat (card (insert n ns)), without (insert n ns) fs)"
        using False 2(1) ns(2) f it by (simp add: algebra_simps)
      ultimately show ?thesis by blast
    qed
  qed
qed

lemma evict_without:
  assumes "distinct (map fst fs)"
  shows "\<exists>ns. ns \<subseteq> fst ` set fs \<and> evict flt s fs = (s\<lparr>sp_drops := sp_drops s + of_nat (card ns)\<rparr>, without ns fs)"
proof -
  let ?it = "evict_items flt (ReadDir fs)"
  have e: "map fst (evict_items flt es) = map fst (filter (\<lambda>(n, x). x \<noteq> Dir \<and> \<not> f_info flt n) es)" for es
    by (induction flt es rule: evict_items.induct) auto
  have "distinct (map fst ?it)" unfolding e by (rule distinct_map_filter[OF ReadDir_distinct[OF assms]])
  then have "distinct (map fst (sort_key fst ?it))" by (metis mset_map mset_sort mset_eq_imp_distinct_iff)
  from evict_loop_without[OF this, of fs flt "sp_maxBytes s" "sum_list (map snd ?it)" "sp_drops s"]
  obtain ns where ns: "ns \<subseteq> fst ` set fs"
    "spool_evict_loop flt (sp_maxBytes s) (sort_key fst ?it) (sum_list (map snd ?it)) (sp_drops s) fs
      = (sp_drops s + of_nat (card ns), without ns fs)" by blast
  show ?thesis
  proof (cases "f_readdir flt \<or> sum_list (map snd ?it) \<le> sp_maxBytes s")
    case True
    then have "evict flt s fs = (s, fs)" by (auto simp: evict_def Let_def)
    then show ?thesis by (intro exI[of _ "{}"]) simp
  next
    case False
    then show ?thesis using ns by (intro exI[of _ ns]) (simp add: evict_def Let_def)
  qed
qed

end
