(* ===== verification/Spooled_Publisher.thy ===== *)
theory Spooled_Publisher
  imports Spool
begin

text \<open>
  \<^verbatim>\<open>src/internal/transport/spool.go\<close>, type \<^verbatim>\<open>SpooledPublisher\<close>: live publishing with the spool as a
  fallback, and the replay of the spool. The upstream publisher is outside: whether its \<open>n\<close>-th call
  succeeds is the argument \<open>accepts\<close>. Live publishes may come between the files of a replay, as
  they do in the program, where the lock is released after each file. What replay needs from the spool
  is the locale \<open>batch_store\<close>.
\<close>

section \<open>State and operations\<close>

record SpooledPublisher =
  logsTopic :: string
  pub_qos :: "8 word"

text \<open>A message the upstream has acknowledged: topic, payload, QoS, retain.\<close>

type_synonym message = "string \<times> bytes \<times> 8 word \<times> bool"

text \<open>The spool (\<^const>\<open>None\<close> is nil) and its directory, the number of upstream calls so far and the
  acknowledged messages, and the files a replay in progress has yet to visit. The last two fields
  are history: payloads whose \<^verbatim>\<open>Publish\<close> returned nil, and the nodes removed by eviction.\<close>

record world =
  w_spool :: "Spool option"
  w_fs :: dirfs
  w_attempts :: nat
  w_sent :: "message list"
  w_pending :: "string list"
  w_accepted :: "bytes list"
  w_evicted :: "(string \<times> fnode) list"

definition upstream_Publish :: "(nat \<Rightarrow> bool) \<Rightarrow> message \<Rightarrow> world \<Rightarrow> bool \<times> world" where
  "upstream_Publish accepts m w =
     (accepts (w_attempts w),
      w\<lparr>w_attempts := w_attempts w + 1,
        w_sent := w_sent w @ (if accepts (w_attempts w) then [m] else [])\<rparr>)"

definition Spooled_Publish ::
  "(nat \<Rightarrow> bool) \<Rightarrow> faults \<Rightarrow> int \<Rightarrow> message \<Rightarrow> world \<Rightarrow> (string, unit) result \<times> world" where
  "Spooled_Publish accepts flt now m w =
     (let (ok, w1) = upstream_Publish accepts m w in
      if ok then (Inr (), w1)
      else case w_spool w1 of
        None \<Rightarrow> (Inl ''spooled publisher: no spool configured and upstream failed'', w1)
      | Some s \<Rightarrow>
          (case Append flt now (fst (snd m)) s (w_fs w1) of
             (Inl e, s', fs') \<Rightarrow> (Inl (''spool append: '' @ e), w1\<lparr>w_spool := Some s', w_fs := fs'\<rparr>)
           | (Inr u, s', fs') \<Rightarrow> (Inr (), w1\<lparr>w_spool := Some s', w_fs := fs'\<rparr>)))"

text \<open>\<^verbatim>\<open>replayOnce\<close>: the start, with the list of files, and the body of the loop for one file; \<open>cancelled\<close> is
  what the context says at the top of the loop. A return leaves no file to visit.\<close>

definition replay_start :: "faults \<Rightarrow> world \<Rightarrow> world" where
  "replay_start flt w =
     (case w_spool w of
        None \<Rightarrow> w\<lparr>w_pending := []\<rparr>
      | Some s \<Rightarrow> (case Spool_List flt (w_fs w) of
           Inl e \<Rightarrow> w\<lparr>w_pending := []\<rparr>
         | Inr files \<Rightarrow> w\<lparr>w_pending := files\<rparr>))"

definition replay_file :: "SpooledPublisher \<Rightarrow> (nat \<Rightarrow> bool) \<Rightarrow> faults \<Rightarrow> bool \<Rightarrow> world \<Rightarrow> world" where
  "replay_file p accepts flt cancelled w =
     (case w_pending w of
        [] \<Rightarrow> w
      | f # files \<Rightarrow>
          if cancelled then w\<lparr>w_pending := []\<rparr>
          else case Spool_Read flt f (w_fs w) of
            Inl e \<Rightarrow> w\<lparr>w_pending := []\<rparr>
          | Inr body \<Rightarrow>
              (let (ok, w1) = upstream_Publish accepts (logsTopic p, body, pub_qos p, False) w in
               if \<not> ok then w1\<lparr>w_pending := []\<rparr>
               else w1\<lparr>w_fs := snd (Spool_Delete flt f (w_fs w1)), w_pending := files\<rparr>))"

text \<open>A replay with no live publish in between: at most one turn per file.\<close>

fun replay_files :: "SpooledPublisher \<Rightarrow> (nat \<Rightarrow> bool) \<Rightarrow> faults \<Rightarrow> nat \<Rightarrow> world \<Rightarrow> world" where
  "replay_files p accepts flt 0 w = w"
| "replay_files p accepts flt (Suc n) w = replay_files p accepts flt n (replay_file p accepts flt False w)"

definition replayOnce :: "SpooledPublisher \<Rightarrow> (nat \<Rightarrow> bool) \<Rightarrow> faults \<Rightarrow> world \<Rightarrow> world" where
  "replayOnce p accepts flt w =
     (let w1 = replay_start flt w in replay_files p accepts flt (length (w_pending w1)) w1)"

section \<open>Steps\<close>

text \<open>A live publish together with the history it leaves.\<close>

definition live :: "(nat \<Rightarrow> bool) \<Rightarrow> faults \<Rightarrow> int \<Rightarrow> message \<Rightarrow> world \<Rightarrow> world" where
  "live accepts flt now m w =
     (let (r, w') = Spooled_Publish accepts flt now m w;
          n = (case w_spool w of None \<Rightarrow> [] | Some s \<Rightarrow> spool_name now (sp_seq s + 1))
      in w'\<lparr>w_accepted := w_accepted w @ (if r = Inr () then [fst (snd m)] else []),
            w_evicted := w_evicted w @ (if r = Inr () \<and> \<not> accepts (w_attempts w)
               then filter (\<lambda>e. fst e \<notin> fst ` set (w_fs w')) (stored n (fst (snd m)) (w_fs w)) else [])\<rparr>)"

text \<open>The clock and the sequence number give each batch a name of its own.\<close>

definition fresh_name :: "int \<Rightarrow> world \<Rightarrow> bool" where
  "fresh_name now w \<longleftrightarrow>
     (case w_spool w of None \<Rightarrow> True | Some s \<Rightarrow> spool_name now (sp_seq s + 1) \<notin> fst ` set (w_fs w))"

inductive pub_step :: "SpooledPublisher \<Rightarrow> (nat \<Rightarrow> bool) \<Rightarrow> world \<Rightarrow> world \<Rightarrow> bool" for p accepts where
  step_live: "fresh_name now w \<Longrightarrow> pub_step p accepts w (live accepts flt now m w)"
| step_start: "w_pending w = [] \<Longrightarrow> pub_step p accepts w (replay_start flt w)"
| step_file: "w_pending w \<noteq> [] \<Longrightarrow> pub_step p accepts w (replay_file p accepts flt cancelled w)"

inductive pub_reach :: "SpooledPublisher \<Rightarrow> (nat \<Rightarrow> bool) \<Rightarrow> world \<Rightarrow> world \<Rightarrow> bool" for p accepts w0 where
  pub_here: "pub_reach p accepts w0 w0"
| pub_next: "pub_reach p accepts w0 w \<Longrightarrow> pub_step p accepts w w' \<Longrightarrow> pub_reach p accepts w0 w'"

section \<open>What replay needs from a store of batches\<close>

locale batch_store =
  fixes content :: "'fs \<Rightarrow> string \<Rightarrow> bytes option"
    and del :: "string \<Rightarrow> 'fs \<Rightarrow> 'fs"
    and names :: "'fs \<Rightarrow> string list"
  assumes del_frame: "m \<noteq> n \<Longrightarrow> content (del n fs) m = content fs m"
    and names_content: "n \<in> set (names fs) \<longleftrightarrow> content fs n \<noteq> None"
begin

text \<open>Deleting one batch loses no other.\<close>

lemma del_keeps:
  assumes "content fs m = Some b" "content fs n = Some c"
  shows "b = c \<or> (\<exists>k. content (del n fs) k = Some b)"
  using assms del_frame[of m n fs] by (cases "m = n") auto

lemma names_subset: "n \<in> set (names (del m fs)) \<Longrightarrow> n \<noteq> m \<Longrightarrow> n \<in> set (names fs)"
  using del_frame[of n m fs] by (simp add: names_content)

end

definition store_delete :: "faults \<Rightarrow> string \<Rightarrow> dirfs \<Rightarrow> dirfs" where
  "store_delete flt n fs = snd (Spool_Delete flt n fs)"

definition store_names :: "dirfs \<Rightarrow> string list" where
  "store_names fs = filter (\<lambda>n. batch fs n \<noteq> None) (map fst fs)"

lemma store_delete_cases: "store_delete flt n fs = fs \<or> store_delete flt n fs = without {n} fs"
  by (cases rule: os_Remove_cases[of flt n fs]) (simp_all add: store_delete_def Spool_Delete_def)

lemma batch_without: "batch (without ns fs) n = (if n \<in> ns then None else batch fs n)"
  by (simp add: batch_def map_of_without)

lemma batch_Some: "batch fs n = Some b \<Longrightarrow> map_of fs n = Some (File b) \<and> listed (n, File b)"
  by (auto simp: batch_def split: option.splits fnode.splits if_splits)

lemma batch_Some_name: "batch fs n = Some b \<Longrightarrow> n \<in> fst ` set fs"
  using batch_Some[of fs n b] map_of_eq_None_iff[of fs n] by auto

interpretation spool_store: batch_store batch "store_delete flt" store_names for flt
proof unfold_locales
  fix m n :: string and fs assume "m \<noteq> n"
  then show "batch (store_delete flt n fs) m = batch fs m"
    using store_delete_cases[of flt n fs] by (auto simp: batch_without)
next
  fix n fs show "n \<in> set (store_names fs) \<longleftrightarrow> batch fs n \<noteq> None"
    using batch_Some_name[of fs n] by (auto simp: store_names_def)
qed

section \<open>At least once\<close>

definition sent_bodies :: "world \<Rightarrow> bytes list" where
  "sent_bodies w = map (\<lambda>m. fst (snd m)) (w_sent w)"

text \<open>Where an accepted payload is: acknowledged by the upstream, in the spool, or evicted.\<close>

definition accounted :: "world \<Rightarrow> bytes \<Rightarrow> bool" where
  "accounted w b \<longleftrightarrow> b \<in> set (sent_bodies w) \<or> (\<exists>n. batch (w_fs w) n = Some b) \<or> File b \<in> snd ` set (w_evicted w)"

definition pub_inv :: "world \<Rightarrow> bool" where
  "pub_inv w \<longleftrightarrow> distinct (map fst (w_fs w)) \<and> (\<forall>b\<in>set (w_accepted w). accounted w b)
     \<and> (case w_spool w of None \<Rightarrow> w_evicted w = [] | Some s \<Rightarrow> sp_drops s = of_nat (length (w_evicted w)))"

lemma batch_stored:
  "batch (stored (spool_name t q) b fs) n = (if n = spool_name t q then Some b else batch fs n)"
proof -
  have "batch fs (spool_name t q @ ''.tmp'') = None"
    by (auto simp: batch_def listed_def split: option.splits fnode.splits)
  moreover have "batch (stored (spool_name t q) b fs) (spool_name t q @ ''.tmp'') = None"
    by (auto simp: batch_def listed_def split: option.splits fnode.splits)
  ultimately show ?thesis
    by (cases "n = spool_name t q @ ''.tmp''") (simp_all add: batch_def stored_lookup)
qed

lemma batch_Append_Inl: "Append flt now b s fs = (Inl e, s', fs') \<Longrightarrow> batch fs' n = batch fs n"
  using Append_Inl(2)[of flt now b s fs e s' fs' n]
  by (cases "HasSuffix n ''.tmp''") (auto simp: batch_def listed_def split: option.splits fnode.splits)

lemma evicted_card:
  assumes "distinct (map fst fs)" "ns \<subseteq> fst ` set fs"
  shows "length (filter (\<lambda>e. fst e \<notin> fst ` set (without ns fs)) fs) = card ns"
    and "x \<in> set fs \<Longrightarrow> fst x \<in> ns \<Longrightarrow> x \<in> set (filter (\<lambda>e. fst e \<notin> fst ` set (without ns fs)) fs)"
proof -
  let ?l = "filter (\<lambda>e. fst e \<notin> fst ` set (without ns fs)) fs"
  have l: "?l = filter (\<lambda>e. fst e \<in> ns) fs" by (rule filter_cong) (auto simp: without_names)
  have "distinct (map fst ?l)" using assms(1) by (rule distinct_map_filter)
  then have "length ?l = card (set (map fst ?l))" by (metis distinct_card length_map)
  also have "set (map fst ?l) = ns" unfolding l using assms(2) by auto
  finally show "length ?l = card ns" .
  show "x \<in> set fs \<Longrightarrow> fst x \<in> ns \<Longrightarrow> x \<in> set ?l" by (simp add: l)
qed

lemma live_inv_append:
  assumes w: "pub_inv w" "w_spool w = Some s" and fr: "spool_name now (sp_seq s + 1) \<notin> fst ` set (w_fs w)"
    and ap: "Append flt now b s (w_fs w) = (Inr u, s', fs')"
    and w': "w_spool w' = Some s'" "w_fs w' = fs'" "w_sent w' = w_sent w" "w_accepted w' = w_accepted w @ [b]"
      "w_evicted w' = w_evicted w @ filter (\<lambda>e. fst e \<notin> fst ` set fs') (stored (spool_name now (sp_seq s + 1)) b (w_fs w))"
  shows "pub_inv w'"
proof -
  let ?n = "spool_name now (sp_seq s + 1)"
  let ?full = "stored ?n b (w_fs w)"
  have d: "distinct (map fst ?full)" using w(1) by (simp add: pub_inv_def stored_distinct)
  obtain ns where ns: "ns \<subseteq> fst ` set ?full" "s' = s\<lparr>sp_seq := sp_seq s + 1, sp_drops := sp_drops s + of_nat (card ns)\<rparr>"
    "fs' = without ns ?full"
    using evict_without[OF d, of flt "s\<lparr>sp_seq := sp_seq s + 1\<rparr>"] Append_Inr[OF ap] by auto
  have all: "accounted w' c" if c: "batch ?full n = Some c" for c n
  proof (cases "n \<in> ns")
    case True
    have "(n, File c) \<in> set ?full" using batch_Some[OF c] by (auto dest: map_of_SomeD)
    from evicted_card(2)[OF d ns(1) this] True have "(n, File c) \<in> set (w_evicted w')"
      unfolding w' ns(3) by simp
    then show ?thesis unfolding accounted_def by force
  next
    case False
    then have "batch (w_fs w') n = Some c" unfolding w' ns(3) using c by (simp add: batch_without)
    then show ?thesis unfolding accounted_def by blast
  qed
  have old: "accounted w' c" if ac: "accounted w c" for c
  proof -
    consider "c \<in> set (sent_bodies w)" | n where "batch (w_fs w) n = Some c" | "File c \<in> snd ` set (w_evicted w)"
      using ac unfolding accounted_def by auto
    then show ?thesis
    proof cases
      case 2
      then have "n \<noteq> ?n" using batch_Some_name[OF 2] fr by metis
      then show ?thesis using all[of n c] 2 by (simp add: batch_stored)
    qed (auto simp: accounted_def sent_bodies_def w')
  qed
  have "accounted w' b" using all[of ?n b] by (simp add: batch_stored)
  moreover have "distinct (map fst fs')" unfolding ns(3) without_def using d by (rule distinct_map_filter)
  moreover have "sp_drops s' = of_nat (length (w_evicted w'))"
    unfolding w' ns(3) length_append evicted_card(1)[OF d ns(1)] using w ns(2) by (simp add: pub_inv_def)
  ultimately show ?thesis using w(1) old w' by (auto simp: pub_inv_def)
qed

lemma accounted_mono:
  assumes "accounted w b" "set (w_sent w) \<subseteq> set (w_sent w')" "\<forall>n. batch (w_fs w') n = batch (w_fs w) n"
    "w_evicted w' = w_evicted w"
  shows "accounted w' b"
  using assms by (auto simp: accounted_def sent_bodies_def)

lemma live_inv:
  assumes "pub_inv w" "fresh_name now w"
  shows "pub_inv (live accepts flt now m w)"
proof (cases "accepts (w_attempts w)")
  case True
  then show ?thesis using assms(1)
    by (auto simp: live_def Spooled_Publish_def upstream_Publish_def pub_inv_def accounted_def sent_bodies_def
        split: option.splits)
next
  case False
  show ?thesis
  proof (cases "w_spool w")
    case None
    then show ?thesis using assms(1) False
      by (auto simp: live_def Spooled_Publish_def upstream_Publish_def pub_inv_def accounted_def sent_bodies_def)
  next
    case (Some s)
    obtain r s' fs' where ap: "Append flt now (fst (snd m)) s (w_fs w) = (r, s', fs')"
      by (cases "Append flt now (fst (snd m)) s (w_fs w)") auto
    show ?thesis
    proof (cases r)
      case (Inl e)
      note a = ap[unfolded Inl]
      let ?w' = "live accepts flt now m w"
      have w': "w_spool ?w' = Some s'" "w_fs ?w' = fs'" "w_sent ?w' = w_sent w" "w_accepted ?w' = w_accepted w"
        "w_evicted ?w' = w_evicted w"
        using Some False a by (simp_all add: live_def Spooled_Publish_def upstream_Publish_def)
      have "accounted ?w' b" if "accounted w b" for b
        using that by (rule accounted_mono) (simp_all add: w' batch_Append_Inl[OF a])
      then show ?thesis using assms(1) w' Some Append_Inl(1,4)[OF a] by (simp add: pub_inv_def)
    next
      case (Inr u)
      have fr: "spool_name now (sp_seq s + 1) \<notin> fst ` set (w_fs w)"
        using assms(2) Some by (simp add: fresh_name_def)
      show ?thesis
        by (rule live_inv_append[OF assms(1) Some fr ap[unfolded Inr]])
          (use Some False ap Inr in \<open>simp_all add: live_def Spooled_Publish_def upstream_Publish_def\<close>)
    qed
  qed
qed

lemma replay_file_inv:
  assumes "pub_inv w" "w_pending w \<noteq> []"
  shows "pub_inv (replay_file p accepts flt c w)"
proof -
  obtain f files where pd: "w_pending w = f # files" using assms(2) by (cases "w_pending w") auto
  let ?w' = "replay_file p accepts flt c w"
  show ?thesis
  proof (cases "\<not> c \<and> (\<exists>body. Spool_Read flt f (w_fs w) = Inr body) \<and> accepts (w_attempts w)")
    case True
    then obtain body where rd: "Spool_Read flt f (w_fs w) = Inr body" by blast
    have w': "w_fs ?w' = store_delete flt f (w_fs w)" "w_spool ?w' = w_spool w" "w_accepted ?w' = w_accepted w"
      "w_evicted ?w' = w_evicted w" "w_sent ?w' = w_sent w @ [(logsTopic p, body, pub_qos p, False)]"
      using True rd pd by (simp_all add: replay_file_def upstream_Publish_def store_delete_def)
    have fb: "map_of (w_fs w) f = Some (File body)"
      using rd by (simp add: Spool_Read_def split: option.splits fnode.splits if_splits)
    have "accounted ?w' b" if b: "accounted w b" for b
    proof (cases "\<exists>n. batch (w_fs w) n = Some b")
      case True
      then obtain n where n: "batch (w_fs w) n = Some b" by blast
      show ?thesis
      proof (cases "n = f")
        case True
        then have "b = body" using batch_Some[OF n] fb by simp
        then show ?thesis by (simp add: accounted_def sent_bodies_def w')
      next
        case False
        then have "batch (w_fs ?w') n = Some b" using n w'(1) spool_store.del_frame[of n f flt] by simp
        then show ?thesis by (auto simp: accounted_def)
      qed
    next
      case False
      then show ?thesis using b by (auto simp: accounted_def sent_bodies_def w')
    qed
    moreover have "distinct (map fst (w_fs ?w'))"
      using assms(1) store_delete_cases[of flt f "w_fs w"] w'(1)
      by (auto simp: pub_inv_def without_def intro: distinct_map_filter)
    ultimately show ?thesis using assms(1) w' by (simp add: pub_inv_def split: option.splits)
  next
    case False
    then have w': "w_fs ?w' = w_fs w" "w_spool ?w' = w_spool w" "w_accepted ?w' = w_accepted w"
      "w_evicted ?w' = w_evicted w" "w_sent ?w' = w_sent w"
      using pd by (auto simp: replay_file_def upstream_Publish_def Let_def split: sum.splits)
    then show ?thesis using assms(1) by (simp add: pub_inv_def accounted_def sent_bodies_def split: option.splits)
  qed
qed

lemma replay_start_inv: "pub_inv w \<Longrightarrow> pub_inv (replay_start flt w)"
  by (simp add: replay_start_def pub_inv_def accounted_def sent_bodies_def split: option.splits sum.splits)

lemma pub_step_inv: "pub_step p accepts w w' \<Longrightarrow> pub_inv w \<Longrightarrow> pub_inv w'"
  by (induction rule: pub_step.induct) (simp_all add: live_inv replay_start_inv replay_file_inv)

lemma pub_reach_inv: "pub_reach p accepts w0 w \<Longrightarrow> pub_inv w0 \<Longrightarrow> pub_inv w"
  by (induction rule: pub_reach.induct) (simp_all add: pub_step_inv)

text \<open>A publisher just started on a spool directory left by earlier runs.\<close>

definition started_world :: "Spool option \<Rightarrow> dirfs \<Rightarrow> world" where
  "started_world s fs = \<lparr>w_spool = s, w_fs = fs, w_attempts = 0, w_sent = [], w_pending = [], w_accepted = [], w_evicted = []\<rparr>"

text \<open>C1. No batch is silently lost: under every interleaving of live publishes and replay steps, every
  outage of the broker and every disk fault, a payload whose publish returned no error has been
  acknowledged by the upstream, is in the spool, or is among the files the eviction removed, and
  these are exactly as many as the drop counter says.\<close>

theorem at_least_once:
  assumes "pub_reach p accepts (started_world (Some s0) fs) w" "distinct (map fst fs)" "sp_drops s0 = 0"
  shows "(\<forall>b\<in>set (w_accepted w). accounted w b)
    \<and> (case w_spool w of None \<Rightarrow> w_evicted w = [] | Some s \<Rightarrow> Spool_Drops s = of_nat (length (w_evicted w)))"
proof -
  have "pub_inv (started_world (Some s0) fs)"
    using assms(2,3) by (simp add: pub_inv_def started_world_def)
  from pub_reach_inv[OF assms(1) this] show ?thesis by (simp add: pub_inv_def Spool_Drops_def split: option.splits)
qed

text \<open>An outage, two batches spooled, and the replay of the first.\<close>

definition example_pub :: SpooledPublisher where
  "example_pub = \<lparr>logsTopic = ''logs'', pub_qos = 1\<rparr>"

definition broker_back :: "nat \<Rightarrow> bool" where
  "broker_back n \<longleftrightarrow> 2 \<le> n"

definition example_world :: world where
  "example_world = replay_file example_pub broker_back no_faults False
     (replay_start no_faults
       (live broker_back no_faults 20 (''logs'', ''two'', 1, False)
         (live broker_back no_faults 10 (''logs'', ''one'', 1, False)
           (started_world (Some \<lparr>sp_maxBytes = 100, sp_seq = 0, sp_drops = 0\<rparr>) []))))"

lemma example_world_reach:
  "pub_reach example_pub broker_back (started_world (Some \<lparr>sp_maxBytes = 100, sp_seq = 0, sp_drops = 0\<rparr>) []) example_world"
proof -
  let ?w0 = "started_world (Some \<lparr>sp_maxBytes = 100, sp_seq = 0, sp_drops = 0\<rparr>) []"
  let ?w1 = "live broker_back no_faults 10 (''logs'', ''one'', 1, False) ?w0"
  let ?w2 = "live broker_back no_faults 20 (''logs'', ''two'', 1, False) ?w1"
  have f: "fresh_name 10 ?w0" "fresh_name 20 ?w1" by code_simp+
  have p: "w_pending ?w2 = []" "w_pending (replay_start no_faults ?w2) \<noteq> []" by code_simp+
  show ?thesis unfolding example_world_def
    by (intro pub_next[OF _ step_file] pub_next[OF _ step_start] pub_next[OF _ step_live] pub_here f p)
qed

theorem at_least_once_witness:
  "w_accepted example_world = [''one'', ''two''] \<and> sent_bodies example_world = [''one'']
   \<and> accounted example_world ''two''"
proof -
  have a: "w_accepted example_world = [''one'', ''two'']" "sent_bodies example_world = [''one'']" by code_simp+
  then show ?thesis using at_least_once[OF example_world_reach] by simp
qed

section \<open>Replay in order\<close>

lemma replay_idle: "w_pending w = [] \<Longrightarrow> replay_files p accepts flt n w = w"
  by (induction n) (simp_all add: replay_file_def)

lemma replay_files_prefix:
  assumes "f_remove flt = (\<lambda>_. False)" "f_read flt = (\<lambda>_. False)"
    and "w_pending w = files" "distinct files" "\<forall>f\<in>set files. batch (w_fs w) f \<noteq> None"
    and "k \<le> length files" "\<forall>i<k. accepts (w_attempts w + i)" "k < length files \<longrightarrow> \<not> accepts (w_attempts w + k)"
  shows "w_sent (replay_files p accepts flt (length files) w)
      = w_sent w @ map (\<lambda>f. (logsTopic p, the (batch (w_fs w) f), pub_qos p, False)) (take k files)
    \<and> w_fs (replay_files p accepts flt (length files) w) = without (set (take k files)) (w_fs w)
    \<and> w_attempts (replay_files p accepts flt (length files) w) = w_attempts w + (if k < length files then k + 1 else k)
    \<and> w_spool (replay_files p accepts flt (length files) w) = w_spool w"
  using assms(3-)
proof (induction files arbitrary: w k)
  case (Cons f files)
  obtain b where b: "batch (w_fs w) f = Some b" using Cons.prems(3) by auto
  have m: "map_of (w_fs w) f = Some (File b)" using batch_Some[OF b] by simp
  have rd: "Spool_Read flt f (w_fs w) = Inr b" using m assms(2) by (simp add: Spool_Read_def)
  have del: "snd (Spool_Delete flt f (w_fs w)) = without {f} (w_fs w)"
    using m assms(1) by (simp add: Spool_Delete_def os_Remove_def delete_without)
  let ?w = "replay_file p accepts flt False w"
  show ?case
  proof (cases k)
    case 0
    then have "w_pending ?w = [] \<and> w_sent ?w = w_sent w \<and> w_fs ?w = w_fs w \<and> w_attempts ?w = w_attempts w + 1 \<and> w_spool ?w = w_spool w"
      using Cons.prems(1,6) rd by (simp add: replay_file_def upstream_Publish_def)
    then show ?thesis using 0 replay_idle[of ?w] by simp
  next
    case (Suc j)
    then have "accepts (w_attempts w)" using Cons.prems(5) by (metis add_0_right zero_less_Suc)
    then have w': "w_pending ?w = files" "w_sent ?w = w_sent w @ [(logsTopic p, b, pub_qos p, False)]"
      "w_fs ?w = without {f} (w_fs w)" "w_attempts ?w = w_attempts w + 1" "w_spool ?w = w_spool w"
      using Cons.prems(1) rd del by (simp_all add: replay_file_def upstream_Publish_def)
    have bt: "g \<in> set files \<Longrightarrow> batch (w_fs ?w) g = batch (w_fs w) g" for g
      using Cons.prems(2) w'(3) by (auto simp: batch_without)
    have ac: "\<forall>i<j. accepts (w_attempts ?w + i)" "j < length files \<longrightarrow> \<not> accepts (w_attempts ?w + j)"
      using Cons.prems(5,6) Suc w'(4) by auto
    have "w_sent (replay_files p accepts flt (length files) ?w)
        = w_sent ?w @ map (\<lambda>f. (logsTopic p, the (batch (w_fs ?w) f), pub_qos p, False)) (take j files)
      \<and> w_fs (replay_files p accepts flt (length files) ?w) = without (set (take j files)) (w_fs ?w)
      \<and> w_attempts (replay_files p accepts flt (length files) ?w) = w_attempts ?w + (if j < length files then j + 1 else j)
      \<and> w_spool (replay_files p accepts flt (length files) ?w) = w_spool ?w"
      using Cons.IH[OF w'(1) _ _ _ ac] Cons.prems(2,3,4) Suc bt by simp
    moreover have "map (\<lambda>f. (logsTopic p, the (batch (w_fs ?w) f), pub_qos p, False)) (take j files)
        = map (\<lambda>f. (logsTopic p, the (batch (w_fs w) f), pub_qos p, False)) (take j files)"
      using bt by (auto dest: in_set_takeD)
    ultimately show ?thesis using Suc w'(2-5) b by simp
  qed
qed simp

lemma List_files:
  assumes "Spool_List flt fs = Inr files" "distinct (map fst fs)"
  shows "distinct files" "sorted files" "\<forall>f\<in>set files. batch fs f \<noteq> None"
proof -
  have f: "files = sort (map fst (filter listed (ReadDir fs)))"
    using assms(1) by (simp add: Spool_List_def split: if_splits)
  have "distinct (map fst (filter listed (ReadDir fs)))"
    by (rule distinct_map_filter[OF ReadDir_distinct[OF assms(2)]])
  then show "distinct files" "sorted files" unfolding f by simp_all
  show "\<forall>f\<in>set files. batch fs f \<noteq> None"
  proof
    fix n assume "n \<in> set files"
    then obtain x where x: "(n, x) \<in> set fs" "listed (n, x)" unfolding f by (auto simp: ReadDir_def)
    then have "map_of fs n = Some x" using assms(2) by simp
    then show "batch fs n \<noteq> None" using x(2) by (cases x) (simp_all add: batch_def listed_def)
  qed
qed

lemma replayOnce_prefix:
  assumes "w_spool w = Some s" "distinct (map fst (w_fs w))" "f_remove flt = (\<lambda>_. False)" "f_read flt = (\<lambda>_. False)"
    and "Spool_List flt (w_fs w) = Inr files"
    and "k \<le> length files" "\<forall>i<k. accepts (w_attempts w + i)" "k < length files \<longrightarrow> \<not> accepts (w_attempts w + k)"
  shows "w_sent (replayOnce p accepts flt w)
        = w_sent w @ map (\<lambda>f. (logsTopic p, the (batch (w_fs w) f), pub_qos p, False)) (take k files)"
    "w_fs (replayOnce p accepts flt w) = without (set (take k files)) (w_fs w)"
    "w_attempts (replayOnce p accepts flt w) = w_attempts w + (if k < length files then k + 1 else k)"
    "w_spool (replayOnce p accepts flt w) = Some s"
proof -
  note l = List_files[OF assms(5,2)]
  have "replay_start flt w = w\<lparr>w_pending := files\<rparr>" using assms(1,5) by (simp add: replay_start_def)
  then show "w_sent (replayOnce p accepts flt w)
        = w_sent w @ map (\<lambda>f. (logsTopic p, the (batch (w_fs w) f), pub_qos p, False)) (take k files)"
    "w_fs (replayOnce p accepts flt w) = without (set (take k files)) (w_fs w)"
    "w_attempts (replayOnce p accepts flt w) = w_attempts w + (if k < length files then k + 1 else k)"
    "w_spool (replayOnce p accepts flt w) = Some s"
    using replay_files_prefix[OF assms(3,4), of "w\<lparr>w_pending := files\<rparr>" files k accepts p] l assms(1,6-8)
    by (simp_all add: replayOnce_def)
qed

text \<open>C11. Replay is in order and stops at the first refusal: it publishes the batches of the listed
  files oldest first on the logs topic, deletes exactly those the upstream acknowledged, and
  leaves the directory otherwise as it was.\<close>

theorem replay_in_order:
  assumes "w_spool w = Some s" "distinct (map fst (w_fs w))" "f_remove flt = (\<lambda>_. False)" "f_read flt = (\<lambda>_. False)"
    and "Spool_List flt (w_fs w) = Inr files"
    and "k \<le> length files" "\<forall>i<k. accepts (w_attempts w + i)" "k < length files \<longrightarrow> \<not> accepts (w_attempts w + k)"
  shows "sorted files
    \<and> w_sent (replayOnce p accepts flt w)
        = w_sent w @ map (\<lambda>f. (logsTopic p, the (batch (w_fs w) f), pub_qos p, False)) (take k files)
    \<and> w_fs (replayOnce p accepts flt w) = without (set (take k files)) (w_fs w)"
  using replayOnce_prefix(1,2)[OF assms, of p] List_files(2)[OF assms(5,2)] by simp

definition spooled_world :: world where
  "spooled_world = (started_world (Some example_spool) example_dir)\<lparr>w_attempts := 1\<rparr>"

theorem replay_in_order_witness:
  "w_sent (replayOnce example_pub (\<lambda>n. n < 2) no_faults spooled_world) = [(''logs'', ''aa'', 1, False)]
   \<and> w_fs (replayOnce example_pub (\<lambda>n. n < 2) no_faults spooled_world) = [(spool_name 20 2, File ''bb'')]"
proof -
  let ?fs = "[spool_name 10 1, spool_name 20 2]"
  have h: "Spool_List no_faults (w_fs spooled_world) = Inr ?fs" "distinct (map fst (w_fs spooled_world))"
    "w_spool spooled_world = Some example_spool" "w_attempts spooled_world = 1" "w_sent spooled_world = []"
    "the (batch (w_fs spooled_world) (spool_name 10 1)) = ''aa''"
    "without {spool_name 10 1} (w_fs spooled_world) = [(spool_name 20 2, File ''bb'')]"
    by code_simp+
  have "f_remove no_faults = (\<lambda>_. False)" "f_read no_faults = (\<lambda>_. False)" by (simp_all add: no_faults_def)
  from replay_in_order[OF h(3,2) this h(1), of 1 "\<lambda>n. n < 2" example_pub] h(4-7)
  show ?thesis by (simp add: example_pub_def)
qed

section \<open>The spool empties after an outage\<close>

lemma first_refusal: "\<exists>k\<le>n. (\<forall>i<k. P i) \<and> (k < n \<longrightarrow> \<not> P k)" for n :: nat
proof (induction n)
  case (Suc n)
  then obtain k where k: "k \<le> n" "\<forall>i<k. P i" "k < n \<longrightarrow> \<not> P k" by blast
  show ?case
  proof (cases "k < n \<or> \<not> P n")
    case True
    then show ?thesis using k by (intro exI[of _ k]) (auto simp: le_less)
  next
    case False
    then have "k = n" "P n" using k(1) by auto
    then show ?thesis using k(2) by (intro exI[of _ "Suc n"]) (auto simp: less_Suc_eq)
  qed
qed simp

lemma distinct_without: "distinct (map fst fs) \<Longrightarrow> distinct (map fst (without ns fs))"
  by (simp add: without_def distinct_map_filter)

lemma replay_rounds:
  assumes "f_remove flt = (\<lambda>_. False)" "f_read flt = (\<lambda>_. False)" "\<not> f_readdir flt" "\<forall>n\<ge>N. accepts n"
  shows "w_spool w = Some s \<Longrightarrow> distinct (map fst (w_fs w)) \<Longrightarrow>
    \<exists>k\<le>Suc (N - w_attempts w). Spool_List flt (w_fs ((replayOnce p accepts flt ^^ k) w)) = Inr []
      \<and> (\<forall>n b. batch (w_fs w) n = Some b \<longrightarrow> (logsTopic p, b, pub_qos p, False) \<in> set (w_sent ((replayOnce p accepts flt ^^ k) w)))
      \<and> set (w_sent w) \<subseteq> set (w_sent ((replayOnce p accepts flt ^^ k) w))"
proof (induction "N - w_attempts w" arbitrary: w rule: less_induct)
  case less
  have nl: "\<exists>fs'. Spool_List flt g = Inr fs'" for g using assms(3) by (simp add: Spool_List_def)
  then obtain files where f: "Spool_List flt (w_fs w) = Inr files" by blast
  note lf = List_files[OF f less.prems(2)]
  have listed_iff: "batch (w_fs w) n \<noteq> None \<longleftrightarrow> n \<in> set files" for n
  proof
    assume "batch (w_fs w) n \<noteq> None"
    then obtain b where "map_of (w_fs w) n = Some (File b)" "listed (n, File b)" using batch_Some[of "w_fs w" n] by auto
    then have "n \<in> set (map fst (filter listed (ReadDir (w_fs w))))"
      using map_of_SomeD[of "w_fs w" n] by (force simp: ReadDir_def)
    moreover have "files = sort (map fst (filter listed (ReadDir (w_fs w))))" using f assms(3) by (simp add: Spool_List_def)
    ultimately show "n \<in> set files" by (simp only: set_sort)
  qed (use lf(3) in blast)
  obtain k where k: "k \<le> length files" "\<forall>i<k. accepts (w_attempts w + i)" "k < length files \<longrightarrow> \<not> accepts (w_attempts w + k)"
    using first_refusal[of "length files" "\<lambda>i. accepts (w_attempts w + i)"] by blast
  note r = replayOnce_prefix[OF less.prems assms(1,2) f k, of p]
  let ?w = "replayOnce p accepts flt w"
  have sent: "(logsTopic p, b, pub_qos p, False) \<in> set (w_sent ?w)" if "batch (w_fs w) n = Some b" "n \<in> set (take k files)" for n b
    using that r(1) by (force simp: image_iff)
  show ?case
  proof (cases "k < length files")
    case True
    then have "w_attempts w + k < N" using k(3) assms(4) by (meson not_le)
    then have dec: "N - w_attempts ?w < N - w_attempts w" using r(3) True by simp
    have d: "distinct (map fst (w_fs ?w))" using r(2) distinct_without[OF less.prems(2)] by simp
    obtain j where j: "j \<le> Suc (N - w_attempts ?w)" "Spool_List flt (w_fs ((replayOnce p accepts flt ^^ j) ?w)) = Inr []"
      "\<forall>n b. batch (w_fs ?w) n = Some b \<longrightarrow> (logsTopic p, b, pub_qos p, False) \<in> set (w_sent ((replayOnce p accepts flt ^^ j) ?w))"
      "set (w_sent ?w) \<subseteq> set (w_sent ((replayOnce p accepts flt ^^ j) ?w))"
      using less.hyps[OF dec r(4) d] by blast
    have "(logsTopic p, b, pub_qos p, False) \<in> set (w_sent ((replayOnce p accepts flt ^^ j) ?w))" if "batch (w_fs w) n = Some b" for n b
    proof (cases "n \<in> set (take k files)")
      case True
      then show ?thesis using sent[OF that True] j(4) by blast
    next
      case False
      then have "batch (w_fs ?w) n = Some b" using that r(2) by (simp add: batch_without)
      then show ?thesis using j(3) by blast
    qed
    moreover have "set (w_sent w) \<subseteq> set (w_sent ((replayOnce p accepts flt ^^ j) ?w))" using r(1) j(4) by auto
    moreover have "Suc j \<le> Suc (N - w_attempts w)" using j(1) dec by simp
    ultimately show ?thesis using j(2) by (intro exI[of _ "Suc j"]) (simp add: funpow_Suc_right del: funpow.simps)
  next
    case False
    then have kf: "take k files = files" using k(1) by simp
    obtain fs' where f': "Spool_List flt (w_fs ?w) = Inr fs'" using nl by blast
    have d: "distinct (map fst (w_fs ?w))" using r(2) distinct_without[OF less.prems(2)] by simp
    have "fs' = []"
    proof (rule ccontr)
      assume "fs' \<noteq> []"
      then obtain n where "batch (w_fs ?w) n \<noteq> None" using List_files(3)[OF f' d] by (cases fs') auto
      then show False using r(2) kf listed_iff[of n] by (auto simp: batch_without split: if_splits)
    qed
    moreover have "(logsTopic p, b, pub_qos p, False) \<in> set (w_sent ?w)" if "batch (w_fs w) n = Some b" for n b
      using sent[OF that] listed_iff[of n] that kf by simp
    ultimately show ?thesis using f' r(1) by (intro exI[of _ 1]) auto
  qed
qed

text \<open>C10. An outage ends: once the upstream accepts every attempt from some point on, repeated replays empty the
  spool after finitely many rounds, at most one more than there were attempts left to fail, and
  every batch that was in it has been acknowledged.\<close>

theorem replay_empties:
  assumes "f_remove flt = (\<lambda>_. False)" "f_read flt = (\<lambda>_. False)" "\<not> f_readdir flt" "\<forall>n\<ge>N. accepts n"
    and "w_spool w = Some s" "distinct (map fst (w_fs w))"
  shows "\<exists>k\<le>Suc (N - w_attempts w). Spool_List flt (w_fs ((replayOnce p accepts flt ^^ k) w)) = Inr []
    \<and> (\<forall>n b. batch (w_fs w) n = Some b \<longrightarrow> (logsTopic p, b, pub_qos p, False) \<in> set (w_sent ((replayOnce p accepts flt ^^ k) w)))"
  using replay_rounds[OF assms, of p] by blast

theorem replay_empties_witness:
  "\<exists>k\<le>2. Spool_List no_faults (w_fs ((replayOnce example_pub broker_back no_faults ^^ k) spooled_world)) = Inr []
    \<and> (''logs'', ''bb'', 1, False) \<in> set (w_sent ((replayOnce example_pub broker_back no_faults ^^ k) spooled_world))"
proof -
  have h: "distinct (map fst (w_fs spooled_world))" "w_spool spooled_world = Some example_spool" "w_attempts spooled_world = 1"
    "batch (w_fs spooled_world) (spool_name 20 2) = Some ''bb''"
    by code_simp+
  have nf: "f_remove no_faults = (\<lambda>_. False)" "f_read no_faults = (\<lambda>_. False)" "\<not> f_readdir no_faults" "\<forall>n\<ge>2. broker_back n"
    by (simp_all add: no_faults_def broker_back_def)
  from replay_empties[OF nf h(2,1), of example_pub]
  obtain k where k: "k \<le> Suc (2 - w_attempts spooled_world)"
    "Spool_List no_faults (w_fs ((replayOnce example_pub broker_back no_faults ^^ k) spooled_world)) = Inr []"
    "\<forall>n b. batch (w_fs spooled_world) n = Some b \<longrightarrow>
       (logsTopic example_pub, b, pub_qos example_pub, False) \<in> set (w_sent ((replayOnce example_pub broker_back no_faults ^^ k) spooled_world))"
    by (elim exE conjE) blast
  have "(''logs'', ''bb'', 1, False) \<in> set (w_sent ((replayOnce example_pub broker_back no_faults ^^ k) spooled_world))"
    using k(3)[rule_format, OF h(4)] by (simp add: example_pub_def)
  moreover have "k \<le> 2" using k(1) h(3) by simp
  ultimately show ?thesis using k(2) by blast
qed

end
