(* ===== verification/Go_Heap.thy ===== *)
theory Go_Heap
  imports BB_Prelude
begin

text \<open>
  What the program uses of \<^verbatim>\<open>container/heap\<close>: \<^verbatim>\<open>Init\<close>, \<^verbatim>\<open>Fix\<close> at the root and \<^verbatim>\<open>Pop\<close> on a slice, for a
  \<^verbatim>\<open>Less\<close> that compares integer keys. The slice is a list, the loop of \<^verbatim>\<open>down\<close> is a function, and the
  heap order of every operation's result is proved.
\<close>

section \<open>Operations\<close>

definition swap :: "nat \<Rightarrow> nat \<Rightarrow> 'a list \<Rightarrow> 'a list" where
  "swap i j h = h[i := h ! j, j := h ! i]"

text \<open>The smaller child of \<open>i\<close>, the left one on a tie.\<close>

definition min_child :: "('a \<Rightarrow> int) \<Rightarrow> 'a list \<Rightarrow> nat \<Rightarrow> nat \<Rightarrow> nat" where
  "min_child key h i n =
     (let j1 = 2 * i + 1; j2 = j1 + 1 in if j2 < n \<and> key (h ! j2) < key (h ! j1) then j2 else j1)"

function down :: "('a \<Rightarrow> int) \<Rightarrow> 'a list \<Rightarrow> nat \<Rightarrow> nat \<Rightarrow> 'a list" where
  "down key h i n =
     (if n \<le> 2 * i + 1 then h
      else let j = min_child key h i n in
        if \<not> key (h ! j) < key (h ! i) then h else down key (swap i j h) j n)"
  by pat_completeness auto
termination
  by (relation "measure (\<lambda>(k, h, i, n). n - i)") (auto simp: min_child_def Let_def)

declare down.simps [simp del]

fun init_loop :: "('a \<Rightarrow> int) \<Rightarrow> nat \<Rightarrow> 'a list \<Rightarrow> 'a list" where
  "init_loop key 0 h = h"
| "init_loop key (Suc i) h = init_loop key i (down key h i (length h))"

definition heap_Init :: "('a \<Rightarrow> int) \<Rightarrow> 'a list \<Rightarrow> 'a list" where
  "heap_Init key h = init_loop key (length h div 2) h"

text \<open>\<^verbatim>\<open>Fix(h, 0)\<close>: at the root the loop of \<^verbatim>\<open>up\<close> stops at once.\<close>

definition heap_Fix0 :: "('a \<Rightarrow> int) \<Rightarrow> 'a list \<Rightarrow> 'a list" where
  "heap_Fix0 key h = down key h 0 (length h)"

text \<open>\<^verbatim>\<open>Pop\<close>: the root goes to the end, sinks what took its place, and is cut off.\<close>

definition heap_Pop :: "('a \<Rightarrow> int) \<Rightarrow> 'a list \<Rightarrow> 'a list" where
  "heap_Pop key h = (let n = length h - 1 in butlast (down key (swap 0 n h) 0 n))"

section \<open>Permutations\<close>

lemma length_swap [simp]: "length (swap i j h) = length h"
  by (simp add: swap_def)

lemma mset_swap_idx: "i < length h \<Longrightarrow> j < length h \<Longrightarrow> mset (swap i j h) = mset h"
  unfolding swap_def by (rule mset_swap)

lemma nth_swap: "i < length h \<Longrightarrow> j < length h \<Longrightarrow> k < length h \<Longrightarrow>
    swap i j h ! k = (if k = i then h ! j else if k = j then h ! i else h ! k)"
  by (auto simp: swap_def nth_list_update)

lemma min_child_bounds:
  assumes "2 * i + 1 < n"
  shows "min_child key h i n < n" "i < min_child key h i n"
    "min_child key h i n = 2 * i + 1 \<or> min_child key h i n = 2 * i + 2"
  using assms by (auto simp: min_child_def Let_def)

lemma min_child_least: "c = 2 * i + 1 \<or> c = 2 * i + 2 \<Longrightarrow> c < n \<Longrightarrow> key (h ! min_child key h i n) \<le> key (h ! c)"
  by (auto simp: min_child_def Let_def)

lemma down_perm:
  "n \<le> length h \<Longrightarrow> mset (down key h i n) = mset h \<and> length (down key h i n) = length h
     \<and> (\<forall>k. n \<le> k \<longrightarrow> k < length h \<longrightarrow> down key h i n ! k = h ! k)"
proof (induction key h i n rule: down.induct)
  case (1 key h i n)
  let ?j = "min_child key h i n"
  show ?case
  proof (cases "n \<le> 2 * i + 1 \<or> \<not> key (h ! ?j) < key (h ! i)")
    case True
    then show ?thesis by (subst (1 2 3) down.simps) (auto simp: Let_def)
  next
    case False
    note b = min_child_bounds[of i n key h]
    have d: "down key h i n = down key (swap i ?j h) ?j n"
      using False by (subst down.simps) (simp add: Let_def)
    have ij: "i < length h" "?j < length h" "?j < n" "i < n" using False b "1.prems" by auto
    have ih: "mset (down key (swap i ?j h) ?j n) = mset (swap i ?j h)
      \<and> length (down key (swap i ?j h) ?j n) = length h
      \<and> (\<forall>k. n \<le> k \<longrightarrow> k < length h \<longrightarrow> down key (swap i ?j h) ?j n ! k = swap i ?j h ! k)"
      using "1.IH"[OF _ refl] False "1.prems" by simp
    have "swap i ?j h ! k = h ! k" if "n \<le> k" "k < length h" for k
      using that ij by (simp add: nth_swap)
    then show ?thesis using ih mset_swap_idx[OF ij(1,2)] unfolding d by simp
  qed
qed

lemma down_mset [simp]: "n \<le> length h \<Longrightarrow> mset (down key h i n) = mset h"
  and down_length [simp]: "n \<le> length h \<Longrightarrow> length (down key h i n) = length h"
  using down_perm by blast+

section \<open>Heap order\<close>

definition child :: "nat \<Rightarrow> nat \<Rightarrow> bool" where
  "child p c \<longleftrightarrow> c = 2 * p + 1 \<or> c = 2 * p + 2"

text \<open>Order below the parents from \<open>k\<close> on, within the first \<open>n\<close> elements.\<close>

definition heap_from :: "('a \<Rightarrow> int) \<Rightarrow> 'a list \<Rightarrow> nat \<Rightarrow> nat \<Rightarrow> bool" where
  "heap_from key h n k \<longleftrightarrow> (\<forall>p c. child p c \<and> c < n \<and> k \<le> p \<longrightarrow> key (h ! p) \<le> key (h ! c))"

text \<open>The same, but for the children of \<open>i\<close>, which are still above what is above \<open>i\<close>.\<close>

definition heap_but :: "('a \<Rightarrow> int) \<Rightarrow> 'a list \<Rightarrow> nat \<Rightarrow> nat \<Rightarrow> nat \<Rightarrow> bool" where
  "heap_but key h n k i \<longleftrightarrow>
     (\<forall>p c. child p c \<and> c < n \<and> k \<le> p \<and> p \<noteq> i \<longrightarrow> key (h ! p) \<le> key (h ! c))
     \<and> (\<forall>p c. child p i \<and> child i c \<and> c < n \<and> k \<le> p \<longrightarrow> key (h ! p) \<le> key (h ! c))"

lemma child_fun: "child p c \<Longrightarrow> child q c \<Longrightarrow> p = q"
  by (auto simp: child_def)

lemma child_less: "child p c \<Longrightarrow> p < c"
  by (auto simp: child_def)

lemma swap_down_but:
  assumes hb: "heap_but key h n k i" and n: "n \<le> length h" "2 * i + 1 < n" and ki: "k \<le> i"
    and j: "j = min_child key h i n" and less: "key (h ! j) < key (h ! i)"
  shows "heap_but key (swap i j h) n k j"
proof -
  have b: "j < n" "i < j" "child i j" using min_child_bounds[OF n(2), of key h] j by (auto simp: child_def)
  have sw: "x < n \<Longrightarrow> swap i j h ! x = (if x = i then h ! j else if x = j then h ! i else h ! x)" for x
    using nth_swap[of i h j x] b n(1) by simp
  have "key (swap i j h ! p) \<le> key (swap i j h ! c)"
    if c: "child p c" "c < n" "k \<le> p" "p \<noteq> j" for p c
  proof -
    have pn: "p < n" "p \<noteq> c" using child_less[OF c(1)] c(2) by auto
    consider "p = i" "c = j" | "p = i" "c \<noteq> j" | "p \<noteq> i" "c = i" | "p \<noteq> i" "c \<noteq> i" by blast
    then show ?thesis
    proof cases
      case 1
      then show ?thesis using sw[of p] sw[of c] pn c less b by simp
    next
      case 2
      then have "key (h ! j) \<le> key (h ! c)"
        using min_child_least[of c i n key h] c j by (auto simp: child_def)
      then show ?thesis using 2 sw[of p] sw[of c] pn c by simp
    next
      case 3
      then have "key (h ! p) \<le> key (h ! j)" using hb c b by (auto simp: heap_but_def)
      then show ?thesis using 3 sw[of p] sw[of c] pn c b by simp
    next
      case 4
      then have "c \<noteq> j" using child_fun[OF c(1)] b(3) by auto
      moreover have "key (h ! p) \<le> key (h ! c)" using hb c 4 by (auto simp: heap_but_def)
      ultimately show ?thesis using 4 sw[of p] sw[of c] pn c by simp
    qed
  qed
  moreover have "key (swap i j h ! p) \<le> key (swap i j h ! c)"
    if c: "child p j" "child j c" "c < n" "k \<le> p" for p c
  proof -
    have p: "p = i" using child_fun[OF c(1) b(3)] .
    have cj: "c \<noteq> i" "c \<noteq> j" using child_less[OF c(2)] b by auto
    have "key (h ! j) \<le> key (h ! c)" using hb c b ki by (auto simp: heap_but_def)
    then show ?thesis using sw[of p] sw[of c] p cj c b by simp
  qed
  ultimately show ?thesis unfolding heap_but_def by blast
qed

lemma down_heap:
  "heap_but key h n k i \<Longrightarrow> n \<le> length h \<Longrightarrow> k \<le> i \<Longrightarrow> heap_from key (down key h i n) n k"
proof (induction key h i n rule: down.induct)
  case (1 key h i n)
  let ?j = "min_child key h i n"
  consider "n \<le> 2 * i + 1" | "2 * i + 1 < n" "\<not> key (h ! ?j) < key (h ! i)" | "2 * i + 1 < n" "key (h ! ?j) < key (h ! i)"
    by linarith
  then show ?case
  proof cases
    case 1
    then have "down key h i n = h" by (subst down.simps) simp
    then show ?thesis using "1.prems"(1) 1 by (fastforce simp: heap_from_def heap_but_def child_def)
  next
    case 2
    then have d: "down key h i n = h" by (subst down.simps) (simp add: Let_def)
    have "key (h ! i) \<le> key (h ! c)" if "child i c" "c < n" for c
      using min_child_least[of c i n key h] 2(2) that by (auto simp: child_def)
    then show ?thesis using "1.prems"(1) unfolding d heap_from_def heap_but_def by blast
  next
    case 3
    then have d: "down key h i n = down key (swap i ?j h) ?j n" by (subst down.simps) (simp add: Let_def)
    have "k \<le> ?j" using min_child_bounds[OF 3(1), of key h] "1.prems"(3) by simp
    then show ?thesis unfolding d
      using "1.IH"[OF _ refl] 3 swap_down_but[OF "1.prems"(1,2) 3(1) "1.prems"(3) refl 3(2)] "1.prems"(2) by simp
  qed
qed

lemma init_loop_heap:
  "heap_from key h (length h) i \<Longrightarrow> heap_from key (init_loop key i h) (length h) 0
     \<and> mset (init_loop key i h) = mset h"
proof (induction i arbitrary: h)
  case (Suc i)
  have "heap_but key h (length h) i i"
    using Suc.prems unfolding heap_from_def heap_but_def using child_less by (metis Suc_leI le_neq_implies_less leD)
  then have "heap_from key (down key h i (length h)) (length h) i" by (rule down_heap) simp_all
  then show ?case using Suc.IH[of "down key h i (length h)"] by simp
qed simp

lemma heap_Init_heap: "heap_from key (heap_Init key h) (length h) 0" "mset (heap_Init key h) = mset h"
proof -
  have "heap_from key h (length h) (length h div 2)" by (auto simp: heap_from_def child_def)
  from init_loop_heap[OF this] show "heap_from key (heap_Init key h) (length h) 0" "mset (heap_Init key h) = mset h"
    by (simp_all add: heap_Init_def)
qed

lemma heap_root_min: "heap_from key h n 0 \<Longrightarrow> j < n \<Longrightarrow> key (h ! 0) \<le> key (h ! j)"
proof (induction j rule: less_induct)
  case (less j)
  show ?case
  proof (cases "j = 0")
    case False
    let ?p = "(j - 1) div 2"
    have c: "child ?p j" using False unfolding child_def by presburger
    then have "key (h ! ?p) \<le> key (h ! j)" using less.prems by (auto simp: heap_from_def)
    moreover have "key (h ! 0) \<le> key (h ! ?p)" using less.IH[of ?p] less.prems child_less[OF c] by simp
    ultimately show ?thesis by simp
  qed simp
qed

text \<open>Changing the root alone leaves a heap but for the root.\<close>

lemma heap_but_root:
  assumes "heap_from key h n 0" "\<And>k. 0 < k \<Longrightarrow> k < n \<Longrightarrow> h' ! k = h ! k"
  shows "heap_but key h' n 0 0"
  unfolding heap_but_def
proof (intro conjI allI impI)
  fix p c assume a: "child p c \<and> c < n \<and> 0 \<le> p \<and> p \<noteq> 0"
  then have "p < c" using child_less by blast
  then show "key (h' ! p) \<le> key (h' ! c)" using a assms(1) assms(2)[of p] assms(2)[of c] by (auto simp: heap_from_def)
next
  fix p c assume "child p 0 \<and> child 0 c \<and> c < n \<and> 0 \<le> p"
  then show "key (h' ! p) \<le> key (h' ! c)" by (simp add: child_def)
qed

lemma heap_Fix0_heap:
  assumes "heap_from key h (length h) 0" "length h' = length h" "\<And>k. 0 < k \<Longrightarrow> k < length h \<Longrightarrow> h' ! k = h ! k"
  shows "heap_from key (heap_Fix0 key h') (length h) 0" "mset (heap_Fix0 key h') = mset h'"
    "length (heap_Fix0 key h') = length h"
  using down_heap[OF heap_but_root[OF assms(1,3)]] assms(2) by (simp_all add: heap_Fix0_def)

lemma heap_Pop_heap:
  assumes "heap_from key h (length h) 0" "h \<noteq> []" "length h' = length h"
    "\<And>k. 0 < k \<Longrightarrow> k < length h \<Longrightarrow> h' ! k = h ! k"
  shows "heap_from key (heap_Pop key h') (length h - 1) 0"
    "add_mset (h' ! 0) (mset (heap_Pop key h')) = mset h'" "length (heap_Pop key h') = length h - 1"
proof -
  define n where "n = length h - 1"
  have l: "length h = Suc n" using assms(2) by (cases h) (auto simp: n_def)
  let ?s = "swap 0 n h'"
  have s: "k < length h \<Longrightarrow> ?s ! k = (if k = 0 then h' ! n else if k = n then h' ! 0 else h' ! k)" for k
    using nth_swap[of 0 h' n k] assms(3) l by simp
  let ?d = "down key ?s 0 n"
  have dl: "length ?d = length h" "mset ?d = mset h'" "?d ! n = ?s ! n"
    using down_perm[of n ?s key 0] assms(3) l mset_swap_idx[of 0 h' n] by auto
  have "heap_from key h n 0" using assms(1) l by (simp add: heap_from_def)
  then have "heap_but key ?s n 0 0"
  proof (rule heap_but_root)
    fix k assume "0 < k" "k < n"
    then show "?s ! k = h ! k" using s[of k] assms(4)[of k] l by simp
  qed
  then have "heap_from key ?d n 0" by (rule down_heap) (simp_all add: assms(3) l)
  moreover have "k < n \<Longrightarrow> heap_Pop key h' ! k = ?d ! k" for k
    using dl(1) assms(3) l by (simp add: heap_Pop_def Let_def nth_butlast)
  ultimately have "heap_from key (heap_Pop key h') n 0"
    using child_less by (fastforce simp: heap_from_def)
  then show "heap_from key (heap_Pop key h') (length h - 1) 0" using l by simp
  have pop: "heap_Pop key h' = butlast ?d" using assms(3) l by (simp add: heap_Pop_def Let_def)
  show "length (heap_Pop key h') = length h - 1" unfolding pop using dl(1) l by simp
  have ne: "?d \<noteq> []" using dl(1) l by auto
  then have "last ?d = h' ! 0" using dl(1,3) s[of n] l by (simp add: last_conv_nth)
  with append_butlast_last_id[OF ne] have "?d = butlast ?d @ [h' ! 0]" by simp
  then have "mset ?d = add_mset (h' ! 0) (mset (butlast ?d))"
    by (metis add_mset_add_single mset.simps mset_append)
  then show "add_mset (h' ! 0) (mset (heap_Pop key h')) = mset h'"
    using dl(2) pop by simp
qed

section \<open>The contract of a heap\<close>

text \<open>What a user of \<^verbatim>\<open>container/heap\<close> relies on: the root is a least element, and after its key has been changed the
  heap is repaired by fixing or popping the root, which keep the other elements.\<close>

locale root_heap =
  fixes key :: "'a \<Rightarrow> int"
    and ok :: "'a list \<Rightarrow> bool"
    and init :: "'a list \<Rightarrow> 'a list"
    and fix_root :: "'a list \<Rightarrow> 'a list"
    and pop_root :: "'a list \<Rightarrow> 'a list"
  assumes init_law: "ok (init h) \<and> mset (init h) = mset h"
    and root_law: "ok (x # h) \<Longrightarrow> y \<in> set h \<Longrightarrow> key x \<le> key y"
    and fix_law: "ok (x # h) \<Longrightarrow> ok (fix_root (y # h)) \<and> mset (fix_root (y # h)) = add_mset y (mset h)"
    and pop_law: "ok (x # h) \<Longrightarrow> ok (pop_root (y # h)) \<and> mset (pop_root (y # h)) = mset h"
begin

lemma root_least: "ok (x # h) \<Longrightarrow> y \<in> set (x # h) \<Longrightarrow> key x \<le> key y"
  using root_law[of x h y] by auto

text \<open>What holds of all elements is kept.\<close>

lemma init_all: "list_all P (init h) = list_all P h"
  using init_law[of h] by (metis list_all_iff set_mset_mset)

lemma fix_all: "ok (x # h) \<Longrightarrow> list_all P (fix_root (y # h)) \<longleftrightarrow> P y \<and> list_all P h"
  using fix_law[of x h y] unfolding list_all_iff by (metis ball_simps(7) set_mset_add_mset_insert set_mset_mset)

lemma pop_all: "ok (x # h) \<Longrightarrow> list_all P (pop_root (y # h)) = list_all P h"
  using pop_law[of x h y] by (metis list_all_iff set_mset_mset)

end

definition heap_ok :: "('a \<Rightarrow> int) \<Rightarrow> 'a list \<Rightarrow> bool" where
  "heap_ok key h = heap_from key h (length h) 0"

interpretation gh: root_heap key "heap_ok key" "heap_Init key" "heap_Fix0 key" "heap_Pop key" for key :: "'a \<Rightarrow> int"
proof unfold_locales
  fix h :: "'a list"
  have "length (heap_Init key h) = length h" using heap_Init_heap(2)[of key h] by (metis size_mset)
  then show "heap_ok key (heap_Init key h) \<and> mset (heap_Init key h) = mset h"
    using heap_Init_heap[of key h] by (simp add: heap_ok_def)
next
  fix x y :: 'a and h assume ok: "heap_ok key (x # h)"
  { assume "y \<in> set h"
    then obtain j where "j < length h" "h ! j = y" by (auto simp: in_set_conv_nth)
    then show "key x \<le> key y" using heap_root_min[of key "x # h" "length (x # h)" "Suc j"] ok by (simp add: heap_ok_def) }
  have same: "0 < k \<Longrightarrow> (y # h) ! k = (x # h) ! k" for k by simp
  show "heap_ok key (heap_Fix0 key (y # h)) \<and> mset (heap_Fix0 key (y # h)) = add_mset y (mset h)"
    using heap_Fix0_heap[of key "x # h" "y # h"] ok same by (simp add: heap_ok_def)
  show "heap_ok key (heap_Pop key (y # h)) \<and> mset (heap_Pop key (y # h)) = mset h"
    using heap_Pop_heap[of key "x # h" "y # h"] ok same by (simp add: heap_ok_def)
qed

end
