(* ===== verification/Oneshot_Merge.thy ===== *)
theory Oneshot_Merge
  imports Go_Heap Go_Time "HOL-Library.List_Lexorder"
begin

text \<open>
  \<^verbatim>\<open>src/internal/oneshot/oneshot.go\<close>: the time filter, the k-way merge of \<^verbatim>\<open>blackboxd dump\<close> over the
  binary heap, and the closing of the output. A source is the result of its \<^verbatim>\<open>Read\<close>; encoding a line
  fails when the argument says so for that line number.
\<close>

section \<open>The filter\<close>

record Filter =
  Since :: instant
  Until :: instant

definition Passes :: "Filter \<Rightarrow> instant \<Rightarrow> bool" where
  "Passes f ts =
     (if \<not> IsZero (Since f) \<and> Before ts (Since f) then False
      else if \<not> IsZero (Until f) \<and> After ts (Until f) then False
      else True)"

section \<open>The merge\<close>

record mergeCursor =
  entries :: "LogEntry list"
  idx :: nat

text \<open>The time stamp \<^verbatim>\<open>Less\<close> compares.\<close>

definition cursor_key :: "mergeCursor \<Rightarrow> int" where
  "cursor_key c = Timestamp (entries c ! idx c)"

text \<open>The initial cursors: unreadable sources are skipped, each slice is sorted stably, empty ones are
  left out.\<close>

fun cursors :: "(string, LogEntry list) result list \<Rightarrow> mergeCursor list" where
  "cursors [] = []"
| "cursors (Inl e # rs) = cursors rs"
| "cursors (Inr es # rs) =
     (let s = sort_key Timestamp es
      in if 0 < length s then \<lparr>entries = s, idx = 0\<rparr> # cursors rs else cursors rs)"

definition cursor_left :: "mergeCursor \<Rightarrow> nat" where
  "cursor_left c = length (entries c) - idx c"

text \<open>The head after its entry is written.\<close>

definition advance :: "mergeCursor list \<Rightarrow> mergeCursor list" where
  "advance pq = pq[0 := (pq ! 0)\<lparr>idx := idx (pq ! 0) + 1\<rparr>]"

lemma advance_left:
  assumes "pq \<noteq> []" "idx (pq ! 0) + 1 < length (entries (pq ! 0))"
  shows "sum_list (map cursor_left (advance pq)) < sum_list (map cursor_left pq)"
  using assms by (cases pq) (auto simp: advance_def cursor_left_def)

lemma sum_list_nat_mset: "mset xs = mset ys \<Longrightarrow> sum_list (map f xs) = (sum_list (map f ys) :: nat)"
proof -
  assume "mset xs = mset ys"
  then have "mset (map f xs) = mset (map f ys)" by simp
  then show ?thesis unfolding sum_mset_sum_list[symmetric] by (rule arg_cong)
qed

lemma pop_left:
  assumes "pq \<noteq> []"
  shows "length (heap_Pop key (advance pq)) < length pq"
    "sum_list (map cursor_left (heap_Pop key (advance pq))) \<le> sum_list (map cursor_left pq)"
proof -
  have l: "length (advance pq) = length pq" "advance pq \<noteq> []" using assms by (auto simp: advance_def)
  have p: "mset (down key (swap 0 (length pq - 1) (advance pq)) 0 (length pq - 1)) = mset (advance pq)"
    using l assms by (simp add: mset_swap_idx)
  let ?d = "down key (swap 0 (length pq - 1) (advance pq)) 0 (length pq - 1)"
  have "length ?d = length pq" using l by simp
  then show "length (heap_Pop key (advance pq)) < length pq" using assms l by (simp add: heap_Pop_def Let_def)
  have "sum_list (map cursor_left (butlast ?d)) \<le> sum_list (map cursor_left ?d)"
    by (cases ?d rule: rev_cases) auto
  also have "\<dots> = sum_list (map cursor_left (advance pq))" by (rule sum_list_nat_mset[OF p])
  also have "\<dots> \<le> sum_list (map cursor_left pq)"
    using assms by (cases pq) (auto simp: advance_def cursor_left_def)
  finally show "sum_list (map cursor_left (heap_Pop key (advance pq))) \<le> sum_list (map cursor_left pq)"
    using l by (simp add: heap_Pop_def Let_def)
qed

text \<open>The loop: lines written so far, and the outcome (an encoding error, or none).\<close>

function merge_loop ::
  "(nat \<Rightarrow> bool) \<Rightarrow> int \<Rightarrow> mergeCursor list \<Rightarrow> LogEntry list \<Rightarrow> LogEntry list \<times> string option" where
  "merge_loop enc_fails maxLines pq out =
     (if pq = [] then (out, None)
      else if 0 < maxLines \<and> maxLines \<le> int (length out) then (out, None)
      else let head = pq ! 0 in
        if enc_fails (length out) then (out, Some ''oneshot encode'')
        else let out' = out @ [entries head ! idx head]; pq' = advance pq in
          if length (entries head) \<le> idx head + 1
          then merge_loop enc_fails maxLines (heap_Pop cursor_key pq') out'
          else merge_loop enc_fails maxLines (heap_Fix0 cursor_key pq') out')"
  by pat_completeness auto
termination
proof (relation "measure (\<lambda>(e, m, pq, out). sum_list (map cursor_left pq) + length pq)", goal_cases)
  case (2 enc_fails maxLines pq out head out' pq')
  then show ?case using pop_left[of pq cursor_key] by auto
next
  case (3 enc_fails maxLines pq out head out' pq')
  then have "sum_list (map cursor_left (heap_Fix0 cursor_key pq')) = sum_list (map cursor_left pq')"
    by (intro sum_list_nat_mset) (simp add: heap_Fix0_def)
  then show ?case using advance_left[of pq] 3 by (simp add: heap_Fix0_def advance_def)
qed simp

declare merge_loop.simps [simp del]

definition Merge ::
  "(nat \<Rightarrow> bool) \<Rightarrow> (string, LogEntry list) result list \<Rightarrow> int \<Rightarrow> LogEntry list \<times> string option" where
  "Merge enc_fails reads maxLines = merge_loop enc_fails maxLines (heap_Init cursor_key (cursors reads)) []"

section \<open>Closing the output\<close>

text \<open>\<^verbatim>\<open>writerCloser.Close\<close>: the flush and every closer is called; the first error is returned.\<close>

fun close_all :: "string option \<Rightarrow> string option list \<Rightarrow> string option" where
  "close_all first [] = first"
| "close_all first (r # rs) = close_all (if r \<noteq> None \<and> first = None then r else first) rs"

definition writerCloser_Close :: "string option \<Rightarrow> string option list \<Rightarrow> string option" where
  "writerCloser_Close flush closers = close_all (if flush \<noteq> None then flush else None) closers"

section \<open>Correctness of the loop\<close>

definition remaining :: "mergeCursor list \<Rightarrow> LogEntry list" where
  "remaining pq = concat (map (\<lambda>c. drop (idx c) (entries c)) pq)"

definition cursor_ok :: "mergeCursor \<Rightarrow> bool" where
  "cursor_ok c \<longleftrightarrow> idx c < length (entries c) \<and> sorted (map Timestamp (entries c))"

definition pq_ok :: "mergeCursor list \<Rightarrow> bool" where
  "pq_ok pq \<longleftrightarrow> list_all cursor_ok pq \<and> heap_ok cursor_key pq"

lemma remaining_mset: "mset pq = mset pq' \<Longrightarrow> mset (remaining pq) = mset (remaining pq')"
proof -
  have "mset (remaining q) = \<Sum>\<^sub># (image_mset (\<lambda>c. mset (drop (idx c) (entries c))) (mset q))" for q
    by (induction q) (simp_all add: remaining_def)
  then show "mset pq = mset pq' \<Longrightarrow> mset (remaining pq) = mset (remaining pq')" by simp
qed

lemma head_least:
  assumes "pq_ok pq" "pq \<noteq> []" "e \<in> set (remaining pq)"
  shows "Timestamp (entries (pq ! 0) ! idx (pq ! 0)) \<le> Timestamp e"
proof -
  obtain c rest where pq: "pq = c # rest" using assms(2) by (cases pq) auto
  obtain d where d: "d \<in> set pq" "e \<in> set (drop (idx d) (entries d))"
    using assms(3) by (auto simp: remaining_def)
  have ok: "cursor_ok d" using assms(1) d(1) by (simp add: pq_ok_def list_all_iff)
  obtain k where k: "idx d + k < length (entries d)" "e = entries d ! (idx d + k)"
    using d(2) by (auto simp: in_set_conv_nth less_diff_conv add.commute)
  have "map Timestamp (entries d) ! idx d \<le> map Timestamp (entries d) ! (idx d + k)"
    using ok k(1) by (intro sorted_nth_mono) (simp_all add: cursor_ok_def)
  then have "cursor_key d \<le> Timestamp e" using k by (simp add: cursor_key_def)
  moreover have "cursor_key c \<le> cursor_key d"
    using gh.root_least[of cursor_key c rest d] assms(1) d(1) by (simp add: pq_ok_def pq)
  ultimately show ?thesis by (simp add: cursor_key_def pq)
qed

text \<open>An interleaving of lists: each keeps its own order. The merge is one, which with the stable sort of each
  source is what stability can mean across sources: entries of one source with equal times stay in place.\<close>

inductive interleaves :: "'a list multiset \<Rightarrow> 'a list \<Rightarrow> bool" where
  interleaves_none: "interleaves {#} []"
| interleaves_empty: "interleaves M zs \<Longrightarrow> interleaves (add_mset [] M) zs"
| interleaves_take: "interleaves (add_mset ys M) zs \<Longrightarrow> interleaves (add_mset (y # ys) M) (y # zs)"

lemma interleaves_mset: "interleaves M zs \<Longrightarrow> mset zs = \<Sum>\<^sub># (image_mset mset M)"
  by (induction rule: interleaves.induct) simp_all

lemma interleaves_empties: "interleaves M zs \<Longrightarrow> interleaves (M + replicate_mset k []) zs"
  by (induction k) (simp_all add: interleaves_empty)

text \<open>With a single list there is nothing to choose.\<close>

lemma interleaves_single: "interleaves M zs \<Longrightarrow> M = {#ys#} \<Longrightarrow> zs = ys"
proof (induction arbitrary: ys rule: interleaves.induct)
  case (interleaves_empty M zs)
  then have "M = {#}" "ys = []" by simp_all
  then show ?case using interleaves_empty.hyps by (auto elim: interleaves.cases)
qed simp_all

definition rests :: "mergeCursor list \<Rightarrow> LogEntry list multiset" where
  "rests pq = image_mset (\<lambda>c. drop (idx c) (entries c)) (mset pq)"

lemma rests_remaining: "\<Sum>\<^sub># (image_mset mset (rests pq)) = mset (remaining pq)"
  by (induction pq) (simp_all add: rests_def remaining_def)

text \<open>One turn of the loop: the head's entry leaves, the rest stays in heap order.\<close>

definition next_pq :: "mergeCursor list \<Rightarrow> mergeCursor list" where
  "next_pq pq = (if length (entries (pq ! 0)) \<le> idx (pq ! 0) + 1 then heap_Pop cursor_key (advance pq)
                 else heap_Fix0 cursor_key (advance pq))"

lemma next_pq_ok:
  assumes "pq_ok pq" "pq \<noteq> []"
  shows "pq_ok (next_pq pq)
    \<and> mset (remaining pq) = add_mset (entries (pq ! 0) ! idx (pq ! 0)) (mset (remaining (next_pq pq)))
    \<and> (\<forall>zs. interleaves (rests (next_pq pq)) zs \<longrightarrow> interleaves (rests pq) ((entries (pq ! 0) ! idx (pq ! 0)) # zs))"
proof -
  obtain c rest where pq: "pq = c # rest" using assms(2) by (cases pq) auto
  have ok: "cursor_ok c" "list_all cursor_ok rest" "heap_ok cursor_key (c # rest)"
    using assms(1) by (simp_all add: pq_ok_def pq)
  let ?c = "c\<lparr>idx := idx c + 1\<rparr>" and ?e = "entries c ! idx c"
  have split: "drop (idx c) (entries c) = ?e # drop (idx c + 1) (entries c)"
    using ok(1) by (simp add: cursor_ok_def Cons_nth_drop_Suc)
  have take: "interleaves (add_mset (drop (idx c + 1) (entries c)) (rests rest)) zs \<Longrightarrow> interleaves (rests (c # rest)) (?e # zs)" for zs
    using interleaves_take[of "drop (idx c + 1) (entries c)" "rests rest" zs ?e] by (simp add: rests_def split)
  have adv: "advance (c # rest) = ?c # rest" by (simp add: advance_def)
  have "pq_ok (next_pq (c # rest)) \<and> (\<forall>zs. interleaves (rests (next_pq (c # rest))) zs \<longrightarrow> interleaves (rests (c # rest)) (?e # zs))
    \<and> mset (remaining (c # rest)) = add_mset ?e (mset (remaining (next_pq (c # rest))))"
  proof (cases "length (entries c) \<le> idx c + 1")
    case True
    have nx: "next_pq (c # rest) = heap_Pop cursor_key (?c # rest)" using True by (simp add: next_pq_def adv)
    have m: "mset (next_pq (c # rest)) = mset rest" using gh.pop_law[OF ok(3)] by (simp add: nx)
    have rr: "rests (next_pq (c # rest)) = rests rest" by (simp only: rests_def m)
    have rm: "mset (remaining (next_pq (c # rest))) = mset (remaining rest)" by (rule remaining_mset[OF m])
    have d: "drop (idx c + 1) (entries c) = []" using True by simp
    have "interleaves (rests rest) zs \<Longrightarrow> interleaves (rests (c # rest)) (?e # zs)" for zs
      using take[unfolded d] interleaves_empty by blast
    moreover have "mset (remaining (c # rest)) = add_mset ?e (mset (remaining rest))"
      by (simp add: remaining_def split[unfolded d])
    moreover have "pq_ok (next_pq (c # rest))"
      unfolding nx pq_ok_def using gh.pop_law[OF ok(3)] gh.pop_all[OF ok(3)] ok(2) by simp
    ultimately show ?thesis unfolding rr rm by blast
  next
    case False
    have nx: "next_pq (c # rest) = heap_Fix0 cursor_key (?c # rest)" using False by (simp add: next_pq_def adv)
    have m: "mset (next_pq (c # rest)) = mset (?c # rest)" using gh.fix_law[OF ok(3)] by (simp add: nx)
    have rr: "rests (next_pq (c # rest)) = add_mset (drop (idx c + 1) (entries c)) (rests rest)"
      by (simp add: rests_def m)
    have rm: "mset (remaining (next_pq (c # rest))) = mset (remaining (?c # rest))" by (rule remaining_mset[OF m])
    have "mset (remaining (c # rest)) = add_mset ?e (mset (remaining (?c # rest)))"
      by (simp add: remaining_def split)
    moreover have "pq_ok (next_pq (c # rest))"
      unfolding nx pq_ok_def using gh.fix_law[OF ok(3)] gh.fix_all[OF ok(3)] ok(1,2) False by (simp add: cursor_ok_def)
    ultimately show ?thesis unfolding rr rm using take by blast
  qed
  then show ?thesis by (simp add: pq)
qed

lemma merge_loop_next:
  assumes "pq \<noteq> []" "\<not> (0 < m \<and> m \<le> int (length out))" "\<not> ef (length out)"
  shows "merge_loop ef m pq out = merge_loop ef m (next_pq pq) (out @ [entries (pq ! 0) ! idx (pq ! 0)])"
  using assms by (subst merge_loop.simps) (auto simp: Let_def next_pq_def)

lemma next_pq_left:
  assumes "pq_ok pq" "pq \<noteq> []"
  shows "length (remaining (next_pq pq)) < length (remaining pq)"
  using next_pq_ok[OF assms] by (metis lessI size_add_mset size_mset)

text \<open>The loop writes a sorted permutation of what remains, cut at the cap.\<close>

lemma merge_loop_sorted:
  assumes "pq_ok pq" "\<forall>n. \<not> ef n"
  shows "\<exists>xs. sorted (map Timestamp xs) \<and> interleaves (rests pq) xs
    \<and> merge_loop ef m pq out = (out @ (if m \<le> 0 then xs else take (nat m - length out) xs), None)"
  using assms(1)
proof (induction "length (remaining pq)" arbitrary: pq out rule: less_induct)
  case less
  show ?case
  proof (cases "pq = []")
    case True
    then show ?thesis by (intro exI[of _ "[]"]) (simp add: merge_loop.simps rests_def interleaves_none)
  next
    case False
    let ?e = "entries (pq ! 0) ! idx (pq ! 0)"
    have nx: "pq_ok (next_pq pq)" "\<And>zs. interleaves (rests (next_pq pq)) zs \<Longrightarrow> interleaves (rests pq) (?e # zs)"
      using next_pq_ok[OF less.prems False] by simp_all
    obtain xs where xs: "sorted (map Timestamp xs)" "interleaves (rests (next_pq pq)) xs"
      "merge_loop ef m (next_pq pq) (out @ [?e])
        = (out @ [?e] @ (if m \<le> 0 then xs else take (nat m - length (out @ [?e])) xs), None)"
      using less.hyps[OF next_pq_left[OF less.prems False] nx(1), of "out @ [?e]"] by auto
    have ms: "interleaves (rests pq) (?e # xs)" by (rule nx(2)[OF xs(2)])
    then have "mset (?e # xs) = mset (remaining pq)" using interleaves_mset rests_remaining by metis
    then have "set (?e # xs) = set (remaining pq)" by (metis set_mset_mset)
    then have "\<forall>x\<in>set xs. Timestamp ?e \<le> Timestamp x" using head_least[OF less.prems False] by auto
    then have so: "sorted (map Timestamp (?e # xs))" using xs(1) by simp
    show ?thesis
    proof (cases "0 < m \<and> m \<le> int (length out)")
      case True
      then have "merge_loop ef m pq out = (out, None)" using False by (subst merge_loop.simps) simp
      moreover have "nat m \<le> length out" using True by linarith
      ultimately show ?thesis using so ms True by (intro exI[of _ "?e # xs"]) simp
    next
      case False2: False
      have "merge_loop ef m pq out = merge_loop ef m (next_pq pq) (out @ [?e])"
        using merge_loop_next[OF False False2] assms(2) by simp
      moreover have "\<not> m \<le> 0 \<Longrightarrow> nat m - length out = Suc (nat m - Suc (length out))" using False2 by linarith
      ultimately show ?thesis using xs(3) so ms by (intro exI[of _ "?e # xs"]) simp
    qed
  qed
qed

text \<open>The sources that can be read.\<close>

fun readable :: "(string, LogEntry list) result list \<Rightarrow> LogEntry list list" where
  "readable [] = []"
| "readable (Inl e # rs) = readable rs"
| "readable (Inr es # rs) = es # readable rs"

lemma cursors_ok:
  "list_all cursor_ok (cursors rs) \<and> (\<exists>k. mset (map (sort_key Timestamp) (readable rs)) = rests (cursors rs) + replicate_mset k [])"
proof (induction rs rule: cursors.induct)
  case (3 es rs)
  then obtain k where k: "mset (map (sort_key Timestamp) (readable rs)) = rests (cursors rs) + replicate_mset k []" by blast
  show ?case
  proof (cases "es = []")
    case True
    then show ?thesis using 3 k by (auto intro!: exI[of _ "Suc k"])
  next
    case False
    then have "sort_key Timestamp es \<noteq> []" by (metis length_0_conv length_sort)
    then show ?thesis using 3 k by (auto simp: Let_def cursor_ok_def rests_def intro!: exI[of _ k])
  qed
qed (simp_all add: rests_def)

lemma init_pq_ok: "pq_ok (heap_Init cursor_key (cursors reads))"
  using gh.init_law[of cursor_key "cursors reads"] cursors_ok[of reads] by (simp add: pq_ok_def gh.init_all)

lemma Merge_sorted:
  assumes "\<forall>n. \<not> ef n"
  shows "\<exists>xs. sorted (map Timestamp xs) \<and> interleaves (mset (map (sort_key Timestamp) (readable reads))) xs
    \<and> Merge ef reads m = ((if m \<le> 0 then xs else take (nat m) xs), None)"
proof -
  have r: "rests (heap_Init cursor_key (cursors reads)) = rests (cursors reads)"
    using gh.init_law[of cursor_key "cursors reads"] by (simp add: rests_def)
  obtain k where "mset (map (sort_key Timestamp) (readable reads)) = rests (cursors reads) + replicate_mset k []"
    using cursors_ok[of reads] by blast
  with merge_loop_sorted[OF init_pq_ok assms, of reads m "[]"] show ?thesis
    unfolding r by (auto simp: Merge_def intro: interleaves_empties)
qed

lemma interleaved_set: "interleaves (mset (map (sort_key Timestamp) ess)) xs \<Longrightarrow> set xs = set (concat ess)"
proof -
  assume "interleaves (mset (map (sort_key Timestamp) ess)) xs"
  then have "mset xs = \<Sum>\<^sub># (image_mset mset (mset (map (sort_key Timestamp) ess)))" by (rule interleaves_mset)
  also have "\<dots> = mset (concat ess)" by (induction ess) simp_all
  finally show ?thesis by (metis set_mset_mset)
qed

text \<open>C39. The dump is a stable chronological merge: when encoding succeeds, the lines written are sorted by time and an
  interleaving of the stably sorted entries of all readable sources, so that entries of one source
  with equal times keep their order (unreadable sources are skipped and cost nothing else), or the
  first \<open>MaxLines\<close> of it when a cap is set. Between sources the order of equal times is left open, as in the code.\<close>

theorem merge_chronological:
  assumes "\<forall>n. \<not> enc_fails n"
  shows "\<exists>xs. sorted (map Timestamp xs) \<and> interleaves (mset (map (sort_key Timestamp) (readable reads))) xs
    \<and> mset xs = mset (concat (readable reads))
    \<and> Merge enc_fails reads maxLines = ((if maxLines \<le> 0 then xs else take (nat maxLines) xs), None)"
proof -
  obtain xs where xs: "sorted (map Timestamp xs)" "interleaves (mset (map (sort_key Timestamp) (readable reads))) xs"
    "Merge enc_fails reads maxLines = ((if maxLines \<le> 0 then xs else take (nat maxLines) xs), None)"
    using Merge_sorted[OF assms] by blast
  have "\<Sum>\<^sub># (image_mset mset (mset (map (sort_key Timestamp) ess))) = mset (concat ess)" for ess
    by (induction ess) simp_all
  then have "mset xs = mset (concat (readable reads))" using interleaves_mset[OF xs(2)] by simp
  then show ?thesis using xs by blast
qed

definition at :: "int \<Rightarrow> LogEntry" where
  "at t = zero_entry\<lparr>Timestamp := t\<rparr>"

theorem merge_chronological_witness:
  "\<exists>xs. sorted (map Timestamp xs) \<and> interleaves {#[at 1, at 5], [at 2]#} xs \<and> mset xs = {#at 1, at 2, at 5#}
    \<and> Merge (\<lambda>_. False) [Inr [at 5, at 1], Inl ''gone'', Inr [at 2]] 2 = (take 2 xs, None)"
proof -
  have "sort_key Timestamp [at 5, at 1] = [at 1, at 5]" by code_simp
  then show ?thesis
    using merge_chronological[of "\<lambda>_. False" "[Inr [at 5, at 1], Inl ''gone'', Inr [at 2]]" 2]
    by (simp add: add_mset_commute)
qed

text \<open>C40. A failing output stops the dump at the first line that cannot be encoded: what was written is
  exactly the beginning of the full dump, and the error is reported.\<close>

theorem merge_encode_error:
  assumes "\<forall>n<k. \<not> enc_fails n" "enc_fails k" "k < length (fst (Merge (\<lambda>_. False) reads m))"
  shows "Merge enc_fails reads m = (take k (fst (Merge (\<lambda>_. False) reads m)), Some ''oneshot encode'')"
proof -
  have "merge_loop enc_fails m pq out = (take k (fst (merge_loop (\<lambda>_. False) m pq out)), Some ''oneshot encode'')"
    if "length out \<le> k" "k < length (fst (merge_loop (\<lambda>_. False) m pq out))" "pq_ok pq" for pq out
    using that
  proof (induction "length (remaining pq)" arbitrary: pq out rule: less_induct)
    case less
    let ?e = "entries (pq ! 0) ! idx (pq ! 0)"
    have st: "pq \<noteq> []" "\<not> (0 < m \<and> m \<le> int (length out))"
      using less.prems(1,2) by (auto simp: merge_loop.simps[of _ _ pq] split: if_splits)
    have full: "merge_loop (\<lambda>_. False) m pq out = merge_loop (\<lambda>_. False) m (next_pq pq) (out @ [?e])"
      using merge_loop_next[OF st] by simp
    have pre: "\<exists>ys. fst (merge_loop (\<lambda>_. False) m pq out) = out @ ys"
      using merge_loop_sorted[OF less.prems(3), of "\<lambda>_. False" m out] by auto
    show ?case
    proof (cases "length out = k")
      case True
      then have "merge_loop enc_fails m pq out = (out, Some ''oneshot encode'')"
        using st assms(2) by (subst merge_loop.simps) (auto simp: Let_def)
      then show ?thesis using pre True by auto
    next
      case False
      then have "\<not> enc_fails (length out)" using assms(1) less.prems(1) by simp
      then show ?thesis
        using less.hyps[OF next_pq_left[OF less.prems(3) st(1)], of "out @ [?e]"]
          next_pq_ok[OF less.prems(3) st(1)] less.prems(1,2) False full merge_loop_next[OF st] by simp
    qed
  qed
  moreover have "pq_ok (heap_Init cursor_key (cursors reads))"
    by (rule init_pq_ok)
  ultimately show ?thesis using assms(3) by (simp add: Merge_def)
qed

theorem merge_encode_error_witness:
  "Merge (\<lambda>n. n = 1) [Inr [at 5, at 1], Inr [at 2]] 0 = ([at 1], Some ''oneshot encode'')"
proof -
  have "fst (Merge (\<lambda>_. False) [Inr [at 5, at 1], Inr [at 2]] 0) = [at 1, at 2, at 5]" by code_simp
  then show ?thesis
    using merge_encode_error[of 1 "\<lambda>n. n = 1" "[Inr [at 5, at 1], Inr [at 2]]" 0] by simp
qed

text \<open>The time filter is the closed interval of its bounds, a zero bound being absent.\<close>

theorem filter_interval:
  "Passes f t \<longleftrightarrow> (Since f = 0 \<or> Since f \<le> t) \<and> (Until f = 0 \<or> t \<le> Until f)"
  by (auto simp: Passes_def Before_def After_def)

lemma close_all_first: "close_all first rs = (case filter (\<lambda>r. r \<noteq> None) (first # rs) of [] \<Rightarrow> None | r # _ \<Rightarrow> r)"
  by (induction rs arbitrary: first) (auto split: list.splits)

lemma writerCloser_first:
  "writerCloser_Close flush rs = (case filter (\<lambda>r. r \<noteq> None) (flush # rs) of [] \<Rightarrow> None | r # _ \<Rightarrow> r)"
  using close_all_first[of flush rs] by (cases flush) (simp_all add: writerCloser_Close_def)

end
