(* ===== verification/File_Source.thy ===== *)
theory File_Source
  imports Go_Time
begin

text \<open>
  \<^verbatim>\<open>src/internal/source/file.go\<close> and \<^verbatim>\<open>offset.go\<close>: the file tailer. The open file is its byte content; the
  buffered reader is the position up to which the file has been read and the bytes read but not yet
  consumed; a read at a position can fail, and reads fail once the file has been closed. What is proved: the byte offset always points at the
  first unread byte, lines are delivered whole and in order, over-long lines are cut and flagged,
  and a restart resumes where the last run stopped.
\<close>

section \<open>The buffered reader\<close>

datatype slice_err = SliceNil | SliceFull | SliceEOF | SliceErr

abbreviation LF :: char where "LF \<equiv> CHR 0x0A"

text \<open>\<^verbatim>\<open>bufio.NewReaderSize\<close> never uses a buffer below sixteen bytes.\<close>

definition buf_size :: "int \<Rightarrow> nat" where
  "buf_size n = max 16 (nat n)"

text \<open>\<^verbatim>\<open>ReadSlice\<close> for the newline: the bytes returned, the file position and the rest of the buffer.\<close>

function read_slice :: "(nat \<Rightarrow> bool) \<Rightarrow> nat \<Rightarrow> bytes \<Rightarrow> nat \<Rightarrow> bytes \<Rightarrow> slice_err \<times> bytes \<times> nat \<times> bytes" where
  "read_slice ioerr cap content pos buf =
     (case IndexByte buf LF of
        Some i \<Rightarrow> (SliceNil, take (i + 1) buf, pos, drop (i + 1) buf)
      | None \<Rightarrow>
          if cap \<le> length buf then (SliceFull, buf, pos, [])
          else if ioerr pos then (SliceErr, buf, pos, [])
          else let chunk = take (cap - length buf) (drop pos content) in
            if chunk = [] then (SliceEOF, buf, pos, [])
            else read_slice ioerr cap content (pos + length chunk) (buf @ chunk))"
  by pat_completeness auto
termination
proof (relation "measure (\<lambda>(e, cap, content, pos, buf). cap - length buf)", goal_cases)
  case (2 ioerr cap content pos buf chunk)
  then have "0 < length chunk" by simp
  with 2 show ?case by simp
qed simp

declare read_slice.simps [simp del]

lemma read_slice_len: "read_slice e cap content pos buf = (SliceFull, line, pos', buf') \<Longrightarrow> cap \<le> length line"
proof (induction e cap content pos buf rule: read_slice.induct)
  case (1 e cap content pos buf)
  then show ?case
    by (subst (asm) (2) read_slice.simps) (auto simp: Let_def split: option.splits if_splits)
qed

section \<open>State and configuration\<close>

record FileSourceConfig =
  src_Name :: string
  src_Path :: string
  FromBeginning :: bool
  FollowSymlinks :: bool
  MaxLineBytes :: int

record FileSource =
  curIno :: "64 word"
  offset :: int
  rd_pos :: nat
  rd_buf :: bytes
  rd_closed :: bool

text \<open>\<^verbatim>\<open>NewFileSource\<close>: the parser is present or not; the intervals are left out, they only pace the loop.\<close>

definition NewFileSource :: "FileSourceConfig \<Rightarrow> bool \<Rightarrow> (string, FileSourceConfig) result" where
  "NewFileSource cfg has_parser =
     (if src_Name cfg = [] then Inl ''file source: Name is required''
      else if src_Path cfg = [] then Inl ''file source: Path is required''
      else if \<not> has_parser then Inl ''file source: Parser is required''
      else Inr (if MaxLineBytes cfg \<le> 0 then cfg\<lparr>MaxLineBytes := 64 * 1024\<rparr> else cfg))"

text \<open>What a path shows: whether it is a symbolic link, and the inode and content behind it.\<close>

record fileinfo =
  fi_symlink :: bool
  fi_ino :: "64 word"
  fi_content :: bytes

record Offset =
  off_Path :: string
  off_Offset :: int
  off_Inode :: "64 word"

definition zero_offset :: Offset where
  "zero_offset = \<lparr>off_Path = [], off_Offset = 0, off_Inode = 0\<rparr>"

datatype src_err = SrcFatal | SrcOpen | SrcStat | SrcSeek | SrcRead

text \<open>\<^verbatim>\<open>openInitial\<close>: \<open>stored\<close> is what the offset store answers, \<^const>\<open>None\<close> when there is no store. A negative
  offset makes \<^verbatim>\<open>Seek\<close> fail.\<close>

definition start_offset :: "FileSourceConfig \<Rightarrow> (string, Offset) result option \<Rightarrow> fileinfo \<Rightarrow> int" where
  "start_offset cfg stored info =
     (let sz = int (length (fi_content info));
          start0 = (if FromBeginning cfg then 0 else sz)
      in case stored of
           None \<Rightarrow> start0
         | Some r \<Rightarrow>
             if FromBeginning cfg then start0
             else case r of
               Inl e \<Rightarrow> start0
             | Inr off \<Rightarrow>
                 if off_Inode off \<noteq> 0 \<and> off_Inode off = fi_ino info \<and> off_Offset off \<le> sz then off_Offset off
                 else if off_Inode off \<noteq> 0 then 0 else start0)"

text \<open>What each call on the path answers: \<^verbatim>\<open>Lstat\<close> (whether it is a symbolic link), \<^verbatim>\<open>Open\<close> (the file behind it, which a
  race may have exchanged), \<^verbatim>\<open>Stat\<close> of the open file and \<^verbatim>\<open>Seek\<close> to a position that is not negative.\<close>

record path_view =
  pv_lstat :: "bool option"
  pv_open :: "fileinfo option"
  pv_stat :: bool
  pv_seek :: bool

definition openInitial ::
  "FileSourceConfig \<Rightarrow> (string, Offset) result option \<Rightarrow> path_view \<Rightarrow> (src_err, FileSource) result" where
  "openInitial cfg stored path =
     (if \<not> FollowSymlinks cfg \<and> pv_lstat path = None then Inl SrcOpen
      else if \<not> FollowSymlinks cfg \<and> pv_lstat path = Some True then Inl SrcFatal
      else case pv_open path of
        None \<Rightarrow> Inl SrcOpen
      | Some info \<Rightarrow>
          if \<not> pv_stat path then Inl SrcStat
          else let start = start_offset cfg stored info in
            if start < 0 \<or> \<not> pv_seek path then Inl SrcSeek
            else Inr \<lparr>curIno = fi_ino info, offset = start, rd_pos = nat start, rd_buf = [], rd_closed = False\<rparr>)"

text \<open>A path that stays as it is, and calls that do not fail.\<close>

definition settled :: "fileinfo \<Rightarrow> path_view" where
  "settled info = \<lparr>pv_lstat = Some (fi_symlink info), pv_open = Some info, pv_stat = True, pv_seek = True\<rparr>"

lemma openInitial_settled:
  "openInitial cfg stored (settled info) =
     (if \<not> FollowSymlinks cfg \<and> fi_symlink info then Inl SrcFatal
      else let start = start_offset cfg stored info in
        if start < 0 then Inl SrcSeek
        else Inr \<lparr>curIno = fi_ino info, offset = start, rd_pos = nat start, rd_buf = [], rd_closed = False\<rparr>)"
  by (simp add: openInitial_def settled_def)

section \<open>Reading lines\<close>

definition maxDiscardBytes :: int where
  "maxDiscardBytes = 16 * 1024 * 1024"

text \<open>The loop of \<^verbatim>\<open>discardThroughNewline\<close>: bytes dropped so far, and how the last slice ended.\<close>

function discard_loop :: "(nat \<Rightarrow> bool) \<Rightarrow> nat \<Rightarrow> bytes \<Rightarrow> int \<Rightarrow> int \<Rightarrow> nat \<Rightarrow> bytes
    \<Rightarrow> int \<times> slice_err \<times> nat \<times> bytes" where
  "discard_loop e cap content limit n pos buf =
     (if n < limit \<and> 0 < cap
      then (case read_slice e cap content pos buf of
              (r, sl, pos', buf') \<Rightarrow>
                (let n' = n + int (length sl) in
                 if r = SliceFull then discard_loop e cap content limit n' pos' buf'
                 else (n', r, pos', buf')))
      else (n, SliceNil, pos, buf))"
  by pat_completeness auto
termination
  by (relation "measure (\<lambda>(e, cap, content, limit, n, pos, buf). nat (limit - n))")
    (auto dest!: read_slice_len[OF sym])

declare discard_loop.simps [simp del]

datatype line_result = Line bytes | LineEOF | LineErr

definition readLine :: "(nat \<Rightarrow> bool) \<Rightarrow> FileSourceConfig \<Rightarrow> bytes \<Rightarrow> FileSource \<Rightarrow> line_result \<times> FileSource" where
  "readLine e0 cfg content s =
     (let cap = buf_size (MaxLineBytes cfg); e = (\<lambda>p. rd_closed s \<or> e0 p) in
      case read_slice e cap content (rd_pos s) (rd_buf s) of
        (r, sl, pos', buf') \<Rightarrow>
          (let s1 = s\<lparr>rd_pos := pos', rd_buf := buf'\<rparr> in
           case r of
             SliceNil \<Rightarrow> (Line sl, s1\<lparr>offset := offset s + int (length sl)\<rparr>)
           | SliceFull \<Rightarrow>
               (let s2 = s1\<lparr>offset := offset s + int (length sl)\<rparr> in
                case discard_loop e cap content maxDiscardBytes 0 pos' buf' of
                  (n, derr, pos2, buf2) \<Rightarrow>
                    (let s3 = s2\<lparr>offset := offset s2 + n, rd_pos := pos2, rd_buf := buf2\<rparr> in
                     if derr = SliceErr then (LineErr, s3) else (Line (sl @ [LF]), s3)))
           | SliceEOF \<Rightarrow> if 0 < length sl then (Line sl, s1\<lparr>offset := offset s + int (length sl)\<rparr>)
                         else (LineEOF, s1)
           | SliceErr \<Rightarrow> (LineErr, s1)))"

definition consumeLine :: "FileSourceConfig \<Rightarrow> Parser \<Rightarrow> bytes \<Rightarrow> LogEntry option" where
  "consumeLine cfg parse raw0 =
     (let truncated = (MaxLineBytes cfg < int (length raw0));
          raw = (if truncated then take (nat (MaxLineBytes cfg)) raw0 else raw0)
      in case parse raw of
           Inl err \<Rightarrow> None
         | Inr e0 \<Rightarrow>
             (let e = SanitizeUTF8 (e0\<lparr>Source := src_Name cfg\<rparr>)
              in Some (if truncated then e\<lparr>Fields := AList.update ''truncated'' ''true'' (Fields e)\<rparr> else e)))"

text \<open>\<^verbatim>\<open>checkRotation\<close>: \<open>path\<close> is what the path shows now; \<open>reopen_fails\<close> is the outcome of opening the new
  file. The open file is replaced on an inode change (it is closed before, and stays so when the new
  one does not open) and rewound on a shrink.\<close>

definition checkRotation ::
  "FileSourceConfig \<Rightarrow> fileinfo option \<Rightarrow> bool \<Rightarrow> FileSource \<Rightarrow> (src_err, bool) result \<times> FileSource" where
  "checkRotation cfg path reopen_fails s =
     (case path of
        None \<Rightarrow> if \<not> FollowSymlinks cfg then (Inl SrcStat, s) else (Inr False, s)
      | Some info \<Rightarrow>
          if \<not> FollowSymlinks cfg \<and> fi_symlink info then (Inl SrcFatal, s)
          else if fi_ino info \<noteq> curIno s
          then if reopen_fails then (Inl SrcOpen, s\<lparr>rd_closed := True\<rparr>)
               else (Inr True, s\<lparr>curIno := fi_ino info, offset := 0, rd_pos := 0, rd_buf := [], rd_closed := False\<rparr>)
          else if int (length (fi_content info)) < offset s
          then if rd_closed s then (Inl SrcSeek, s)
               else (Inr True, s\<lparr>offset := 0, rd_pos := 0, rd_buf := []\<rparr>)
          else (Inr False, s))"

text \<open>\<^verbatim>\<open>persistOffset\<close>: the record that is saved.\<close>

definition persistOffset :: "FileSourceConfig \<Rightarrow> FileSource \<Rightarrow> Offset" where
  "persistOffset cfg s = \<lparr>off_Path = src_Path cfg, off_Offset = offset s, off_Inode = curIno s\<rparr>"

definition hasMeta :: "string \<Rightarrow> bool" where
  "hasMeta p = list_ex (\<lambda>c. c \<in> {CHR ''*'', CHR ''?'', CHR ''[''}) p"

section \<open>The reader loses nothing\<close>

text \<open>The first separator splits a list in one way.\<close>

lemma split_sep: "c \<notin> set a \<Longrightarrow> c \<notin> set b \<Longrightarrow> a @ c # x = b @ c # y \<Longrightarrow> a = b \<and> x = y"
proof (induction a arbitrary: b)
  case Nil
  then show ?case by (cases b) auto
next
  case (Cons z a)
  then show ?case by (cases b) auto
qed

lemma read_slice_split:
  "read_slice e cap content pos buf = (r, sl, pos', buf') \<Longrightarrow>
     sl @ buf' @ drop pos' content = buf @ drop pos content
     \<and> int pos' - int (length buf') = int pos - int (length buf) + int (length sl)"
proof (induction e cap content pos buf rule: read_slice.induct)
  case (1 e cap content pos buf)
  let ?chunk = "take (cap - length buf) (drop pos content)"
  show ?case
  proof (cases "IndexByte buf LF")
    case (Some i)
    then show ?thesis
      using "1.prems" IndexByte_SomeD[OF Some] by (subst (asm) read_slice.simps) auto
  next
    case None
    show ?thesis
    proof (cases "cap \<le> length buf \<or> e pos \<or> ?chunk = []")
      case True
      then show ?thesis
        using "1.prems" None by (subst (asm) read_slice.simps) (auto simp: Let_def split: if_splits)
    next
      case False
      then have "read_slice e cap content (pos + length ?chunk) (buf @ ?chunk) = (r, sl, pos', buf')"
        using "1.prems" None by (subst (asm) read_slice.simps) (simp add: Let_def)
      from "1.IH"[OF None _ _ refl _ this] False
      have ih: "sl @ buf' @ drop pos' content = (buf @ ?chunk) @ drop (pos + length ?chunk) content
        \<and> int pos' - int (length buf') = int (pos + length ?chunk) - int (length (buf @ ?chunk)) + int (length sl)"
        by simp
      have "?chunk @ drop (pos + length ?chunk) content = drop pos content"
        using append_take_drop_id[of "length ?chunk" "drop pos content"]
        by (metis add.commute drop_drop length_take min.commute take_take take_all_iff nat_le_linear)
      then show ?thesis using ih by (simp add: append_assoc)
    qed
  qed
qed

text \<open>How the slice ended, when reading works: at a newline, at a full buffer, or at the end.\<close>

lemma read_slice_result:
  "\<forall>p. \<not> e p \<Longrightarrow> read_slice e cap content pos buf = (r, sl, pos', buf') \<Longrightarrow> length buf \<le> cap \<Longrightarrow>
    (r = SliceNil \<and> sl \<noteq> [] \<and> last sl = LF \<and> LF \<notin> set (butlast sl) \<and> length sl \<le> cap
      \<or> r = SliceFull \<and> length sl = cap \<and> LF \<notin> set sl
      \<or> r = SliceEOF \<and> length sl < cap \<and> LF \<notin> set sl \<and> buf' = [] \<and> drop pos' content = [])
    \<and> length buf' \<le> cap"
proof (induction e cap content pos buf rule: read_slice.induct)
  case (1 e cap content pos buf)
  let ?chunk = "take (cap - length buf) (drop pos content)"
  show ?case
  proof (cases "IndexByte buf LF")
    case (Some i)
    note I = IndexByte_SomeD[OF Some]
    have t: "take (i + 1) buf = take i buf @ [LF]"
      using I take_Suc_conv_app_nth[of i buf] by (metis Suc_eq_plus1 length_take min.absorb2 nat_less_le nth_append_length)
    have "r = SliceNil" "sl = take i buf @ [LF]" "buf' = drop (i + 1) buf"
      using "1.prems"(2) Some t by (auto simp: read_slice.simps[of e cap content pos buf])
    then show ?thesis using I "1.prems"(3) by simp
  next
    case None
    then have nl: "LF \<notin> set buf" by simp
    show ?thesis
    proof (cases "cap \<le> length buf \<or> ?chunk = []")
      case True
      then show ?thesis
        using "1.prems" None nl spec[OF "1.prems"(1), of pos]
        by (subst (asm) read_slice.simps) (auto simp: Let_def split: if_splits)
    next
      case False
      then have "read_slice e cap content (pos + length ?chunk) (buf @ ?chunk) = (r, sl, pos', buf')"
        using "1.prems"(1,2) None
        by (subst (asm) read_slice.simps) (auto simp: Let_def split: if_splits)
      from "1.IH"[OF None _ _ refl _ "1.prems"(1) this] False "1.prems" show ?thesis by auto
    qed
  qed
qed

lemma discard_split:
  "discard_loop e cap content limit n pos buf = (n', r, pos', buf') \<Longrightarrow>
     n \<le> n' \<and> (\<exists>d. d @ buf' @ drop pos' content = buf @ drop pos content \<and> int (length d) = n' - n)
     \<and> int pos' - int (length buf') = int pos - int (length buf) + (n' - n)"
proof (induction e cap content limit n pos buf rule: discard_loop.induct)
  case (1 e cap content limit n pos buf)
  show ?case
  proof (cases "n < limit \<and> 0 < cap")
    case True
    obtain r1 sl p1 b1 where rs: "read_slice e cap content pos buf = (r1, sl, p1, b1)"
      by (cases "read_slice e cap content pos buf") auto
    note sp = read_slice_split[OF rs]
    show ?thesis
    proof (cases "r1 = SliceFull")
      case full: True
      have "discard_loop e cap content limit (n + int (length sl)) p1 b1 = (n', r, pos', buf')"
        using "1.prems" True full rs by (subst (asm) discard_loop.simps) (simp add: Let_def)
      from "1.IH"[OF True rs[symmetric] refl refl refl full this]
      obtain d where d: "n + int (length sl) \<le> n'" "d @ buf' @ drop pos' content = b1 @ drop p1 content"
        "int (length d) = n' - (n + int (length sl))"
        "int pos' - int (length buf') = int p1 - int (length b1) + (n' - (n + int (length sl)))" by blast
      have "(sl @ d) @ buf' @ drop pos' content = buf @ drop pos content" using d(2) sp by simp
      then show ?thesis using d sp by (intro conjI exI[of _ "sl @ d"]) auto
    next
      case False
      then have "n' = n + int (length sl)" "pos' = p1" "buf' = b1"
        using "1.prems" True rs by (subst (asm) discard_loop.simps, simp add: Let_def)+
      then show ?thesis using sp by auto
    qed
  next
    case False
    then show ?thesis using "1.prems" by (subst (asm) discard_loop.simps) (auto intro: exI[of _ "[]"])
  qed
qed

text \<open>When reading works: the rest of the line is dropped to its newline, or to the end of the file,
  if that is within the limit.\<close>

lemma discard_to_newline:
  assumes "\<forall>p. \<not> e p" "0 < cap"
  shows "length buf \<le> cap \<Longrightarrow> buf @ drop pos content = d @ LF # rest \<Longrightarrow> LF \<notin> set d \<Longrightarrow>
    n + int (length d) < limit \<Longrightarrow>
    \<exists>pos' buf'. discard_loop e cap content limit n pos buf = (n + int (length d) + 1, SliceNil, pos', buf')
      \<and> buf' @ drop pos' content = rest \<and> length buf' \<le> cap"
proof (induction "length d" arbitrary: d n pos buf rule: less_induct)
  case less
  have nl: "n < limit" using less.prems(4) by simp
  obtain r sl p1 b1 where rs: "read_slice e cap content pos buf = (r, sl, p1, b1)"
    by (cases "read_slice e cap content pos buf") auto
  note sp = read_slice_split[OF rs] and re = read_slice_result[OF assms(1) rs less.prems(1)]
  have eq: "sl @ (b1 @ drop p1 content) = d @ LF # rest" using sp less.prems(2) by simp
  from re consider "r = SliceNil" "sl \<noteq> []" "last sl = LF" "LF \<notin> set (butlast sl)"
    | "r = SliceFull" "length sl = cap" "LF \<notin> set sl"
    | "r = SliceEOF" "LF \<notin> set sl" "b1 = []" "drop p1 content = []" by blast
  then show ?case
  proof cases
    case 1
    have "butlast sl @ LF # (b1 @ drop p1 content) = d @ LF # rest"
      using eq append_butlast_last_id[OF 1(2)] 1(3) by (metis append.assoc append_Cons append_Nil)
    then have "butlast sl = d \<and> b1 @ drop p1 content = rest"
      using split_sep[OF 1(4) less.prems(3)] by blast
    moreover have "length sl = length (butlast sl) + 1" using 1(2) by (cases sl rule: rev_cases) auto
    ultimately show ?thesis using 1(1) nl assms(2) rs re by (subst discard_loop.simps) (simp add: Let_def)
  next
    case 2
    have "length sl \<le> length d"
    proof (rule ccontr)
      assume "\<not> length sl \<le> length d"
      then have "LF = sl ! length d" using eq by (metis nth_append nth_append_length linorder_not_le)
      then show False using 2(3) \<open>\<not> length sl \<le> length d\<close> by (metis nth_mem linorder_not_le)
    qed
    then obtain d' where d: "d = sl @ d'" using eq by (metis append_eq_append_conv_if append_take_drop_id)
    have "b1 @ drop p1 content = d' @ LF # rest" using eq d by simp
    moreover have "length d' < length d" using d 2(2) assms(2) by simp
    ultimately obtain pos' buf' where "discard_loop e cap content limit (n + int (length sl)) p1 b1
        = (n + int (length sl) + int (length d') + 1, SliceNil, pos', buf')"
      "buf' @ drop pos' content = rest" "length buf' \<le> cap"
      using less.hyps[of d' b1 p1 "n + int (length sl)"] less.prems(3,4) re d by auto
    then show ?thesis using 2(1) nl assms(2) rs d by (subst discard_loop.simps) (simp add: Let_def)
  next
    case 3
    then have "LF \<in> set sl" using eq by simp
    then show ?thesis using 3(2) by simp
  qed
qed

lemma discard_ok:
  "\<forall>p. \<not> e p \<Longrightarrow> length buf \<le> cap \<Longrightarrow> discard_loop e cap content limit n pos buf = (n', r, pos', buf') \<Longrightarrow>
     r \<noteq> SliceErr \<and> length buf' \<le> cap"
proof (induction e cap content limit n pos buf rule: discard_loop.induct)
  case (1 e cap content limit n pos buf)
  show ?case
  proof (cases "n < limit \<and> 0 < cap")
    case True
    obtain r1 sl p1 b1 where rs: "read_slice e cap content pos buf = (r1, sl, p1, b1)"
      by (cases "read_slice e cap content pos buf") auto
    note re = read_slice_result[OF "1.prems"(1) rs "1.prems"(2)]
    show ?thesis
    proof (cases "r1 = SliceFull")
      case full: True
      have "discard_loop e cap content limit (n + int (length sl)) p1 b1 = (n', r, pos', buf')"
        using "1.prems"(3) True full rs by (subst (asm) discard_loop.simps) (simp add: Let_def)
      from "1.IH"[OF True rs[symmetric] refl refl refl full "1.prems"(1) _ this] re show ?thesis by blast
    next
      case False
      then have "r = r1" "buf' = b1"
        using "1.prems"(3) True rs by (subst (asm) discard_loop.simps, simp add: Let_def)+
      then show ?thesis using re by auto
    qed
  next
    case False
    then show ?thesis using "1.prems" by (subst (asm) discard_loop.simps) auto
  qed
qed

section \<open>The offset points at the first unread byte\<close>

definition src_inv :: "FileSourceConfig \<Rightarrow> bytes \<Rightarrow> FileSource \<Rightarrow> bool" where
  "src_inv cfg content s \<longleftrightarrow> 0 \<le> offset s \<and> offset s \<le> int (length content)
     \<and> rd_buf s @ drop (rd_pos s) content = drop (nat (offset s)) content
     \<and> offset s = int (rd_pos s) - int (length (rd_buf s)) \<and> length (rd_buf s) \<le> buf_size (MaxLineBytes cfg)"

definition unread :: "bytes \<Rightarrow> FileSource \<Rightarrow> bytes" where
  "unread content s = drop (nat (offset s)) content"

lemma src_inv_consume:
  assumes "src_inv cfg content s" "used @ buf' @ drop pos' content = rd_buf s @ drop (rd_pos s) content"
    "offset s' = offset s + int (length used)" "rd_pos s' = pos'" "rd_buf s' = buf'"
    "int pos' - int (length buf') = int (rd_pos s) - int (length (rd_buf s)) + int (length used)"
    "length buf' \<le> buf_size (MaxLineBytes cfg)"
  shows "src_inv cfg content s' \<and> unread content s = used @ unread content s'"
proof -
  have u: "used @ buf' @ drop pos' content = drop (nat (offset s)) content"
    using assms(1,2) by (simp add: src_inv_def)
  have "0 \<le> offset s" using assms(1) by (simp add: src_inv_def)
  then have "nat (offset s') = length used + nat (offset s)" using assms(3) by linarith
  then have d: "drop (nat (offset s')) content = buf' @ drop pos' content"
    using arg_cong[OF u, of "drop (length used)"] by (simp add: drop_drop add.commute)
  have "length used \<le> length content - nat (offset s)" using arg_cong[OF u, of length] by simp
  then have "offset s' \<le> int (length content)" using assms(1,3) by (auto simp: src_inv_def)
  then show ?thesis using assms u d by (simp add: src_inv_def unread_def)
qed

text \<open>One call, when reading works.\<close>

lemma readLine_step:
  assumes "\<forall>p. \<not> e p" "\<not> rd_closed s" "src_inv cfg content s"
  shows "case readLine e cfg content s of
      (Line l, s') \<Rightarrow> src_inv cfg content s' \<and> \<not> rd_closed s' \<and> curIno s' = curIno s
        \<and> (\<exists>used. used \<noteq> [] \<and> unread content s = used @ unread content s' \<and> offset s' = offset s + int (length used))
    | (LineEOF, s') \<Rightarrow> src_inv cfg content s' \<and> \<not> rd_closed s' \<and> curIno s' = curIno s \<and> offset s' = offset s \<and> unread content s = []
    | (LineErr, s') \<Rightarrow> False"
proof -
  let ?cap = "buf_size (MaxLineBytes cfg)" and ?e = "\<lambda>p. rd_closed s \<or> e p"
  have e: "\<forall>p. \<not> ?e p" using assms(1,2) by simp
  have b: "length (rd_buf s) \<le> ?cap" using assms(3) by (simp add: src_inv_def)
  obtain r sl p1 b1 where rs: "read_slice ?e ?cap content (rd_pos s) (rd_buf s) = (r, sl, p1, b1)"
    by (cases "read_slice ?e ?cap content (rd_pos s) (rd_buf s)") auto
  note sp = read_slice_split[OF rs] and re = read_slice_result[OF e rs b]
  let ?s1 = "s\<lparr>rd_pos := p1, rd_buf := b1, offset := offset s + int (length sl)\<rparr>"
  have c1: "src_inv cfg content ?s1" "unread content s = sl @ unread content ?s1"
    using src_inv_consume[OF assms(3), of sl b1 p1 ?s1] sp re by auto
  have nz: "0 < ?cap" by (simp add: buf_size_def)
  show ?thesis
  proof (cases "r = SliceFull")
    case True
    obtain n d p2 b2 where ds: "discard_loop ?e ?cap content maxDiscardBytes 0 p1 b1 = (n, d, p2, b2)"
      by (cases "discard_loop ?e ?cap content maxDiscardBytes 0 p1 b1") auto
    have dok: "d \<noteq> SliceErr" "length b2 \<le> ?cap" using discard_ok[OF e _ ds] re by auto
    obtain x where x: "0 \<le> n" "x @ b2 @ drop p2 content = b1 @ drop p1 content" "int (length x) = n"
      "int p2 - int (length b2) = int p1 - int (length b1) + n"
      using discard_split[OF ds] by auto
    let ?s3 = "?s1\<lparr>offset := offset ?s1 + n, rd_pos := p2, rd_buf := b2\<rparr>"
    have c3: "src_inv cfg content ?s3" "unread content ?s1 = x @ unread content ?s3"
      using src_inv_consume[OF c1(1), of x b2 p2 ?s3] x dok by auto
    have "readLine e cfg content s = (Line (sl @ [LF]), ?s3)"
      using rs True ds dok(1) by (simp add: readLine_def Let_def)
    moreover have "sl @ x \<noteq> []" using re True nz by auto
    moreover have "unread content s = (sl @ x) @ unread content ?s3" using c1(2) c3(2) by simp
    ultimately show ?thesis using c3(1) x(1,3) assms(2) by (auto intro!: exI[of _ "sl @ x"])
  next
    case False
    then consider "r = SliceNil" | "r = SliceEOF" "sl \<noteq> []" | "r = SliceEOF" "sl = []" using re by blast
    then show ?thesis
    proof cases
      case 1
      then have "readLine e cfg content s = (Line sl, ?s1)" using rs by (simp add: readLine_def Let_def)
      then show ?thesis using 1 re c1 assms(2) by auto
    next
      case 2
      then have "readLine e cfg content s = (Line sl, ?s1)" using rs by (simp add: readLine_def Let_def)
      then show ?thesis using 2 c1 assms(2) by auto
    next
      case 3
      then have rl: "readLine e cfg content s = (LineEOF, s\<lparr>rd_pos := p1, rd_buf := b1\<rparr>)"
        using rs by (simp add: readLine_def Let_def)
      have "unread content s = b1 @ drop p1 content"
        using sp 3 assms(3) by (simp add: unread_def src_inv_def)
      then have "unread content s = []" using 3 re by auto
      then show ?thesis unfolding rl using 3 c1(1) assms(2) by (simp add: src_inv_def)
    qed
  qed
qed

section \<open>What a line is\<close>

lemma append_take_eq: "length a \<le> length b \<Longrightarrow> a @ x = b @ y \<Longrightarrow> a = take (length a) b"
  by (metis append_eq_append_conv_if)

lemma readLine_line:
  assumes "\<forall>p. \<not> e p" "\<not> rd_closed s" "src_inv cfg content s"
    and "cap = buf_size (MaxLineBytes cfg)" "unread content s = l @ LF # rest" "LF \<notin> set l"
    and "length l < cap + nat maxDiscardBytes"
  shows "\<exists>s'. readLine e cfg content s = (Line (if length l < cap then l @ [LF] else take cap l @ [LF]), s')
    \<and> offset s' = offset s + int (length l) + 1 \<and> unread content s' = rest \<and> src_inv cfg content s'"
proof -
  let ?e = "\<lambda>p. rd_closed s \<or> e p"
  have e: "\<forall>p. \<not> ?e p" using assms(1,2) by simp
  have b: "length (rd_buf s) \<le> cap" "0 < cap" using assms(3,4) by (simp_all add: src_inv_def buf_size_def)
  have U: "rd_buf s @ drop (rd_pos s) content = l @ LF # rest" using assms(3,5) by (simp add: src_inv_def unread_def)
  obtain r sl p1 b1 where rs: "read_slice ?e cap content (rd_pos s) (rd_buf s) = (r, sl, p1, b1)"
    by (cases "read_slice ?e cap content (rd_pos s) (rd_buf s)") auto
  note sp = read_slice_split[OF rs] and re = read_slice_result[OF e rs b(1)]
  have eq: "sl @ (b1 @ drop p1 content) = l @ LF # rest" using sp U by simp
  from re consider "r = SliceNil" "sl \<noteq> []" "last sl = LF" "LF \<notin> set (butlast sl)" "length sl \<le> cap"
    | "r = SliceFull" "length sl = cap" "LF \<notin> set sl" | "r = SliceEOF" "LF \<notin> set sl" "b1 = []" "drop p1 content = []"
    by blast
  then show ?thesis
  proof cases
    case 1
    have "butlast sl @ LF # (b1 @ drop p1 content) = l @ LF # rest"
      using eq append_butlast_last_id[OF 1(2)] 1(3) by (metis append.assoc append_Cons append_Nil)
    then have l: "butlast sl = l" using split_sep[OF 1(4) assms(6)] by blast
    then have sl: "sl = l @ [LF]" using append_butlast_last_id[OF 1(2)] 1(3) by metis
    let ?s = "s\<lparr>rd_pos := p1, rd_buf := b1, offset := offset s + int (length sl)\<rparr>"
    have c: "src_inv cfg content ?s" "unread content s = sl @ unread content ?s"
      using src_inv_consume[OF assms(3), of sl b1 p1 ?s] sp re assms(4) by auto
    have "readLine e cfg content s = (Line sl, ?s)" using rs 1(1) assms(4) by (simp add: readLine_def Let_def)
    then show ?thesis using c sl 1(5) assms(5) by (intro exI[of _ ?s]) simp
  next
    case 2
    have le: "cap \<le> length l"
    proof (rule ccontr)
      assume "\<not> cap \<le> length l"
      then have a: "length l < length sl" using 2(2) by simp
      then have "sl ! length l = LF" using eq by (metis nth_append nth_append_length)
      then show False using 2(3) nth_mem[OF a] by simp
    qed
    then have sl: "sl = take cap l" using append_take_eq[OF _ eq] 2(2) by simp
    have d: "b1 @ drop p1 content = drop cap l @ LF # rest"
      using eq unfolding sl by (metis append.assoc append_take_drop_id same_append_eq)
    have nd: "LF \<notin> set (drop cap l)" using assms(6) by (meson in_set_dropD)
    have lim: "0 + int (length (drop cap l)) < maxDiscardBytes"
      using assms(7) le by (simp add: maxDiscardBytes_def)
    obtain p2 b2 where ds: "discard_loop ?e cap content maxDiscardBytes 0 p1 b1
        = (0 + int (length (drop cap l)) + 1, SliceNil, p2, b2)" "b2 @ drop p2 content = rest" "length b2 \<le> cap"
      using discard_to_newline[OF e b(2) _ d nd lim] re by blast
    let ?s = "s\<lparr>rd_pos := p2, rd_buf := b2, offset := offset s + int (length sl) + (int (length (drop cap l)) + 1)\<rparr>"
    have off: "offset ?s = offset s + int (length (l @ [LF]))" using sl le by simp
    have "int p2 - int (length b2) = int (rd_pos s) - int (length (rd_buf s)) + int (length (l @ [LF]))"
      using discard_split[OF ds(1)] sp sl le by simp
    then have c: "src_inv cfg content ?s" "unread content s = (l @ [LF]) @ unread content ?s"
      using src_inv_consume[OF assms(3), of "l @ [LF]" b2 p2 ?s] ds U off assms(4) by auto
    have "readLine e cfg content s = (Line (sl @ [LF]), ?s)"
      using rs 2(1) ds(1) assms(4) by (simp add: readLine_def Let_def add.assoc)
    then show ?thesis using c sl le off assms(5) by (intro exI[of _ ?s]) simp
  next
    case 3
    then have "LF \<in> set sl" using eq by simp
    then show ?thesis using 3(2) by simp
  qed
qed

text \<open>C14. Reading one line: at the first unread byte the reader delivers the next line whole, when it
  fits the cap; an over-long line is cut at the cap, ended with a newline and consumed to its own
  newline (within the discard limit); the end of the file is reported as such; and the offset
  moves by exactly the bytes consumed.\<close>

theorem readLine_delivers:
  assumes "\<forall>p. \<not> e p" "\<not> rd_closed s" "src_inv cfg content s"
    and "cap = buf_size (MaxLineBytes cfg)" "unread content s = l @ LF # rest" "LF \<notin> set l"
    and "length l < cap + nat maxDiscardBytes"
  shows "\<exists>s'. readLine e cfg content s = (Line (if length l < cap then l @ [LF] else take cap l @ [LF]), s')
    \<and> offset s' = offset s + int (length l) + 1 \<and> unread content s' = rest \<and> src_inv cfg content s'"
  using readLine_line[OF assms] .

text \<open>A file of twelve bytes whose second line is longer than the sixteen-byte buffer would be: the cap is
  raised to the sixteen bytes that \<^verbatim>\<open>bufio\<close> uses at least.\<close>

definition example_src :: FileSourceConfig where
  "example_src = \<lparr>src_Name = ''app'', src_Path = ''/var/log/app'', FromBeginning = False, FollowSymlinks = False,
     MaxLineBytes = 16\<rparr>"

definition example_content :: bytes where
  "example_content = ''ok'' @ LF # ''a line that is too long for sixteen bytes'' @ LF # ''tail''"

definition example_start :: FileSource where
  "example_start = \<lparr>curIno = 7, offset = 3, rd_pos = 3, rd_buf = [], rd_closed = False\<rparr>"

theorem readLine_delivers_witness:
  "\<exists>s'. readLine (\<lambda>_. False) example_src example_content example_start = (Line (''a line that is t'' @ [LF]), s')
    \<and> offset s' = 45 \<and> unread example_content s' = ''tail''"
proof -
  have i: "src_inv example_src example_content example_start" by code_simp
  have u: "unread example_content example_start = ''a line that is too long for sixteen bytes'' @ LF # ''tail''"
    by code_simp
  have c: "16 = buf_size (MaxLineBytes example_src)" by code_simp
  show ?thesis
    using readLine_delivers[OF _ _ i c u, of "\<lambda>_. False"] by (auto simp: example_start_def maxDiscardBytes_def)
qed

section \<open>Draining\<close>

lemma read_slice_nil: "read_slice e cap content pos buf = (SliceNil, sl, pos', buf') \<Longrightarrow> sl \<noteq> []"
proof (induction e cap content pos buf rule: read_slice.induct)
  case (1 e cap content pos buf)
  show ?case
  proof (cases "IndexByte buf LF")
    case (Some i)
    then show ?thesis using "1.prems" IndexByte_SomeD[OF Some] by (auto simp: read_slice.simps[of e cap content pos buf])
  next
    case None
    then show ?thesis
      using "1.prems" "1.IH"[OF None] unfolding read_slice.simps[of e cap content pos buf]
      by (simp add: Let_def del: IndexByte_None split: if_splits)
  qed
qed

lemma readLine_progress:
  assumes "readLine e cfg content s = (Line l, s')"
  shows "length (rd_buf s' @ drop (rd_pos s') content) < length (rd_buf s @ drop (rd_pos s) content)"
proof -
  let ?cap = "buf_size (MaxLineBytes cfg)" and ?e = "\<lambda>p. rd_closed s \<or> e p"
  obtain r sl p1 b1 where rs: "read_slice ?e ?cap content (rd_pos s) (rd_buf s) = (r, sl, p1, b1)"
    by (cases "read_slice ?e ?cap content (rd_pos s) (rd_buf s)") auto
  obtain n d p2 b2 where ds: "discard_loop ?e ?cap content maxDiscardBytes 0 p1 b1 = (n, d, p2, b2)"
    by (cases "discard_loop ?e ?cap content maxDiscardBytes 0 p1 b1") auto
  have sp: "length sl + length (b1 @ drop p1 content) = length (rd_buf s @ drop (rd_pos s) content)"
    using arg_cong[OF conjunct1[OF read_slice_split[OF rs]], of length] by simp
  have dp: "length (b2 @ drop p2 content) \<le> length (b1 @ drop p1 content)"
    using discard_split[OF ds] by (metis le_add2 length_append)
  have ne: "r = SliceNil \<Longrightarrow> sl \<noteq> []" "r = SliceFull \<Longrightarrow> sl \<noteq> []"
    using read_slice_nil[of ?e ?cap content "rd_pos s" "rd_buf s" sl p1 b1]
      read_slice_len[of ?e ?cap content "rd_pos s" "rd_buf s" sl p1 b1] rs by (auto simp: buf_size_def)
  have "sl \<noteq> [] \<and> (rd_pos s' = p1 \<and> rd_buf s' = b1 \<or> rd_pos s' = p2 \<and> rd_buf s' = b2)"
    using assms rs ds ne by (auto simp: readLine_def Let_def split: slice_err.splits if_splits)
  then show ?thesis using sp dp by (cases sl) auto
qed

text \<open>\<^verbatim>\<open>drain\<close>: the lines handed to \<^verbatim>\<open>consumeLine\<close>, and how it ended. \<open>cancelled\<close> is what the context says
  before the \<open>n\<close>-th line.\<close>

datatype drain_end = DrainEOF | DrainCancelled | DrainError

function drain_lines :: "(nat \<Rightarrow> bool) \<Rightarrow> (nat \<Rightarrow> bool) \<Rightarrow> FileSourceConfig \<Rightarrow> bytes \<Rightarrow> FileSource \<Rightarrow> bytes list
    \<Rightarrow> bytes list \<times> drain_end \<times> FileSource" where
  "drain_lines cancelled e cfg content s acc =
     (if cancelled (length acc) then (acc, DrainCancelled, s)
      else case readLine e cfg content s of
        (Line l, s') \<Rightarrow> drain_lines cancelled e cfg content s' (acc @ [l])
      | (LineEOF, s') \<Rightarrow> (acc, DrainEOF, s')
      | (LineErr, s') \<Rightarrow> (acc, DrainError, s'))"
  by pat_completeness auto
termination
  by (relation "measure (\<lambda>(c, e, cfg, content, s, acc). length (rd_buf s @ drop (rd_pos s) content))")
    (auto dest!: readLine_progress[OF sym])

declare drain_lines.simps [simp del]

definition source_drain ::
  "(nat \<Rightarrow> bool) \<Rightarrow> (nat \<Rightarrow> bool) \<Rightarrow> FileSourceConfig \<Rightarrow> Parser \<Rightarrow> bytes \<Rightarrow> FileSource \<Rightarrow> LogEntry list \<times> drain_end \<times> FileSource" where
  "source_drain cancelled e cfg parse content s =
     (case drain_lines cancelled e cfg content s [] of
        (ls, r, s') \<Rightarrow> (List.map_filter (consumeLine cfg parse) ls, r, s'))"

text \<open>No run of \<open>cap\<close> bytes without a newline.\<close>

definition no_long :: "nat \<Rightarrow> bytes \<Rightarrow> bool" where
  "no_long cap u \<longleftrightarrow> (\<forall>a b c. u = a @ b @ c \<and> LF \<notin> set b \<longrightarrow> length b < cap)"

lemma no_long_head: "no_long cap (l @ LF # rest) \<Longrightarrow> LF \<notin> set l \<Longrightarrow> length l < cap \<and> no_long cap rest"
proof -
  assume a: "no_long cap (l @ LF # rest)" "LF \<notin> set l"
  have "length l < cap" using a unfolding no_long_def by (metis append_Nil)
  moreover have "no_long cap rest" using a(1) unfolding no_long_def by (metis append_Cons append_assoc)
  ultimately show ?thesis ..
qed

lemma no_long_all: "no_long cap u \<Longrightarrow> LF \<notin> set u \<Longrightarrow> length u < cap"
  unfolding no_long_def by (metis append_Nil append_Nil2)

text \<open>How a line is delivered: whole when it fits the buffer, and else cut there and ended with a newline.\<close>

definition shorten :: "nat \<Rightarrow> bytes \<Rightarrow> bytes" where
  "shorten cap l = (if length (takeWhile (\<lambda>c. c \<noteq> LF) l) < cap then l else take cap l @ [LF])"

lemma shorten_line: "LF \<notin> set l \<Longrightarrow> shorten cap (l @ [LF]) = (if length l < cap then l @ [LF] else take cap l @ [LF])"
proof -
  assume "LF \<notin> set l"
  then have t: "takeWhile (\<lambda>c. c \<noteq> LF) (l @ [LF]) = l" by (induction l) auto
  show ?thesis unfolding shorten_def t by simp
qed

lemma shorten_tail: "LF \<notin> set u \<Longrightarrow> shorten cap u = (if length u < cap then u else take cap u @ [LF])"
proof -
  assume "LF \<notin> set u"
  then have t: "takeWhile (\<lambda>c. c \<noteq> LF) u = u" by (induction u) auto
  show ?thesis unfolding shorten_def t by simp
qed

lemma shorten_none: "no_long cap u \<Longrightarrow> map (shorten cap) (split_lines u) = split_lines u"
proof (induction "length u" arbitrary: u rule: less_induct)
  case less
  show ?case
  proof (cases u rule: line_cases)
    case 2
    then show ?thesis using no_long_all[OF less.prems 2(2)] by (simp add: split_lines_tail shorten_tail)
  next
    case (3 l rest)
    then show ?thesis
      using no_long_head[OF less.prems[unfolded 3(1)] 3(2)] less.hyps[of rest] by (simp add: split_lines_line shorten_line)
  qed simp
qed

lemma discard_to_end:
  assumes "\<forall>p. \<not> e p" "0 < cap"
  shows "length buf \<le> cap \<Longrightarrow> LF \<notin> set (buf @ drop pos content) \<Longrightarrow> n + int (length (buf @ drop pos content)) < limit \<Longrightarrow>
    \<exists>pos'. discard_loop e cap content limit n pos buf = (n + int (length (buf @ drop pos content)), SliceEOF, pos', [])
      \<and> drop pos' content = []"
proof (induction "length (buf @ drop pos content)" arbitrary: n pos buf rule: less_induct)
  case less
  have nl: "n < limit" using less.prems(3) by simp
  obtain r sl p1 b1 where rs: "read_slice e cap content pos buf = (r, sl, p1, b1)"
    by (cases "read_slice e cap content pos buf") auto
  note sp = read_slice_split[OF rs] and re = read_slice_result[OF assms(1) rs less.prems(1)]
  have eq: "buf @ drop pos content = sl @ (b1 @ drop p1 content)" using sp by simp
  then have len: "length (buf @ drop pos content) = length sl + length (b1 @ drop p1 content)" by simp
  have no: "LF \<notin> set sl" "LF \<notin> set (b1 @ drop p1 content)" using less.prems(2) unfolding eq by simp_all
  have "r \<noteq> SliceNil"
  proof
    assume "r = SliceNil"
    then have "sl \<noteq> []" "last sl = LF" using re by simp_all
    then show False using no(1) last_in_set[of sl] by simp
  qed
  with re consider "r = SliceFull" "length sl = cap" | "r = SliceEOF" "b1 = []" "drop p1 content = []" by blast
  then show ?case
  proof cases
    case 1
    then have sh: "length (b1 @ drop p1 content) < length (buf @ drop pos content)" using len assms(2) by simp
    have lim: "n + int (length sl) + int (length (b1 @ drop p1 content)) < limit" using less.prems(3) len by simp
    obtain pos' where "discard_loop e cap content limit (n + int (length sl)) p1 b1
        = (n + int (length sl) + int (length (b1 @ drop p1 content)), SliceEOF, pos', [])" "drop pos' content = []"
      using less.hyps[OF sh _ no(2) lim] re by blast
    then show ?thesis using 1(1) nl assms(2) rs len by (subst discard_loop.simps) (simp add: Let_def)
  next
    case 2
    then show ?thesis using nl assms(2) rs len by (subst discard_loop.simps) (simp add: Let_def)
  qed
qed

lemma readLine_tail:
  assumes "\<forall>p. \<not> e p" "\<not> rd_closed s" "src_inv cfg content s" "unread content s \<noteq> []" "LF \<notin> set (unread content s)"
    "cap = buf_size (MaxLineBytes cfg)" "length (unread content s) < cap + nat maxDiscardBytes"
  shows "\<exists>s'. readLine e cfg content s = (Line (shorten cap (unread content s)), s') \<and> unread content s' = []"
proof -
  let ?e = "\<lambda>p. rd_closed s \<or> e p" and ?u = "unread content s"
  have e: "\<forall>p. \<not> ?e p" using assms(1,2) by simp
  have b: "length (rd_buf s) \<le> cap" "0 < cap" using assms(3,6) by (simp_all add: src_inv_def buf_size_def)
  obtain r sl p1 b1 where rs: "read_slice ?e cap content (rd_pos s) (rd_buf s) = (r, sl, p1, b1)"
    by (cases "read_slice ?e cap content (rd_pos s) (rd_buf s)") auto
  note sp = read_slice_split[OF rs] and re = read_slice_result[OF e rs b(1)]
  have eq: "?u = sl @ (b1 @ drop p1 content)"
    using sp assms(3) by (simp add: src_inv_def unread_def)
  then have len: "length ?u = length sl + length (b1 @ drop p1 content)" by simp
  have no: "LF \<notin> set sl" "LF \<notin> set (b1 @ drop p1 content)" using assms(5) unfolding eq by simp_all
  have "r \<noteq> SliceNil"
  proof
    assume "r = SliceNil"
    then have "sl \<noteq> []" "last sl = LF" using re by simp_all
    then show False using no(1) last_in_set[of sl] by simp
  qed
  with re consider "r = SliceFull" "length sl = cap" | "r = SliceEOF" "length sl < cap" "b1 = []" "drop p1 content = []" by blast
  then show ?thesis
  proof cases
    case 1
    then have sh: "shorten cap ?u = sl @ [LF]" using shorten_tail[OF assms(5), of cap] len unfolding eq by simp
    have lim: "0 + int (length (b1 @ drop p1 content)) < maxDiscardBytes"
      using assms(7) len 1(2) by (simp add: maxDiscardBytes_def)
    obtain p2 where ds: "discard_loop ?e cap content maxDiscardBytes 0 p1 b1
        = (0 + int (length (b1 @ drop p1 content)), SliceEOF, p2, [])" "drop p2 content = []"
      using discard_to_end[OF e b(2) _ no(2) lim] re by blast
    let ?s = "s\<lparr>rd_pos := p2, rd_buf := [], offset := offset s + int (length sl) + int (length (b1 @ drop p1 content))\<rparr>"
    have "int p2 - int (length ([] :: bytes)) = int (rd_pos s) - int (length (rd_buf s)) + int (length ?u)"
      using discard_split[OF ds(1)] sp len by simp
    then have "unread content s = ?u @ unread content ?s"
      using src_inv_consume[OF assms(3), of ?u "[]" p2 ?s] ds(2) len assms(3) b(2) unfolding src_inv_def unread_def by auto
    then have "unread content ?s = []" by simp
    moreover have "readLine e cfg content s = (Line (sl @ [LF]), ?s)"
      using rs 1(1) ds(1) assms(6) by (simp add: readLine_def Let_def add.assoc)
    ultimately show ?thesis using sh by metis
  next
    case 2
    then have sl: "sl = ?u" using eq by simp
    let ?s = "s\<lparr>rd_pos := p1, rd_buf := b1, offset := offset s + int (length sl)\<rparr>"
    have "unread content s = sl @ unread content ?s"
      using src_inv_consume[OF assms(3), of sl b1 p1 ?s] sp re assms(6) by auto
    then have "unread content ?s = []" using sl by simp
    moreover have "readLine e cfg content s = (Line sl, ?s)"
      using rs 2(1) assms(4,6) sl by (simp add: readLine_def Let_def)
    moreover have "shorten cap ?u = sl" using shorten_tail[OF assms(5), of cap] 2(2) sl by simp
    ultimately show ?thesis by metis
  qed
qed

text \<open>A drain delivers every unread line, cut where it is too long, provided that what is cut off stays within the discard
  limit.\<close>

lemma drain_lines_cut:
  assumes "\<forall>n. \<not> cancelled n" "\<forall>p. \<not> e p" "cap = buf_size (MaxLineBytes cfg)"
  shows "\<not> rd_closed s \<Longrightarrow> src_inv cfg content s \<Longrightarrow> no_long (cap + nat maxDiscardBytes) (unread content s) \<Longrightarrow>
    \<exists>s'. drain_lines cancelled e cfg content s acc = (acc @ map (shorten cap) (split_lines (unread content s)), DrainEOF, s')
      \<and> src_inv cfg content s' \<and> unread content s' = [] \<and> curIno s' = curIno s \<and> \<not> rd_closed s'"
proof (induction "length (unread content s)" arbitrary: s acc rule: less_induct)
  case less
  note st = readLine_step[OF assms(2) less.prems(1,2)]
  have go: "drain_lines cancelled e cfg content s acc = drain_lines cancelled e cfg content s' (acc @ [l])"
    if "readLine e cfg content s = (Line l, s')" for l s'
    using that assms(1) by (subst drain_lines.simps) simp
  show ?case
  proof (cases "unread content s" rule: line_cases)
    case 1
    obtain res s' where rl: "readLine e cfg content s = (res, s')" by (rule prod.exhaust)
    have res: "res = LineEOF" using st rl 1 by (cases res) auto
    have "drain_lines cancelled e cfg content s acc = (acc, DrainEOF, s')"
      using assms(1) rl res by (subst drain_lines.simps) simp
    moreover have "src_inv cfg content s'" "unread content s' = []" "curIno s' = curIno s" "\<not> rd_closed s'"
      using st rl res 1 by (simp_all add: unread_def)
    ultimately show ?thesis using 1 by simp
  next
    case 2
    let ?l = "shorten cap (unread content s)"
    from readLine_tail[OF assms(2) less.prems(1,2) 2 assms(3) no_long_all[OF less.prems(3) 2(2)]]
    obtain s' where rl: "readLine e cfg content s = (Line ?l, s')" "unread content s' = []" by blast
    have i: "src_inv cfg content s'" "\<not> rd_closed s'" "curIno s' = curIno s" using st rl(1) by simp_all
    have "0 < cap" using assms(3) by (simp add: buf_size_def)
    then have "no_long (cap + nat maxDiscardBytes) (unread content s')" by (simp add: rl(2) no_long_def)
    moreover have "length (unread content s') < length (unread content s)" using rl(2) 2(1) by simp
    ultimately obtain t where "drain_lines cancelled e cfg content s' (acc @ [?l])
        = (acc @ [?l] @ map (shorten cap) (split_lines (unread content s')), DrainEOF, t)" "src_inv cfg content t"
      "unread content t = []" "curIno t = curIno s'" "\<not> rd_closed t"
      using less.hyps[OF _ i(2,1), of "acc @ [?l]"] by auto
    then show ?thesis using go[OF rl(1)] rl(2) i(3) split_lines_tail[OF 2(2,1)] by (intro exI[of _ t]) simp
  next
    case (3 l rest)
    note nl = no_long_head[OF less.prems(3)[unfolded 3(1)] 3(2)]
    let ?l = "shorten cap (l @ [LF])"
    obtain s' where rl: "readLine e cfg content s = (Line ?l, s')" "unread content s' = rest" "src_inv cfg content s'"
      using readLine_line[OF assms(2) less.prems(1,2) assms(3) 3 conjunct1[OF nl]] unfolding shorten_line[OF 3(2), of cap] by blast
    have i: "\<not> rd_closed s'" "curIno s' = curIno s" using st rl(1) by simp_all
    have "length (unread content s') < length (unread content s)" using rl(2) 3(1) by simp
    then obtain t where "drain_lines cancelled e cfg content s' (acc @ [?l])
        = (acc @ [?l] @ map (shorten cap) (split_lines rest), DrainEOF, t)" "src_inv cfg content t"
      "unread content t = []" "curIno t = curIno s'" "\<not> rd_closed t"
      using less.hyps[OF _ i(1) rl(3), of "acc @ [?l]"] rl(2) nl by auto
    then show ?thesis
      using go[OF rl(1)] i(2) split_lines_line[OF 3(2), of rest] 3(1) by (intro exI[of _ t]) simp
  qed
qed

lemma no_long_more: "no_long cap u \<Longrightarrow> no_long (cap + k) u"
  unfolding no_long_def
proof (intro allI impI)
  fix a b c
  assume "\<forall>a b c. u = a @ b @ c \<and> LF \<notin> set b \<longrightarrow> length b < cap" "u = a @ b @ c \<and> LF \<notin> set b"
  then have "length b < cap" by blast
  then show "length b < cap + k" by simp
qed

lemma drain_lines_all:
  assumes "\<forall>n. \<not> cancelled n" "\<forall>p. \<not> e p" "\<not> rd_closed s" "src_inv cfg content s"
    "no_long (buf_size (MaxLineBytes cfg)) (unread content s)"
  shows "\<exists>s'. drain_lines cancelled e cfg content s acc = (acc @ split_lines (unread content s), DrainEOF, s')
      \<and> src_inv cfg content s' \<and> unread content s' = [] \<and> curIno s' = curIno s \<and> \<not> rd_closed s'"
  using drain_lines_cut[OF assms(1,2) refl assms(3,4) no_long_more[OF assms(5)], of acc]
  by (simp only: shorten_none[OF assms(5)])

lemma src_inv_grow:
  assumes "src_inv cfg content s"
  shows "src_inv cfg (content @ extra) s" "unread (content @ extra) s = unread content s @ extra"
proof -
  have o: "0 \<le> offset s" "nat (offset s) \<le> length content" using assms by (auto simp: src_inv_def)
  have l: "length (rd_buf s) + (length content - rd_pos s) = length content - nat (offset s)"
    using arg_cong[of _ _ length, OF conjunct1[OF conjunct2[OF conjunct2[OF assms[unfolded src_inv_def]]]]] by simp
  have "int (rd_pos s) = offset s + int (length (rd_buf s))" using assms by (simp add: src_inv_def)
  then have "rd_pos s \<le> length content" using l o by linarith
  then show "src_inv cfg (content @ extra) s" "unread (content @ extra) s = unread content s @ extra"
    using assms o by (auto simp: src_inv_def unread_def)
qed

lemma unread_Nil_offset: "src_inv cfg content s \<Longrightarrow> unread content s = [] \<Longrightarrow> offset s = int (length content)"
  unfolding src_inv_def unread_def drop_eq_Nil by (elim conjE) linarith

text \<open>Tailing is byte-exact: draining a file delivers its unread lines in order and advances the
  offset to its end; when the file then grows, the next drain delivers the lines of the new bytes
  only, so that nothing is lost or delivered twice (for lines under the cap).\<close>

theorem tail_exact:
  assumes "\<forall>n. \<not> cancelled n" "\<forall>p. \<not> e p" "\<not> rd_closed s" "src_inv cfg content s"
    and "no_long (buf_size (MaxLineBytes cfg)) (unread content s)" "no_long (buf_size (MaxLineBytes cfg)) extra"
  shows "\<exists>s1 s2. drain_lines cancelled e cfg content s [] = (split_lines (unread content s), DrainEOF, s1)
    \<and> offset s1 = int (length content)
    \<and> drain_lines cancelled e cfg (content @ extra) s1 [] = (split_lines extra, DrainEOF, s2)
    \<and> offset s2 = int (length (content @ extra))"
proof -
  from drain_lines_all[OF assms(1-5), of "[]"]
  obtain s1 where s1: "drain_lines cancelled e cfg content s [] = (split_lines (unread content s), DrainEOF, s1)"
    "src_inv cfg content s1" "unread content s1 = []" "\<not> rd_closed s1"
    unfolding append_Nil by blast
  note g = src_inv_grow[OF s1(2), of extra]
  have u: "unread (content @ extra) s1 = extra" by (simp only: g(2) s1(3) append_Nil)
  from drain_lines_all[OF assms(1,2) s1(4) g(1), of "[]", unfolded u, OF assms(6)]
  obtain s2 where s2: "drain_lines cancelled e cfg (content @ extra) s1 [] = (split_lines extra, DrainEOF, s2)"
    "src_inv cfg (content @ extra) s2" "unread (content @ extra) s2 = []"
    unfolding append_Nil by blast
  show ?thesis
    by (intro exI conjI) (fact s1(1), rule unread_Nil_offset[OF s1(2,3)], fact s2(1), rule unread_Nil_offset[OF s2(2,3)])
qed

lemma no_long_short: "length u < cap \<Longrightarrow> no_long cap u"
  by (auto simp: no_long_def)

text \<open>The second line of this file is not finished when it is first read: it is delivered in two pieces.\<close>

theorem tail_exact_witness:
  "\<exists>s1 s2. drain_lines (\<lambda>_. False) (\<lambda>_. False) example_src (''ok'' @ LF # ''hel'') (example_start\<lparr>offset := 0, rd_pos := 0\<rparr>) []
      = ([''ok'' @ [LF], ''hel''], DrainEOF, s1)
    \<and> drain_lines (\<lambda>_. False) (\<lambda>_. False) example_src ((''ok'' @ LF # ''hel'') @ ''lo'' @ [LF]) s1 []
      = ([''lo'' @ [LF]], DrainEOF, s2)"
proof -
  let ?s = "example_start\<lparr>offset := 0, rd_pos := 0\<rparr>" and ?c = "''ok'' @ LF # ''hel''"
  have i: "src_inv example_src ?c ?s" "\<not> rd_closed ?s" by code_simp+
  have u: "unread ?c ?s = ?c" by code_simp
  have n1: "no_long (buf_size (MaxLineBytes example_src)) (unread ?c ?s)"
    by (rule no_long_short) code_simp
  have n2: "no_long (buf_size (MaxLineBytes example_src)) (''lo'' @ [LF])"
    by (rule no_long_short) code_simp
  have l: "split_lines (unread ?c ?s) = [''ok'' @ [LF], ''hel'']" "split_lines (''lo'' @ [LF]) = [''lo'' @ [LF]]"
    by code_simp+
  show ?thesis
    using tail_exact[OF _ _ i(2,1) n1 n2, of "\<lambda>_. False" "\<lambda>_. False"] unfolding l by blast
qed

section \<open>Restart and rotation\<close>

lemma openInitial_inv:
  assumes "openInitial cfg stored (settled info) = Inr s"
  shows "offset s \<le> int (length (fi_content info)) \<Longrightarrow> src_inv cfg (fi_content info) s" "\<not> rd_closed s"
    "curIno s = fi_ino info" "offset s = start_offset cfg stored info"
  using assms by (auto simp: openInitial_settled src_inv_def Let_def split: if_splits)

text \<open>A restart resumes exactly: the offset saved by one run makes the next run start at the first
  byte the former had not delivered, whatever was appended meanwhile, as long as the file is the
  same; after a rotation or a truncation it starts at the beginning; and a symbolic link is
  refused unless allowed.\<close>

theorem restart_resumes:
  assumes "src_inv cfg content s" "curIno s \<noteq> 0" "\<not> FromBeginning cfg"
  shows "(fi_symlink info \<and> \<not> FollowSymlinks cfg \<longrightarrow> openInitial cfg stored (settled info) = Inl SrcFatal)
    \<and> (\<not> fi_symlink info \<or> FollowSymlinks cfg \<longrightarrow>
        (\<exists>s'. openInitial cfg (Some (Inr (persistOffset cfg s))) (settled info) = Inr s'
          \<and> (fi_ino info = curIno s \<and> fi_content info = content @ extra \<longrightarrow>
               offset s' = offset s \<and> unread (fi_content info) s' = unread content s @ extra \<and> src_inv cfg (fi_content info) s')
          \<and> (fi_ino info \<noteq> curIno s \<or> int (length (fi_content info)) < offset s \<longrightarrow>
               offset s' = 0 \<and> unread (fi_content info) s' = fi_content info \<and> src_inv cfg (fi_content info) s')))"
proof (intro conjI impI)
  assume "\<not> fi_symlink info \<or> FollowSymlinks cfg"
  moreover define st where "st = start_offset cfg (Some (Inr (persistOffset cfg s))) info"
  have st: "st = (if fi_ino info = curIno s \<and> offset s \<le> int (length (fi_content info)) then offset s else 0)"
    using assms by (auto simp: st_def start_offset_def persistOffset_def)
  have o: "0 \<le> offset s" "offset s \<le> int (length content)" using assms(1) by (simp_all add: src_inv_def)
  ultimately have op: "openInitial cfg (Some (Inr (persistOffset cfg s))) (settled info)
      = Inr \<lparr>curIno = fi_ino info, offset = st, rd_pos = nat st, rd_buf = [], rd_closed = False\<rparr>"
    using st by (auto simp: openInitial_settled st_def[symmetric] Let_def)
  have same: "fi_ino info = curIno s \<and> fi_content info = content @ extra \<Longrightarrow> st = offset s" using st o by simp
  have diff: "fi_ino info \<noteq> curIno s \<or> int (length (fi_content info)) < offset s \<Longrightarrow> st = 0" using st by auto
  show "\<exists>s'. openInitial cfg (Some (Inr (persistOffset cfg s))) (settled info) = Inr s'
          \<and> (fi_ino info = curIno s \<and> fi_content info = content @ extra \<longrightarrow>
               offset s' = offset s \<and> unread (fi_content info) s' = unread content s @ extra \<and> src_inv cfg (fi_content info) s')
          \<and> (fi_ino info \<noteq> curIno s \<or> int (length (fi_content info)) < offset s \<longrightarrow>
               offset s' = 0 \<and> unread (fi_content info) s' = fi_content info \<and> src_inv cfg (fi_content info) s')"
    unfolding op using same diff o src_inv_grow(2)[OF assms(1), of extra]
    by (intro exI conjI[OF refl]) (auto simp: unread_def src_inv_def)
qed (simp add: openInitial_settled)

theorem restart_resumes_witness:
  "\<exists>s'. openInitial example_src (Some (Inr (persistOffset example_src example_start)))
      (settled \<lparr>fi_symlink = False, fi_ino = 7, fi_content = example_content @ ''more''\<rparr>) = Inr s'
    \<and> offset s' = 3 \<and> unread (example_content @ ''more'') s' = unread example_content example_start @ ''more''"
proof -
  have i: "src_inv example_src example_content example_start" "curIno example_start \<noteq> 0" "\<not> FromBeginning example_src"
    by code_simp+
  show ?thesis
    using restart_resumes[OF i, of "\<lparr>fi_symlink = False, fi_ino = 7, fi_content = example_content @ ''more''\<rparr>" None "''more''"]
    by (auto simp: example_start_def)
qed

text \<open>C19. Rotation: a new file at the path is read from its beginning, a truncated one from offset zero,
  an unchanged or grown one from where it was; each time the offset is the first unread byte.\<close>

theorem rotation_restarts:
  assumes "src_inv cfg content s" "\<not> rd_closed s" "\<not> fi_symlink info"
    and "fi_ino info = curIno s \<longrightarrow> (\<exists>extra. fi_content info = content @ extra) \<or> int (length (fi_content info)) < offset s"
  shows "(case checkRotation cfg (Some info) False s of
      (Inl err, s') \<Rightarrow> False
    | (Inr rotated, s') \<Rightarrow> src_inv cfg (fi_content info) s' \<and> curIno s' = fi_ino info \<and> \<not> rd_closed s'
        \<and> (rotated \<longleftrightarrow> fi_ino info \<noteq> curIno s \<or> int (length (fi_content info)) < offset s)
        \<and> offset s' = (if rotated then 0 else offset s))"
proof (cases "fi_ino info \<noteq> curIno s \<or> int (length (fi_content info)) < offset s")
  case True
  then show ?thesis using assms(2,3) by (auto simp: checkRotation_def src_inv_def)
next
  case False
  then obtain extra where "fi_content info = content @ extra" using assms(4) by auto
  then show ?thesis using False assms(2,3) src_inv_grow(1)[OF assms(1), of extra] by (simp add: checkRotation_def)
qed

theorem rotation_restarts_witness:
  "snd (checkRotation example_src (Some \<lparr>fi_symlink = False, fi_ino = 8, fi_content = ''new''\<rparr>) False example_start)
     = \<lparr>curIno = 8, offset = 0, rd_pos = 0, rd_buf = [], rd_closed = False\<rparr>
   \<and> src_inv example_src ''new'' (snd (checkRotation example_src
       (Some \<lparr>fi_symlink = False, fi_ino = 8, fi_content = ''new''\<rparr>) False example_start))"
proof -
  let ?i = "\<lparr>fi_symlink = False, fi_ino = 8, fi_content = ''new''\<rparr>"
  have i: "src_inv example_src example_content example_start" "\<not> rd_closed example_start" by code_simp+
  have r: "checkRotation example_src (Some ?i) False example_start
      = (Inr True, \<lparr>curIno = 8, offset = 0, rd_pos = 0, rd_buf = [], rd_closed = False\<rparr>)" by code_simp
  show ?thesis using rotation_restarts[OF i, of ?i] r by (simp add: example_start_def)
qed

lemma sanitized:
  "ValidString (Message (SanitizeUTF8 x))" "Fields (SanitizeUTF8 x) = Fields x" "Source (SanitizeUTF8 x) = Source x"
  "Timestamp (SanitizeUTF8 x) = Timestamp x" "Level (SanitizeUTF8 x) = Level x"
proof -
  have "ValidString replacement" by code_simp
  then show "ValidString (Message (SanitizeUTF8 x))"
    using to_valid_Valid[of replacement False "Message x"] by (simp add: SanitizeUTF8_def ToValidUTF8_def)
qed (simp_all add: SanitizeUTF8_def)

text \<open>What a line becomes: an entry emitted by the tailer carries the name of the source and a message
  that is valid UTF-8, keeps time, level and the other fields the parser found in the (capped) line,
  and is flagged as truncated exactly when the line was over the cap.\<close>

theorem consumed_line:
  fixes cfg raw
  defines "long \<equiv> MaxLineBytes cfg < int (length raw)"
  assumes "parse (if long then take (nat (MaxLineBytes cfg)) raw else raw) = Inr e0"
    and "map_of (Fields e0) ''truncated'' = None"
  shows "\<exists>entry. consumeLine cfg parse raw = Some entry \<and> Source entry = src_Name cfg \<and> ValidString (Message entry)
    \<and> (map_of (Fields entry) ''truncated'' = Some ''true'' \<longleftrightarrow> long)
    \<and> (\<forall>k. k \<noteq> ''truncated'' \<longrightarrow> map_of (Fields entry) k = map_of (Fields e0) k)
    \<and> Timestamp entry = Timestamp e0 \<and> Level entry = Level e0"
proof (cases long)
  case True
  then show ?thesis using assms(2)
    by (simp add: consumeLine_def long_def[symmetric] Let_def sanitized update_conv)
next
  case False
  then show ?thesis using assms(2,3)
    by (simp add: consumeLine_def long_def[symmetric] Let_def sanitized)
qed

theorem consumed_line_witness:
  "\<exists>entry. consumeLine example_src (\<lambda>l. Inr (zero_entry\<lparr>Message := l\<rparr>)) ''a line over the cap of sixteen'' = Some entry
    \<and> Source entry = ''app'' \<and> map_of (Fields entry) ''truncated'' = Some ''true''"
  using consumed_line[of "\<lambda>l. Inr (zero_entry\<lparr>Message := l\<rparr>)" example_src "''a line over the cap of sixteen''"]
  by (auto simp: example_src_def zero_entry_def)

end
