(* ===== verification/File_Run.thy ===== *)
theory File_Run
  imports File_Source
begin

text \<open>
  The run loop of the file tailer and the expansion of globs (\<^verbatim>\<open>src/internal/source/file.go\<close>, \<^verbatim>\<open>FileSource.Run\<close> and
  \<^verbatim>\<open>ExpandGlob\<close>). Each turn of the loop meets a file that may have changed since. What is proved: a drain always
  reaches the end of the file, every stop saves the offset, and a restart neither skips nor repeats
  a byte.
\<close>

section \<open>The loop\<close>

datatype loop_wake = WakeDone | WakeSave | WakePoll

text \<open>What one turn meets: the context at its top, the context and the reads during the drain, the content of
  the open file, what the path shows, whether a reopen fails, and what ends the wait.\<close>

record turn =
  tu_done :: bool
  tu_cancelled :: "nat \<Rightarrow> bool"
  tu_ioerr :: "nat \<Rightarrow> bool"
  tu_content :: bytes
  tu_path :: "fileinfo option"
  tu_reopen_fails :: bool
  tu_wake :: loop_wake

text \<open>The entries emitted, the offsets handed to the store, the state, and whether the loop has returned. Errors of
  the drain and of the rotation check are only logged.\<close>

fun run_loop :: "FileSourceConfig \<Rightarrow> Parser \<Rightarrow> turn list \<Rightarrow> FileSource \<Rightarrow> LogEntry list \<Rightarrow> Offset list
    \<Rightarrow> LogEntry list \<times> Offset list \<times> FileSource \<times> bool" where
  "run_loop cfg parse [] s out saved = (out, saved, s, False)"
| "run_loop cfg parse (t # ts) s out saved =
     (if tu_done t then (out, saved @ [persistOffset cfg s], s, True)
      else case source_drain (tu_cancelled t) (tu_ioerr t) cfg parse (tu_content t) s of
        (es, r, s1) \<Rightarrow>
          (if r = DrainCancelled then (out @ es, saved @ [persistOffset cfg s1], s1, True)
           else let s2 = snd (checkRotation cfg (tu_path t) (tu_reopen_fails t) s1) in
             case tu_wake t of
               WakeDone \<Rightarrow> (out @ es, saved @ [persistOffset cfg s2], s2, True)
             | WakeSave \<Rightarrow> run_loop cfg parse ts s2 (out @ es) (saved @ [persistOffset cfg s2])
             | WakePoll \<Rightarrow> run_loop cfg parse ts s2 (out @ es) saved))"

definition FileSource_Run ::
  "FileSourceConfig \<Rightarrow> Parser \<Rightarrow> (string, Offset) result option \<Rightarrow> path_view \<Rightarrow> turn list
    \<Rightarrow> (src_err, LogEntry list \<times> Offset list \<times> FileSource \<times> bool) result" where
  "FileSource_Run cfg parse stored path ts =
     rbind (openInitial cfg stored path) (\<lambda>s. Inr (run_loop cfg parse ts s [] []))"

text \<open>\<^verbatim>\<open>ExpandGlob\<close>: whether a plain path exists, and the matches of a pattern, are arguments.\<close>

definition ExpandGlob :: "(string \<Rightarrow> bool) \<Rightarrow> (string \<Rightarrow> string list option) \<Rightarrow> string \<Rightarrow> (string, string list) result" where
  "ExpandGlob exists_path glob pattern =
     (if \<not> hasMeta pattern then if exists_path pattern then Inr [pattern] else Inl ''stat''
      else case glob pattern of None \<Rightarrow> Inl ''glob'' | Some ms \<Rightarrow> Inr ms)"

section \<open>A drain always ends\<close>

lemma drain_reaches_eof:
  assumes "\<forall>n. \<not> cancelled n" "\<forall>p. \<not> e p"
  shows "\<not> rd_closed s \<Longrightarrow> src_inv cfg content s \<Longrightarrow>
    \<exists>ls s'. drain_lines cancelled e cfg content s acc = (ls, DrainEOF, s')
      \<and> src_inv cfg content s' \<and> unread content s' = [] \<and> curIno s' = curIno s \<and> \<not> rd_closed s'
      \<and> length ls \<le> length acc + length (unread content s)"
proof (induction "length (unread content s)" arbitrary: s acc rule: less_induct)
  case less
  note st = readLine_step[OF assms(2) less.prems]
  obtain res s1 where rl: "readLine e cfg content s = (res, s1)" by (rule prod.exhaust)
  show ?case
  proof (cases res)
    case (Line l)
    then obtain used where u: "src_inv cfg content s1" "\<not> rd_closed s1" "curIno s1 = curIno s" "used \<noteq> []"
      "unread content s = used @ unread content s1"
      using st rl by auto
    then have sh: "length (unread content s1) < length (unread content s)" by simp
    have "drain_lines cancelled e cfg content s acc = drain_lines cancelled e cfg content s1 (acc @ [l])"
      using assms(1) rl Line by (subst drain_lines.simps) simp
    moreover obtain ls s' where "drain_lines cancelled e cfg content s1 (acc @ [l]) = (ls, DrainEOF, s')"
      "src_inv cfg content s'" "unread content s' = []" "curIno s' = curIno s1" "\<not> rd_closed s'"
      "length ls \<le> length (acc @ [l]) + length (unread content s1)"
      using less.hyps[OF sh u(2,1), of "acc @ [l]"] by blast
    ultimately show ?thesis using u(3) sh by auto
  next
    case LineEOF
    then have "drain_lines cancelled e cfg content s acc = (acc, DrainEOF, s1)"
      using assms(1) rl by (subst drain_lines.simps) simp
    then show ?thesis using st rl LineEOF by (auto simp: unread_def)
  qed (use st rl in simp)
qed

text \<open>C18. Reading always comes to an end: whatever bytes the file holds, over-long lines and missing newlines
  included, a drain that is not cancelled and meets no read error reaches the end of the file after
  at most as many lines as there were unread bytes, and its offset is then the size of the file.\<close>

theorem drain_terminates:
  assumes "\<forall>n. \<not> cancelled n" "\<forall>p. \<not> e p" "\<not> rd_closed s" "src_inv cfg content s"
  shows "\<exists>ls s'. drain_lines cancelled e cfg content s [] = (ls, DrainEOF, s')
    \<and> offset s' = int (length content) \<and> length ls \<le> length (unread content s)"
proof -
  obtain ls s' where d: "drain_lines cancelled e cfg content s [] = (ls, DrainEOF, s')"
    "src_inv cfg content s'" "unread content s' = []" "length ls \<le> length (unread content s)"
    using drain_reaches_eof[OF assms, of "[]"] by auto
  then show ?thesis using unread_Nil_offset[OF d(2,3)] by blast
qed

theorem drain_terminates_witness:
  "\<exists>ls s'. drain_lines (\<lambda>_. False) (\<lambda>_. False) example_src example_content example_start [] = (ls, DrainEOF, s')
    \<and> offset s' = 49"
proof -
  have i: "\<not> rd_closed example_start" "src_inv example_src example_content example_start" "int (length example_content) = 49"
    by code_simp+
  show ?thesis using drain_terminates[OF _ _ i(1,2), of "\<lambda>_. False" "\<lambda>_. False"] i(3) by auto
qed

section \<open>Stopping and restarting\<close>

text \<open>Whenever the loop returns, the last offset it saved is that of its final state.\<close>

lemma run_saves_on_stop:
  "run_loop cfg parse ts s out saved = (out', saved', s', True) \<Longrightarrow> saved' \<noteq> [] \<and> last saved' = persistOffset cfg s'"
proof (induction cfg parse ts s out saved rule: run_loop.induct)
  case (2 cfg parse t ts s out saved)
  then show ?case
    by (auto simp: Let_def split: if_splits prod.splits loop_wake.splits)
qed simp

text \<open>A quiet turn: nothing is cancelled, no read fails, the path still shows the open file with the same content.\<close>

definition quiet :: "FileSourceConfig \<Rightarrow> bytes \<Rightarrow> 64 word \<Rightarrow> turn \<Rightarrow> bool" where
  "quiet cfg content ino t \<longleftrightarrow> \<not> tu_done t \<and> (\<forall>n. \<not> tu_cancelled t n) \<and> (\<forall>p. \<not> tu_ioerr t p) \<and> tu_content t = content
     \<and> (\<exists>info. tu_path t = Some info \<and> fi_ino info = ino \<and> fi_content info = content \<and> (fi_symlink info \<longrightarrow> FollowSymlinks cfg))"

lemma quiet_turn:
  assumes "quiet cfg content (curIno s) t" "\<not> rd_closed s" "src_inv cfg content s"
    "cap = buf_size (MaxLineBytes cfg)" "no_long (cap + nat maxDiscardBytes) (unread content s)"
  shows "\<exists>s'. run_loop cfg parse (t # ts) s out saved =
      (let out' = out @ List.map_filter (consumeLine cfg parse) (map (shorten cap) (split_lines (unread content s))) in
       case tu_wake t of
         WakeDone \<Rightarrow> (out', saved @ [persistOffset cfg s'], s', True)
       | WakeSave \<Rightarrow> run_loop cfg parse ts s' out' (saved @ [persistOffset cfg s'])
       | WakePoll \<Rightarrow> run_loop cfg parse ts s' out' saved)
    \<and> src_inv cfg content s' \<and> unread content s' = [] \<and> curIno s' = curIno s \<and> \<not> rd_closed s'"
proof -
  let ?ls = "map (shorten cap) (split_lines (unread content s))"
  have q: "\<not> tu_done t" "\<forall>n. \<not> tu_cancelled t n" "\<forall>p. \<not> tu_ioerr t p" "tu_content t = content"
    using assms(1) by (simp_all add: quiet_def)
  obtain s' where d: "drain_lines (tu_cancelled t) (tu_ioerr t) cfg content s [] = (?ls, DrainEOF, s')"
    "src_inv cfg content s'" "unread content s' = []" "curIno s' = curIno s" "\<not> rd_closed s'"
    using drain_lines_cut[OF q(2,3) assms(4,2,3,5), of "[]"] unfolding append_Nil by blast
  have "offset s' = int (length content)" using unread_Nil_offset[OF d(2,3)] .
  then have "snd (checkRotation cfg (tu_path t) (tu_reopen_fails t) s') = s'"
    using assms(1) d(4) by (auto simp: quiet_def checkRotation_def)
  then have "run_loop cfg parse (t # ts) s out saved =
      (let out' = out @ List.map_filter (consumeLine cfg parse) ?ls in
       case tu_wake t of
         WakeDone \<Rightarrow> (out', saved @ [persistOffset cfg s'], s', True)
       | WakeSave \<Rightarrow> run_loop cfg parse ts s' out' (saved @ [persistOffset cfg s'])
       | WakePoll \<Rightarrow> run_loop cfg parse ts s' out' saved)"
    using q d(1) by (cases "tu_wake t") (simp_all add: source_drain_def Let_def)
  then show ?thesis using d by blast
qed

text \<open>What a run that starts from the record of another run has to read: the bytes behind the recorded position when it is
  the same file, and the whole file when it was replaced or cut, or when reading starts at the beginning anyway.\<close>

definition new_bytes :: "FileSourceConfig \<Rightarrow> bytes \<Rightarrow> 64 word \<Rightarrow> fileinfo \<Rightarrow> bytes" where
  "new_bytes cfg content ino info =
     (if FromBeginning cfg \<or> fi_ino info \<noteq> ino \<or> length (fi_content info) < length content then fi_content info
      else drop (length content) (fi_content info))"

lemma restart_state:
  assumes "src_inv cfg content s" "unread content s = []" "curIno s \<noteq> 0" "fi_symlink info \<longrightarrow> FollowSymlinks cfg"
  shows "\<exists>s2. openInitial cfg (Some (Inr (persistOffset cfg s))) (settled info) = Inr s2
    \<and> src_inv cfg (fi_content info) s2 \<and> unread (fi_content info) s2 = new_bytes cfg content (curIno s) info
    \<and> \<not> rd_closed s2 \<and> curIno s2 = fi_ino info"
proof -
  let ?k = "if FromBeginning cfg \<or> fi_ino info \<noteq> curIno s \<or> length (fi_content info) < length content then 0 else length content"
  have o: "offset s = int (length content)" using unread_Nil_offset[OF assms(1,2)] .
  have st: "start_offset cfg (Some (Inr (persistOffset cfg s))) info = int ?k"
    using assms(3) by (auto simp: start_offset_def persistOffset_def Let_def o)
  let ?s2 = "\<lparr>curIno = fi_ino info, offset = int ?k, rd_pos = ?k, rd_buf = [], rd_closed = False\<rparr>"
  have "openInitial cfg (Some (Inr (persistOffset cfg s))) (settled info) = Inr ?s2"
    using assms(4) unfolding openInitial_settled Let_def st by auto
  then show ?thesis by (intro exI[of _ ?s2]) (auto simp: src_inv_def unread_def new_bytes_def)
qed

lemma split_lines_whole: "u = [] \<or> last u = LF \<Longrightarrow> split_lines u @ split_lines v = split_lines (u @ v)"
proof (induction "length u" arbitrary: u rule: less_induct)
  case less
  show ?case
  proof (cases u rule: line_cases)
    case 2
    then have "LF \<in> set u" using less.prems last_in_set by metis
    then show ?thesis using 2(2) by simp
  next
    case (3 l rest)
    have "rest = [] \<or> last rest = LF" using less.prems 3(1) by (cases "rest = []") auto
    then show ?thesis using less.hyps[of rest] 3 by (simp add: split_lines_line)
  qed simp
qed

text \<open>C17. No gap and no repetition across a restart. A run that reaches the end of its file and is stopped, and a later
  run that starts from the offset the first one saved, together emit the entries of every unread byte once: the first run
  those of the unread bytes \<open>u\<close>, the second those of \<open>v\<close>, which are the bytes added since when the file is the same one, and
  the whole file when it was replaced or cut short meanwhile (and always, if it is configured to read from the
  beginning). The entries are those of the lines, cut at the cap where they are longer (up to the discard limit). The
  lines of the two runs are the lines of the joined bytes when the stop does not fall inside a line; a line of which only
  a part was there at the stop is emitted in two pieces, since \<^verbatim>\<open>readLine\<close> hands on an unfinished last line at
  once.\<close>

theorem restart_exact:
  assumes "quiet cfg content (curIno s) t" "tu_wake t = WakeDone" "\<not> rd_closed s" "src_inv cfg content s" "curIno s \<noteq> 0"
    and "cap = buf_size (MaxLineBytes cfg)" "u = unread content s" "v = new_bytes cfg content (curIno s) info"
    and "no_long (cap + nat maxDiscardBytes) u" "no_long (cap + nat maxDiscardBytes) v"
    and "fi_symlink info \<longrightarrow> FollowSymlinks cfg" "quiet cfg (fi_content info) (fi_ino info) t2" "tu_wake t2 = WakeDone"
  shows "\<exists>off s1 off2 s2. run_loop cfg parse [t] s [] []
        = (List.map_filter (consumeLine cfg parse) (map (shorten cap) (split_lines u)), [off], s1, True)
    \<and> FileSource_Run cfg parse (Some (Inr off)) (settled info) [t2]
        = Inr (List.map_filter (consumeLine cfg parse) (map (shorten cap) (split_lines v)), [off2], s2, True)
    \<and> off_Offset off2 = int (length (fi_content info)) \<and> off_Inode off2 = fi_ino info
    \<and> concat (split_lines u @ split_lines v) = u @ v
    \<and> (u = [] \<or> last u = LF \<longrightarrow> split_lines u @ split_lines v = split_lines (u @ v))"
proof -
  obtain s1 where s1: "run_loop cfg parse [t] s [] []
      = (List.map_filter (consumeLine cfg parse) (map (shorten cap) (split_lines u)), [persistOffset cfg s1], s1, True)"
    "src_inv cfg content s1" "unread content s1 = []" "curIno s1 = curIno s"
    using quiet_turn[OF assms(1,3,4,6), of parse "[]" "[]" "[]"] assms(2,7,9) by (auto simp: Let_def)
  obtain s0 where s0: "openInitial cfg (Some (Inr (persistOffset cfg s1))) (settled info) = Inr s0"
    and z: "src_inv cfg (fi_content info) s0" "unread (fi_content info) s0 = v" "\<not> rd_closed s0" "curIno s0 = fi_ino info"
    using restart_state[OF s1(2,3) _ assms(11)] s1(4) assms(5,8) by auto
  have "quiet cfg (fi_content info) (curIno s0) t2" "no_long (cap + nat maxDiscardBytes) (unread (fi_content info) s0)"
    using assms(10,12) z(2,4) by simp_all
  then obtain s2 where s2: "run_loop cfg parse [t2] s0 [] []
      = (List.map_filter (consumeLine cfg parse) (map (shorten cap) (split_lines v)), [persistOffset cfg s2], s2, True)"
    "src_inv cfg (fi_content info) s2" "unread (fi_content info) s2 = []" "curIno s2 = curIno s0"
    using quiet_turn[OF _ z(3,1) assms(6), of t2 parse "[]" "[]" "[]"] assms(13) z(2) by (auto simp: Let_def)
  have r: "FileSource_Run cfg parse (Some (Inr (persistOffset cfg s1))) (settled info) [t2]
      = Inr (List.map_filter (consumeLine cfg parse) (map (shorten cap) (split_lines v)), [persistOffset cfg s2], s2, True)"
    unfolding FileSource_Run_def s0 using s2(1) by simp
  have o: "off_Offset (persistOffset cfg s2) = int (length (fi_content info))" "off_Inode (persistOffset cfg s2) = fi_ino info"
    using unread_Nil_offset[OF s2(2,3)] s2(4) z(4) by (simp_all add: persistOffset_def)
  have c: "concat (split_lines u @ split_lines v) = u @ v" by (simp add: concat_split_lines)
  have w: "u = [] \<or> last u = LF \<longrightarrow> split_lines u @ split_lines v = split_lines (u @ v)" using split_lines_whole[of u v] by blast
  show ?thesis
    by (rule exI[of _ "persistOffset cfg s1"], rule exI[of _ s1], rule exI[of _ "persistOffset cfg s2"], rule exI[of _ s2])
      (intro conjI s1(1) r o c w)
qed

definition example_turn :: "bytes \<Rightarrow> turn" where
  "example_turn c = \<lparr>tu_done = False, tu_cancelled = (\<lambda>_. False), tu_ioerr = (\<lambda>_. False), tu_content = c,
     tu_path = Some \<lparr>fi_symlink = False, fi_ino = 7, fi_content = c\<rparr>, tu_reopen_fails = False, tu_wake = WakeDone\<rparr>"

theorem restart_exact_witness:
  "\<exists>off s1 off2 s2 es es2. run_loop example_src (\<lambda>l. Inr (zero_entry\<lparr>Message := l\<rparr>)) [example_turn (''ok'' @ [LF])]
        (example_start\<lparr>offset := 0, rd_pos := 0\<rparr>) [] [] = (es, [off], s1, True)
    \<and> map Message es = [''ok'' @ [LF]]
    \<and> FileSource_Run example_src (\<lambda>l. Inr (zero_entry\<lparr>Message := l\<rparr>)) (Some (Inr off))
        (settled \<lparr>fi_symlink = False, fi_ino = 7, fi_content = (''ok'' @ [LF]) @ ''an entry of some length'' @ [LF]\<rparr>)
        [example_turn ((''ok'' @ [LF]) @ ''an entry of some length'' @ [LF])] = Inr (es2, [off2], s2, True)
    \<and> map Message es2 = [''an entry of some'']"
proof -
  let ?p = "\<lambda>l. Inr (zero_entry\<lparr>Message := l\<rparr>) :: (perror, LogEntry) result"
  let ?s = "example_start\<lparr>offset := 0, rd_pos := 0\<rparr>" and ?c = "''ok'' @ [LF]" and ?x = "''an entry of some length'' @ [LF]"
  let ?i = "\<lparr>fi_symlink = False, fi_ino = 7, fi_content = ?c @ ?x\<rparr>"
  have c: "\<not> rd_closed ?s" "src_inv example_src ?c ?s" "curIno ?s \<noteq> 0" "curIno ?s = 7" by code_simp+
  have cap: "16 = buf_size (MaxLineBytes example_src)" by code_simp
  have u: "?c = unread ?c ?s" and v: "?x = new_bytes example_src ?c (curIno ?s) ?i" by code_simp+
  have q: "quiet example_src ?c (curIno ?s) (example_turn ?c)" "quiet example_src (fi_content ?i) (fi_ino ?i) (example_turn (?c @ ?x))"
    unfolding c(4) by (simp_all add: quiet_def example_turn_def)
  have n: "no_long (16 + nat maxDiscardBytes) ?c" "no_long (16 + nat maxDiscardBytes) ?x"
    by (rule no_long_short, simp add: maxDiscardBytes_def)+
  have w: "tu_wake (example_turn b) = WakeDone" for b by (simp add: example_turn_def)
  have e: "map Message (List.map_filter (consumeLine example_src ?p) (map (shorten 16) (split_lines ?c))) = [?c]"
    "map Message (List.map_filter (consumeLine example_src ?p) (map (shorten 16) (split_lines ?x))) = [''an entry of some'']" by code_simp+
  have i: "fi_symlink ?i \<longrightarrow> FollowSymlinks example_src" by simp
  from restart_exact[OF q(1) w c(1,2,3) cap u v n i q(2) w, of ?p]
  show ?thesis by (elim exE conjE) (intro exI conjI; (assumption | rule e))
qed

end
