(* ===== verification/Line_Sources.thy ===== *)
theory Line_Sources
  imports File_Source
begin

text \<open>
  \<^verbatim>\<open>src/internal/source/source.go\<close>, \<^verbatim>\<open>journal.go\<close>, \<^verbatim>\<open>kmsg_linux.go\<close> and \<^verbatim>\<open>dmesg.go\<close>: the bounded emit function and the
  sources that read records from a subprocess or from the kernel. What the subprocess and the kernel
  deliver, when a read fails and when the context is cancelled are arguments.
\<close>

section \<open>Bounded emit\<close>

text \<open>The sink as the entries it has taken so far, and the drop counter. \<open>at_once\<close> says whether the sink takes
  the entry at the first attempt, \<open>in_time\<close> whether it does so before the timer fires.\<close>

record emit_state =
  em_sink :: "LogEntry list"
  em_drops :: "64 word"

definition bounded_emit :: "bool \<Rightarrow> bool \<Rightarrow> LogEntry option \<Rightarrow> emit_state \<Rightarrow> emit_state" where
  "bounded_emit at_once in_time e s =
     (case e of
        None \<Rightarrow> s
      | Some x \<Rightarrow>
          if at_once then s\<lparr>em_sink := em_sink s @ [x]\<rparr>
          else if in_time then s\<lparr>em_sink := em_sink s @ [x]\<rparr>
          else s\<lparr>em_drops := em_drops s + 1\<rparr>)"

fun emit_all :: "(bool \<times> bool) list \<Rightarrow> LogEntry option list \<Rightarrow> emit_state \<Rightarrow> emit_state" where
  "emit_all ((a, b) # os) (e # es) s = emit_all os es (bounded_emit a b e s)"
| "emit_all _ _ s = s"

section \<open>From a record to an entry\<close>

text \<open>\<^verbatim>\<open>emitRecord\<close>, and the same steps in the loops of the other sources: a record that does not parse is only
  logged.\<close>

definition emitRecord :: "string \<Rightarrow> Parser \<Rightarrow> bytes \<Rightarrow> LogEntry option" where
  "emitRecord name parse rec =
     (case parse rec of
        Inl err \<Rightarrow> None
      | Inr e \<Rightarrow> Some (SanitizeUTF8 (e\<lparr>Source := name\<rparr>)))"

section \<open>The journal\<close>

record JournalSourceConfig =
  j_Name :: string
  j_Path :: string
  j_Units :: "string list"
  j_MinPriority :: int
  j_FromBeginning :: bool
  j_Binary :: string

definition NewJournalSource :: "bool \<Rightarrow> JournalSourceConfig \<Rightarrow> (string, JournalSourceConfig) result" where
  "NewJournalSource has_parser cfg =
     (if j_Name cfg = [] then Inl ''journal source: Name required''
      else if \<not> has_parser then Inl ''journal source: Parser required''
      else if j_MinPriority cfg < 0 \<or> 7 < j_MinPriority cfg then Inl ''journal source: MinPriority must be 0..7''
      else Inr (if j_Binary cfg = [] then cfg\<lparr>j_Binary := ''journalctl''\<rparr> else cfg))"

definition argv :: "JournalSourceConfig \<Rightarrow> string list" where
  "argv cfg =
     [''-o'', ''export'']
     @ (if \<not> j_FromBeginning cfg then [''-f''] else [])
     @ (if j_Path cfg \<noteq> [] then [''--directory'', j_Path cfg] else [])
     @ concat (map (\<lambda>u. [''--unit'', u]) (j_Units cfg))
     @ (if 0 < j_MinPriority cfg then [''--priority'', dec_digits (nat (j_MinPriority cfg))] else [])"

datatype stream_end = StreamEOF | StreamErr

text \<open>The loop of \<^verbatim>\<open>consume\<close> over the results of \<^verbatim>\<open>ReadString\<close>: each line with its newline, then what is left with
  the error that ends the stream. Returned are the records handed to \<^verbatim>\<open>emitRecord\<close> and whether a read
  error is reported.\<close>

fun consume_loop :: "(nat \<Rightarrow> bool) \<Rightarrow> stream_end \<Rightarrow> nat \<Rightarrow> bytes list \<Rightarrow> bytes \<Rightarrow> bytes list \<Rightarrow> bytes list \<times> bool" where
  "consume_loop cancelled fin n [] buf recs =
     (if cancelled n then (recs, False)
      else if fin = StreamErr then (recs, True)
      else (if buf \<noteq> [] then recs @ [buf] else recs, False))"
| "consume_loop cancelled fin n (line # rest) buf recs =
     (if cancelled n then (recs, False)
      else if last line = LF
      then if line = [LF]
           then if buf \<noteq> [] then consume_loop cancelled fin (n + 1) rest [] (recs @ [buf])
                else consume_loop cancelled fin (n + 1) rest buf recs
           else consume_loop cancelled fin (n + 1) rest (buf @ line) recs
      else if fin = StreamErr then (recs, True)
      else (recs @ [buf @ line], False))"

definition journal_consume ::
  "(nat \<Rightarrow> bool) \<Rightarrow> stream_end \<Rightarrow> string \<Rightarrow> Parser \<Rightarrow> bytes \<Rightarrow> LogEntry list \<times> bool" where
  "journal_consume cancelled fin name parse out =
     (case consume_loop cancelled fin 0 (split_lines out) [] [] of
        (recs, failed) \<Rightarrow> (List.map_filter (emitRecord name parse) recs, failed))"

text \<open>\<^verbatim>\<open>Run\<close>: the pipes and the start of the subprocess can fail; after a read error it is killed, otherwise its exit
  status is the result. The entries are those emitted meanwhile.\<close>

record journal_proc =
  jp_stdout :: bool
  jp_stderr :: bool
  jp_start :: bool
  jp_out :: bytes
  jp_end :: stream_end
  jp_wait :: "string option"

definition Journal_Run :: "JournalSourceConfig \<Rightarrow> Parser \<Rightarrow> (nat \<Rightarrow> bool) \<Rightarrow> journal_proc \<Rightarrow> LogEntry list \<times> string option" where
  "Journal_Run cfg parse cancelled p =
     (if \<not> jp_stdout p then ([], Some ''journal source: stdout pipe'')
      else if \<not> jp_stderr p then ([], Some ''journal source: stderr pipe'')
      else if \<not> jp_start p then ([], Some ''journal source: start'')
      else case journal_consume cancelled (jp_end p) (j_Name cfg) parse (jp_out p) of
        (es, failed) \<Rightarrow> (es, if failed then Some ''journal read'' else jp_wait p))"

section \<open>The kernel log\<close>

datatype kread = KRecord bytes | KAgain | KEof | KPipe | KFail

text \<open>One turn of the loop: what the context says at its top, the result of the read, and what the context says
  while waiting.\<close>

type_synonym kturn = "bool \<times> kread \<times> bool"

datatype kstop = KRunning | KCancelled | KReadError

fun kmsg_loop :: "string \<Rightarrow> Parser \<Rightarrow> kturn list \<Rightarrow> LogEntry list \<Rightarrow> LogEntry list \<times> kstop" where
  "kmsg_loop name parse [] out = (out, KRunning)"
| "kmsg_loop name parse ((done, r, done_waiting) # turns) out =
     (if done then (out, KCancelled)
      else case r of
        KAgain \<Rightarrow> if done_waiting then (out, KCancelled) else kmsg_loop name parse turns out
      | KEof \<Rightarrow> if done_waiting then (out, KCancelled) else kmsg_loop name parse turns out
      | KPipe \<Rightarrow> kmsg_loop name parse turns out
      | KFail \<Rightarrow> (out, KReadError)
      | KRecord rec \<Rightarrow>
          if length rec = 0 then kmsg_loop name parse turns out
          else case emitRecord name parse rec of
            None \<Rightarrow> kmsg_loop name parse turns out
          | Some e \<Rightarrow> kmsg_loop name parse turns (out @ [e]))"

record KMsgSourceConfig =
  k_Name :: string
  k_Path :: string
  k_PollInterval :: int
  k_FromBeginning :: bool

definition NewKMsgSource :: "bool \<Rightarrow> KMsgSourceConfig \<Rightarrow> (string, KMsgSourceConfig) result" where
  "NewKMsgSource has_parser cfg =
     (if k_Name cfg = [] then Inl ''kmsg source: Name required''
      else if \<not> has_parser then Inl ''kmsg source: Parser required''
      else Inr (cfg\<lparr>k_Path := if k_Path cfg = [] then ''/dev/kmsg'' else k_Path cfg,
                    k_PollInterval := if k_PollInterval cfg \<le> 0 then 200 * 1000000 else k_PollInterval cfg\<rparr>))"

text \<open>\<^verbatim>\<open>Run\<close>: opening fails, or the loop runs on the records from the oldest one, or from the end of the buffer
  when that is asked for and the seek works. \<open>old\<close> are the turns that read the historical buffer.\<close>

definition KMsg_Run ::
  "KMsgSourceConfig \<Rightarrow> Parser \<Rightarrow> bool \<Rightarrow> bool \<Rightarrow> kturn list \<Rightarrow> kturn list \<Rightarrow> (string, LogEntry list \<times> kstop) result" where
  "KMsg_Run cfg parse open_ok seek_ok old new =
     (if \<not> open_ok then Inl ''kmsg open''
      else let skipped = \<not> k_FromBeginning cfg \<and> seek_ok in
        Inr (kmsg_loop (k_Name cfg) parse (if skipped then new else old @ new) []))"

text \<open>\<^verbatim>\<open>kmsg_other.go\<close>: off Linux the constructor accepts any configuration, and \<^verbatim>\<open>Run\<close> fails for good.\<close>

definition NewKMsgSource_other :: "KMsgSourceConfig \<Rightarrow> (string, KMsgSourceConfig) result" where
  "NewKMsgSource_other cfg = Inr cfg"

definition KMsg_Run_other :: "KMsgSourceConfig \<Rightarrow> (string, LogEntry list \<times> kstop) result" where
  "KMsg_Run_other cfg = Inl ''kmsg source is supported only on linux''"

section \<open>dmesg\<close>

text \<open>The subprocess: whether its pipe and its start succeed, its output, how the output ends, and whether it
  exits with success.\<close>

record dmesg_proc =
  d_pipe :: bool
  d_start :: bool
  d_out :: bytes
  d_end :: stream_end
  d_wait :: bool

definition RunDmesg :: "Parser option \<Rightarrow> dmesg_proc \<Rightarrow> LogEntry list \<times> string option" where
  "RunDmesg parser p =
     (case parser of
        None \<Rightarrow> ([], Some ''dmesg: Parser required'')
      | Some parse \<Rightarrow>
          if \<not> d_pipe p then ([], Some ''dmesg pipe'')
          else if \<not> d_start p then ([], Some ''dmesg start'')
          else if d_end p = StreamErr then ([], Some ''dmesg read'')
          else let es = List.map_filter (emitRecord ''dmesg'' parse) (split_lines (d_out p)) in
            (es, if d_wait p then None else Some ''dmesg exit''))"

section \<open>Emit loses nothing silently\<close>

fun somes :: "'a option list \<Rightarrow> 'a list" where
  "somes [] = []"
| "somes (None # es) = somes es"
| "somes (Some x # es) = x # somes es"

lemma emit_all_split:
  assumes "length os = length es"
  shows "\<exists>ds. em_sink (emit_all os es s) = em_sink s @ ds \<and> subseq ds (somes es)
    \<and> em_drops (emit_all os es s) = em_drops s + of_nat (length (somes es) - length ds)
    \<and> length ds \<le> length (somes es)"
  using assms
proof (induction os es arbitrary: s rule: list_induct2)
  case (Cons o' os e es)
  obtain a b where o: "o' = (a, b)" by (cases o')
  let ?s = "bounded_emit a b e s"
  obtain ds where ds: "em_sink (emit_all os es ?s) = em_sink ?s @ ds" "subseq ds (somes es)"
    "em_drops (emit_all os es ?s) = em_drops ?s + of_nat (length (somes es) - length ds)"
    "length ds \<le> length (somes es)"
    using Cons.IH by blast
  show ?case
  proof (cases e)
    case None
    then show ?thesis using ds o by (intro exI[of _ ds]) (simp add: bounded_emit_def)
  next
    case (Some x)
    show ?thesis
    proof (cases "a \<or> b")
      case True
      then have "?s = s\<lparr>em_sink := em_sink s @ [x]\<rparr>" using Some by (auto simp: bounded_emit_def)
      then show ?thesis using ds o Some
        by (intro exI[of _ "x # ds"]) simp
    next
      case False
      then have "?s = s\<lparr>em_drops := em_drops s + 1\<rparr>" using Some by (auto simp: bounded_emit_def)
      then show ?thesis using ds o Some
        by (intro exI[of _ ds]) (simp add: Suc_diff_le list_emb_Cons)
    qed
  qed
qed simp

text \<open>Bounded emit loses nothing silently: after any sequence of emits, with whatever readiness of the sink, the
  sink has received, in order, a subsequence of the non-nil entries, and the counter has grown by
  exactly the number of entries that are missing (modulo its 64 bits).\<close>

theorem emit_accounts:
  assumes "length os = length es"
  shows "\<exists>ds. em_sink (emit_all os es s) = em_sink s @ ds \<and> subseq ds (somes es)
    \<and> em_drops (emit_all os es s) = em_drops s + of_nat (length (somes es) - length ds)"
  using emit_all_split[OF assms] by blast

theorem emit_accounts_witness:
  "\<exists>ds. em_sink (emit_all [(True, False), (False, False), (False, True)] [Some zero_entry, Some zero_entry, None]
        \<lparr>em_sink = [], em_drops = 0\<rparr>) = ds \<and> length ds = 1
    \<and> em_drops (emit_all [(True, False), (False, False), (False, True)] [Some zero_entry, Some zero_entry, None]
        \<lparr>em_sink = [], em_drops = 0\<rparr>) = 1"
  using emit_accounts[of "[(True, False), (False, False), (False, True)]" "[Some zero_entry, Some zero_entry, None]"
      "\<lparr>em_sink = [], em_drops = 0\<rparr>"]
  by (simp add: bounded_emit_def)

section \<open>Journal records are delivered whole\<close>

lemma split_lines_append:
  "a = [] \<or> last a = LF \<Longrightarrow> split_lines (a @ b) = split_lines a @ split_lines b"
proof (induction "length a" arbitrary: a rule: less_induct)
  case less
  show ?case
  proof (cases a rule: line_cases)
    case 2
    then have "LF \<in> set a" using less.prems last_in_set[of a] by auto
    then show ?thesis using 2 by simp
  next
    case (3 l rest)
    have "rest = [] \<or> last rest = LF" using less.prems 3 by (cases rest) auto
    then have "split_lines (rest @ b) = split_lines rest @ split_lines b" using less.hyps[of rest] 3 by simp
    then show ?thesis using 3 split_lines_line[OF 3(2), of rest] split_lines_line[OF 3(2), of "rest @ b"] by simp
  qed simp
qed

lemma split_lines_last:
  "a = [] \<or> last a = LF \<Longrightarrow> l \<in> set (split_lines a) \<Longrightarrow> last l = LF"
proof (induction "length a" arbitrary: a rule: less_induct)
  case less
  show ?case
  proof (cases a rule: line_cases)
    case 1
    then show ?thesis using less by simp
  next
    case 2
    then have "LF \<in> set a" using less.prems last_in_set[of a] by auto
    then show ?thesis using 2 by simp
  next
    case (3 l' rest)
    have "rest = [] \<or> last rest = LF" using less.prems 3 by (cases rest) auto
    then show ?thesis using less.hyps[of rest] less.prems(2) 3 split_lines_line[OF 3(2), of rest] by auto
  qed
qed

lemma consume_lines:
  assumes "\<forall>l\<in>set ls. last l = LF \<and> l \<noteq> [LF]"
  shows "consume_loop (\<lambda>_. False) fin n (ls @ rest) buf recs
    = consume_loop (\<lambda>_. False) fin (n + length ls) rest (buf @ concat ls) recs"
  using assms
proof (induction ls arbitrary: n buf)
  case (Cons l ls)
  then show ?case by simp
qed simp

lemma consume_blanks:
  shows "consume_loop (\<lambda>_. False) fin n (replicate k [LF] @ rest) [] recs = consume_loop (\<lambda>_. False) fin (n + k) rest [] recs"
  by (induction k arbitrary: n) simp_all

definition record_ok :: "bytes \<Rightarrow> bool" where
  "record_ok r \<longleftrightarrow> r \<noteq> [] \<and> last r = LF \<and> [LF] \<notin> set (split_lines r)"

text \<open>The export format: each record is followed by at least one blank line.\<close>

definition export :: "(bytes \<times> nat) list \<Rightarrow> bytes" where
  "export rs = concat (map (\<lambda>(r, k). r @ LF # replicate k LF) rs)"

lemma split_lines_blanks: "split_lines (replicate k LF @ t) = replicate k [LF] @ split_lines t"
  using split_lines_line[of "[]"] by (induction k) simp_all

lemma consume_export:
  assumes "\<forall>(r, k)\<in>set rs. record_ok r"
  shows "\<exists>n'. consume_loop (\<lambda>_. False) fin n (split_lines (export rs @ t)) [] recs
    = consume_loop (\<lambda>_. False) fin n' (split_lines t) [] (recs @ map fst rs)"
  using assms
proof (induction rs arbitrary: n recs)
  case (Cons rk rs)
  obtain r k where rk: "rk = (r, k)" by (cases rk)
  then have r: "r \<noteq> []" "last r = LF" "[LF] \<notin> set (split_lines r)" using Cons.prems by (auto simp: record_ok_def)
  have s: "split_lines (export (rk # rs) @ t) = split_lines r @ [LF] # replicate k [LF] @ split_lines (export rs @ t)"
    using split_lines_append[of r "LF # replicate k LF @ export rs @ t"] r(2) split_lines_line[of "[]"]
      split_lines_blanks[of k "export rs @ t"]
    by (simp add: export_def rk)
  have ls: "\<forall>l\<in>set (split_lines r). last l = LF \<and> l \<noteq> [LF]" using split_lines_last[of r] r(2,3) by auto
  show ?case
    unfolding s consume_lines[OF ls]
    using Cons.IH[of _ "recs @ [r]"] Cons.prems rk r(1) consume_blanks
    by (simp add: concat_split_lines)
qed (auto simp: export_def)

lemma consume_tail:
  assumes "[LF] \<notin> set (split_lines t)"
  shows "consume_loop (\<lambda>_. False) fin n (split_lines t) buf recs
    = (if fin = StreamErr then (recs, True) else (if buf @ t \<noteq> [] then recs @ [buf @ t] else recs, False))"
  using assms
proof (induction "length t" arbitrary: t n buf rule: less_induct)
  case less
  show ?case
  proof (cases t rule: line_cases)
    case 1
    then show ?thesis by simp
  next
    case 2
    then have "last t \<noteq> LF" using last_in_set[of t] by metis
    then show ?thesis using 2 split_lines_tail[OF 2(2,1)] by simp
  next
    case (3 l rest)
    then have s: "split_lines t = (l @ [LF]) # split_lines rest" using split_lines_line by simp
    then have "l \<noteq> []" "[LF] \<notin> set (split_lines rest)" using less.prems by auto
    then show ?thesis using s 3 less.hyps[of rest "n + 1" "buf @ l @ [LF]"] by simp
  qed
qed

text \<open>C36. The journal stream is cut into its records: of a stream of export records, each followed by one or
  more blank lines, and an unfinished last record, every finished record is handed on whole, once
  and in order; the unfinished one is handed on when the stream ends, and is given up with an error
  when the stream breaks.\<close>

theorem journal_records:
  assumes "\<forall>n. \<not> cancelled n" "\<forall>(r, k)\<in>set rs. record_ok r" "[LF] \<notin> set (split_lines t)"
  shows "journal_consume cancelled fin name parse (export rs @ t)
    = (List.map_filter (emitRecord name parse) (map fst rs @ (if t \<noteq> [] \<and> fin = StreamEOF then [t] else [])), fin = StreamErr)"
proof -
  have c: "cancelled = (\<lambda>_. False)" using assms(1) by auto
  obtain n' where "consume_loop cancelled fin 0 (split_lines (export rs @ t)) [] []
      = consume_loop cancelled fin n' (split_lines t) [] (map fst rs)"
    using consume_export[OF assms(2), of fin 0 t "[]"] by (auto simp: c)
  then show ?thesis
    using consume_tail[OF assms(3), of fin n' "[]" "map fst rs"]
    by (cases fin) (simp_all add: journal_consume_def c)
qed

theorem journal_records_witness:
  "\<exists>e1 e2. journal_consume (\<lambda>_. False) StreamEOF ''journal'' (\<lambda>l. Inr (zero_entry\<lparr>Message := l\<rparr>))
      (export [(''A=1'' @ LF # ''B=2'' @ [LF], 1)] @ ''C='')
    = ([e1, e2], False) \<and> Message e1 = ''A=1'' @ LF # ''B=2'' @ [LF] \<and> Message e2 = ''C=''"
proof -
  have r: "record_ok (''A=1'' @ LF # ''B=2'' @ [LF])" "[LF] \<notin> set (split_lines ''C='')" by code_simp+
  have v: "ValidString (''A=1'' @ LF # ''B=2'' @ [LF])" "ValidString ''C=''" by code_simp+
  show ?thesis
    using journal_records[of "\<lambda>_. False" "[(''A=1'' @ LF # ''B=2'' @ [LF], 1)]" "''C=''" StreamEOF "''journal''"
        "\<lambda>l. Inr (zero_entry\<lparr>Message := l\<rparr>)"] r v
    by (simp add: emitRecord_def SanitizeUTF8_def List.map_filter_simps)
qed

section \<open>The kernel log survives overruns\<close>

fun turn_record :: "kturn \<Rightarrow> bytes option" where
  "turn_record (_, KRecord r, _) = (if r = [] then None else Some r)"
| "turn_record _ = None"

fun turn_goes_on :: "kturn \<Rightarrow> bool" where
  "turn_goes_on (True, _, _) = False"
| "turn_goes_on (False, KFail, _) = False"
| "turn_goes_on (False, KAgain, d) = (\<not> d)"
| "turn_goes_on (False, KEof, d) = (\<not> d)"
| "turn_goes_on (False, _, _) = True"

lemma kmsg_loop_prefix:
  "list_all turn_goes_on turns \<Longrightarrow> kmsg_loop name parse (turns @ later) out
     = kmsg_loop name parse later (out @ List.map_filter (emitRecord name parse) (List.map_filter turn_record turns))"
proof (induction turns arbitrary: out)
  case (Cons t turns)
  obtain d r w where t: "t = (d, r, w)" by (cases t)
  then show ?case using Cons
    by (cases r; cases d) (auto simp: List.map_filter_simps split: option.splits)
qed (simp add: List.map_filter_simps)

text \<open>Whatever the kernel answers before (no data, an overrun, records that do not parse), every record is
  delivered in order, until the context ends or a read fails.\<close>

lemma kmsg_delivers:
  fixes name parse
  assumes "list_all turn_goes_on turns"
  defines "es \<equiv> List.map_filter (emitRecord name parse) (List.map_filter turn_record turns)"
  shows "kmsg_loop name parse turns [] = (es, KRunning)"
    "kmsg_loop name parse (turns @ (False, KFail, d) # later) [] = (es, KReadError)"
    "kmsg_loop name parse (turns @ (True, r, d) # later) [] = (es, KCancelled)"
  using kmsg_loop_prefix[OF assms(1), of name parse] kmsg_loop_prefix[OF assms(1), of name parse "[]"]
  by (simp_all add: es_def)

end
