(* ===== verification/Oneshot_Sources.thy ===== *)
theory Oneshot_Sources
  imports Line_Sources Oneshot_Merge
begin

text \<open>
  \<^verbatim>\<open>src/internal/oneshot/sources.go\<close> and \<^verbatim>\<open>exec.go\<close>: the sources of \<^verbatim>\<open>blackboxd dump\<close>. File contents and the
  outcome of subprocesses are arguments. What is proved: a file, a journal export and the kernel log
  yield exactly the entries of their records that parse and pass the filter, in order.
\<close>

section \<open>Subprocesses\<close>

text \<open>\<open>run\<close> is the outcome of the command: an error, or its standard output.\<close>

type_synonym runner = "string \<Rightarrow> string list \<Rightarrow> (string, bytes) result"

definition captureCommand :: "runner \<Rightarrow> string \<Rightarrow> string list \<Rightarrow> (string, bytes) result" where
  "captureCommand run name args = (case run name args of Inl e \<Rightarrow> Inl (name @ '': '' @ e) | Inr out \<Rightarrow> Inr out)"

section \<open>Files\<close>

record os_FileSource =
  f_Label :: string
  f_Path :: string

definition FileSource_Name :: "os_FileSource \<Rightarrow> string" where
  "FileSource_Name f = (if f_Label f \<noteq> [] then f_Label f else f_Path f)"

text \<open>\<open>content\<close> are the bytes that can be read, \<^const>\<open>None\<close> when the file does not open. A read error ends the loop
  like the end of the file.\<close>

fun read_loop :: "string \<Rightarrow> Parser \<Rightarrow> Filter \<Rightarrow> bytes list \<Rightarrow> LogEntry list \<Rightarrow> LogEntry list" where
  "read_loop name parse flt [] acc = acc"
| "read_loop name parse flt (line # rest) acc =
     (case parse line of
        Inl e \<Rightarrow> read_loop name parse flt rest acc
      | Inr entry \<Rightarrow>
          if Passes flt (Timestamp entry)
          then read_loop name parse flt rest (acc @ [SanitizeUTF8 (entry\<lparr>Source := name\<rparr>)])
          else read_loop name parse flt rest acc)"

definition FileSource_Read :: "os_FileSource \<Rightarrow> Parser \<Rightarrow> bytes option \<Rightarrow> Filter \<Rightarrow> (string, LogEntry list) result" where
  "FileSource_Read f parse content flt =
     (case content of
        None \<Rightarrow> Inl (''open '' @ f_Path f)
      | Some c \<Rightarrow> Inr (read_loop (FileSource_Name f) parse flt (split_lines c) []))"

section \<open>The journal\<close>

record os_JournalSource =
  oj_Label :: string
  oj_Path :: string
  oj_Units :: "string list"
  oj_Priority :: int
  oj_Since :: string
  oj_Until :: string

definition JournalSource_Name :: "os_JournalSource \<Rightarrow> string" where
  "JournalSource_Name j = (if oj_Label j \<noteq> [] then oj_Label j else ''journal'')"

definition journal_args :: "os_JournalSource \<Rightarrow> string list" where
  "journal_args j =
     [''-o'', ''export'', ''--no-pager'']
     @ (if oj_Path j \<noteq> [] then [''--directory'', oj_Path j] else [])
     @ concat (map (\<lambda>u. [''--unit'', u]) (oj_Units j))
     @ (if 0 < oj_Priority j then [''--priority'', dec_digits (nat (oj_Priority j))] else [])
     @ (if oj_Since j \<noteq> [] then [''--since'', oj_Since j] else [])
     @ (if oj_Until j \<noteq> [] then [''--until'', oj_Until j] else [])"

text \<open>\<^verbatim>\<open>strings.Split(s, "\n\n")\<close>.\<close>

fun split_blank :: "string \<Rightarrow> string list" where
  "split_blank [] = [[]]"
| "split_blank [c] = [[c]]"
| "split_blank (a # b # s) =
     (if a = LF \<and> b = LF then [] # split_blank s
      else case split_blank (b # s) of [] \<Rightarrow> [[a]] | seg # segs \<Rightarrow> (a # seg) # segs)"

fun journal_loop :: "string \<Rightarrow> Parser \<Rightarrow> Filter \<Rightarrow> string list \<Rightarrow> LogEntry list \<Rightarrow> LogEntry list" where
  "journal_loop name parse flt [] acc = acc"
| "journal_loop name parse flt (r # rest) acc =
     (let rec = TrimSpace r in
      if rec = [] then journal_loop name parse flt rest acc
      else case parse rec of
        Inl e \<Rightarrow> journal_loop name parse flt rest acc
      | Inr entry \<Rightarrow>
          if \<not> Passes flt (Timestamp entry) then journal_loop name parse flt rest acc
          else journal_loop name parse flt rest (acc @ [SanitizeUTF8 (entry\<lparr>Source := name\<rparr>)]))"

definition JournalSource_Read :: "os_JournalSource \<Rightarrow> Parser \<Rightarrow> runner \<Rightarrow> Filter \<Rightarrow> (string, LogEntry list) result" where
  "JournalSource_Read j parse run flt =
     rbind (captureCommand run ''journalctl'' (journal_args j)) (\<lambda>out.
     Inr (journal_loop (JournalSource_Name j) parse flt (split_blank out) []))"

section \<open>dmesg\<close>

definition DmesgSource_Read :: "Parser \<Rightarrow> dmesg_proc \<Rightarrow> Filter \<Rightarrow> (string, LogEntry list) result" where
  "DmesgSource_Read parse p flt =
     (case RunDmesg (Some parse) p of
        (es, Some e) \<Rightarrow> Inl e
      | (es, None) \<Rightarrow>
          if IsZero (Since flt) \<and> IsZero (Until flt) then Inr es
          else Inr (filter (\<lambda>e. Passes flt (Timestamp e)) es))"

section \<open>Every source yields its passing records\<close>

text \<open>The entry a record contributes.\<close>

definition dump_entry :: "string \<Rightarrow> Parser \<Rightarrow> Filter \<Rightarrow> bytes \<Rightarrow> LogEntry option" where
  "dump_entry name parse flt rec =
     (case emitRecord name parse rec of
        None \<Rightarrow> None
      | Some e \<Rightarrow> if Passes flt (Timestamp e) then Some e else None)"

lemma dump_entry_parse:
  "dump_entry name parse flt rec =
     (case parse rec of Inl e \<Rightarrow> None
      | Inr e \<Rightarrow> if Passes flt (Timestamp e) then Some (SanitizeUTF8 (e\<lparr>Source := name\<rparr>)) else None)"
  by (simp add: dump_entry_def emitRecord_def sanitized split: sum.splits)

lemma read_loop_eq: "read_loop name parse flt ls acc = acc @ List.map_filter (dump_entry name parse flt) ls"
  by (induction ls arbitrary: acc) (simp_all add: List.map_filter_simps dump_entry_parse split: sum.splits)

lemma journal_loop_eq:
  "journal_loop name parse flt rs acc
     = acc @ List.map_filter (dump_entry name parse flt) (filter (\<lambda>r. r \<noteq> []) (map TrimSpace rs))"
  by (induction rs arbitrary: acc) (simp_all add: List.map_filter_simps dump_entry_parse Let_def split: sum.splits)

section \<open>The journal export is cut into the same records\<close>

definition nn_free :: "string \<Rightarrow> bool" where
  "nn_free s \<longleftrightarrow> split_blank s = [s]"

lemma split_blank_ne [simp]: "split_blank s \<noteq> []"
  by (induction s rule: split_blank.induct) (auto split: list.splits)

lemma split_blank_sep:
  assumes "nn_free s" "s \<noteq> []" "last s \<noteq> LF"
  shows "split_blank (s @ LF # LF # t) = s # split_blank t"
  using assms
proof (induction s rule: split_blank.induct)
  case (3 a b s)
  then have ab: "\<not> (a = LF \<and> b = LF)" and n: "nn_free (b # s)"
    by (auto simp: nn_free_def split: if_splits list.splits)
  have "split_blank ((b # s) @ LF # LF # t) = (b # s) # split_blank t"
    using 3(2)[OF ab n] 3(5) by simp
  then show ?case using ab by simp
qed auto

text \<open>A record has no blank line: nothing in it separates.\<close>

lemma record_nn_free:
  assumes "[LF] \<notin> set (split_lines r)" "last r = LF" "r \<noteq> []"
  shows "nn_free (butlast r) \<and> butlast r \<noteq> [] \<and> last (butlast r) \<noteq> LF \<and> hd r \<noteq> LF"
  using assms
proof (induction "length r" arbitrary: r rule: less_induct)
  case less
  show ?case
  proof (cases r rule: line_cases)
    case 1
    then show ?thesis using less.prems by simp
  next
    case 2
    then show ?thesis using less.prems(2) last_in_set[of r] by metis
  next
    case (3 l rest)
    have s: "split_lines r = (l @ [LF]) # split_lines rest" using 3 split_lines_line by simp
    then have l: "l \<noteq> []" using less.prems(1) by auto
    have plain: "nn_free (l @ t)" if "LF \<notin> set l" "t = [] \<or> t = LF # u \<and> nn_free u \<and> u \<noteq> [] \<and> hd u \<noteq> LF" for l t u
      using that
    proof (induction l)
      case Nil
      then show ?case by (cases u) (auto simp: nn_free_def)
    next
      case (Cons c l)
      then have "nn_free (l @ t)" "c \<noteq> LF" by auto
      then show ?case by (cases "l @ t") (auto simp: nn_free_def)
    qed
    show ?thesis
    proof (cases "rest = []")
      case True
      then show ?thesis using 3 l plain[OF 3(2), of "[]"] last_in_set[OF l] by (cases l) auto
    next
      case False
      then have ih: "nn_free (butlast rest)" "butlast rest \<noteq> []" "last (butlast rest) \<noteq> LF" "hd rest \<noteq> LF"
        using less.hyps[of rest] less.prems s 3 by auto
      have b: "butlast r = l @ LF # butlast rest" using 3 False by (simp add: butlast_append)
      have "hd (butlast rest) \<noteq> LF" using ih(2,4) by (cases rest) (auto split: if_splits)
      then have "nn_free (butlast r)" unfolding b using plain[OF 3(2), of "LF # butlast rest" "butlast rest"] ih by simp
      then show ?thesis using b ih l 3 by (cases l) auto
    qed
  qed
qed

definition trims :: "string list \<Rightarrow> string list" where
  "trims rs = filter (\<lambda>r. r \<noteq> []) (map TrimSpace rs)"

lemma trims_blanks: "u = [] \<or> hd u \<noteq> LF \<Longrightarrow> trims (split_blank (replicate k LF @ u)) = trims (split_blank u)"
proof (induction k rule: less_induct)
  case (less k)
  consider "k = 0" | "k = 1" | j where "k = Suc (Suc j)" by (metis One_nat_def old.nat.exhaust)
  then show ?case
  proof cases
    case 2
    then show ?thesis using less.prems
      by (cases u) (auto simp: trims_def split: list.splits)
  next
    case 3
    then show ?thesis using less by (simp add: trims_def)
  qed simp
qed

lemma trims_export:
  "\<forall>(r, k)\<in>set rs. record_ok r \<Longrightarrow> trims (split_blank (export rs)) = trims (map fst rs)"
proof (induction rs)
  case (Cons rk rs)
  obtain r k where rk: "rk = (r, k)" by (cases rk)
  then have r: "r \<noteq> []" "last r = LF" "[LF] \<notin> set (split_lines r)" using Cons.prems by (auto simp: record_ok_def)
  note b = record_nn_free[OF r(3,2,1)]
  have re: "butlast r @ [LF] = r" using r by (metis append_butlast_last_id)
  have hd: "export rs = [] \<or> hd (export rs) \<noteq> LF"
  proof (cases rs)
    case Nil
    then show ?thesis by (simp add: export_def)
  next
    case (Cons q qs)
    obtain r' k' where q: "q = (r', k')" by (cases q)
    then have "record_ok r'" using Cons.prems Cons by simp
    then have "hd r' \<noteq> LF" "r' \<noteq> []" using record_nn_free[of r'] by (auto simp: record_ok_def)
    then show ?thesis using Cons q by (simp add: export_def)
  qed
  have "export (rk # rs) = butlast r @ LF # LF # (replicate k LF @ export rs)"
    using arg_cong[OF re, of "\<lambda>z. z @ LF # replicate k LF @ export rs"] by (simp add: export_def rk)
  then have "split_blank (export (rk # rs)) = butlast r # split_blank (replicate k LF @ export rs)"
    using split_blank_sep[of "butlast r"] b by simp
  then have "trims (split_blank (export (rk # rs))) = trims [butlast r] @ trims (split_blank (export rs))"
    using trims_blanks[OF hd] by (simp add: trims_def)
  moreover have "TrimSpace (butlast r) = TrimSpace r" using TrimSpace_newline(2)[of "butlast r"] re by simp
  ultimately show ?case using Cons rk by (simp add: trims_def)
qed (simp add: export_def trims_def)

section \<open>What each source contributes\<close>

lemma map_filter_filter:
  "filter P (List.map_filter f xs) = List.map_filter (\<lambda>x. case f x of None \<Rightarrow> None | Some y \<Rightarrow> if P y then Some y else None) xs"
  by (induction xs) (auto simp: List.map_filter_simps split: option.splits)

lemma file_entries:
  "FileSource_Read f parse (Some c) flt = Inr (List.map_filter (dump_entry (FileSource_Name f) parse flt) (split_lines c))"
  by (simp add: FileSource_Read_def read_loop_eq)

lemma journal_entries:
  assumes "run ''journalctl'' (journal_args j) = Inr out"
  shows "JournalSource_Read j parse run flt
    = Inr (List.map_filter (dump_entry (JournalSource_Name j) parse flt) (trims (split_blank out)))"
  using assms by (simp add: JournalSource_Read_def captureCommand_def journal_loop_eq trims_def)

lemma dmesg_entries:
  assumes "d_pipe p" "d_start p" "d_end p = StreamEOF" "d_wait p"
  shows "DmesgSource_Read parse p flt = Inr (List.map_filter (dump_entry ''dmesg'' parse flt) (split_lines (d_out p)))"
proof -
  let ?es = "List.map_filter (emitRecord ''dmesg'' parse) (split_lines (d_out p))"
  have f: "filter (\<lambda>e. Passes flt (Timestamp e)) ?es = List.map_filter (dump_entry ''dmesg'' parse flt) (split_lines (d_out p))"
    unfolding map_filter_filter by (rule arg_cong[of _ _ "\<lambda>g. List.map_filter g _"]) (simp add: dump_entry_def fun_eq_iff)
  have z: "filter (\<lambda>e. Passes flt (Timestamp e)) ?es = ?es" if "IsZero (Since flt)" "IsZero (Until flt)"
    using that by (simp add: Passes_def)
  show ?thesis using assms f z by (simp add: DmesgSource_Read_def RunDmesg_def Let_def)
qed

text \<open>C37. The dump and the daemon cut the journal alike: on a stream of export records, each followed by blank
  lines, the one-shot reader hands to the parser exactly the records the daemon's reader emits, up
  to surrounding white space, and keeps those that parse and pass the filter, in order.\<close>

theorem journal_dump_agrees:
  assumes "\<forall>(r, k)\<in>set rs. record_ok r" "run ''journalctl'' (journal_args j) = Inr (export rs)"
  shows "JournalSource_Read j parse run flt
      = Inr (List.map_filter (dump_entry (JournalSource_Name j) parse flt) (trims (map fst rs)))
    \<and> consume_loop (\<lambda>_. False) StreamEOF 0 (split_lines (export rs)) [] [] = (map fst rs, False)"
proof
  show "JournalSource_Read j parse run flt
      = Inr (List.map_filter (dump_entry (JournalSource_Name j) parse flt) (trims (map fst rs)))"
    using journal_entries[of run j "export rs"] assms(2) trims_export[OF assms(1)] by simp
  obtain n' where "consume_loop (\<lambda>_. False) StreamEOF 0 (split_lines (export rs @ [])) [] []
      = consume_loop (\<lambda>_. False) StreamEOF n' (split_lines []) [] (map fst rs)"
    using consume_export[OF assms(1), of StreamEOF 0 "[]" "[]"] by auto
  then show "consume_loop (\<lambda>_. False) StreamEOF 0 (split_lines (export rs)) [] [] = (map fst rs, False)" by simp
qed

theorem journal_dump_agrees_witness:
  "\<exists>es. JournalSource_Read \<lparr>oj_Label = [], oj_Path = [], oj_Units = [], oj_Priority = 0, oj_Since = [], oj_Until = []\<rparr>
      (\<lambda>l. Inr (zero_entry\<lparr>Message := l\<rparr>)) (\<lambda>_ _. Inr (export [(''A=1'' @ [LF], 0), (''B=2'' @ [LF], 1)]))
      \<lparr>Since = 0, Until = 0\<rparr> = Inr es \<and> length es = 2"
proof -
  have r: "record_ok (''A=1'' @ [LF])" "record_ok (''B=2'' @ [LF])" by code_simp+
  have t: "trims (map fst [(''A=1'' @ [LF], 0::nat), (''B=2'' @ [LF], 1)]) = [''A=1'', ''B=2'']" by code_simp
  let ?j = "\<lparr>oj_Label = [], oj_Path = [], oj_Units = [], oj_Priority = 0, oj_Since = [], oj_Until = []\<rparr>"
  show ?thesis
    using journal_dump_agrees[of "[(''A=1'' @ [LF], 0), (''B=2'' @ [LF], 1)]" "\<lambda>_ _. Inr (export [(''A=1'' @ [LF], 0), (''B=2'' @ [LF], 1)])"
        ?j "\<lambda>l. Inr (zero_entry\<lparr>Message := l\<rparr>)" "\<lparr>Since = 0, Until = 0\<rparr>"] r
    unfolding t by (simp add: dump_entry_parse Passes_def List.map_filter_simps)
qed

text \<open>Every entry a source yields has passed the filter.\<close>

lemma dump_entry_passes: "e \<in> set (List.map_filter (dump_entry name parse flt) rs) \<Longrightarrow> Passes flt (Timestamp e) \<and> Source e = name"
  by (induction rs) (auto simp: List.map_filter_simps dump_entry_parse sanitized split: option.splits sum.splits if_splits)

end
