(* ===== verification/Security_Paths.thy ===== *)
theory Security_Paths
  imports Go_Strings
begin

text \<open>
  \<^verbatim>\<open>src/internal/security/paths.go\<close>: the lexical path checks. \<^verbatim>\<open>filepath.Clean\<close> is modelled by its documented
  rules on the segments of a path. What is proved: a path passes exactly when it is absolute and its
  cleaned segments continue those of an allowed prefix (the root apart, which allows only itself), so that neither \<^verbatim>\<open>..\<close> nor a longer sibling
  name escapes the allowlist.
\<close>

section \<open>Errors\<close>

text \<open>An error that wraps \<^verbatim>\<open>ErrInsecure\<close> of \<^verbatim>\<open>security.go\<close>, or one that does not; with its constant message.\<close>

datatype sec_error = ErrInsecure string | ErrPlain string

section \<open>Cleaning a path\<close>

abbreviation slash :: char where "slash \<equiv> CHR ''/''"

definition IsAbs :: "string \<Rightarrow> bool" where
  "IsAbs p = HasPrefix p [slash]"

text \<open>One segment after the other, the result reversed: empty and \<^verbatim>\<open>.\<close> segments go, \<^verbatim>\<open>..\<close> takes the segment
  before it, stays at the front of a relative path and disappears at the root.\<close>

definition clean_step :: "bool \<Rightarrow> string list \<Rightarrow> string \<Rightarrow> string list" where
  "clean_step rooted acc seg =
     (if seg = [] \<or> seg = ''.'' then acc
      else if seg = ''..'' then
        (case acc of
           [] \<Rightarrow> if rooted then [] else [''..'']
         | t # rest \<Rightarrow> if t = ''..'' then ''..'' # acc else rest)
      else seg # acc)"

definition clean_segs :: "string \<Rightarrow> string list" where
  "clean_segs p = rev (foldl (clean_step (IsAbs p)) [] (split_on slash p))"

definition Clean :: "string \<Rightarrow> string" where
  "Clean p =
     (if IsAbs p then (if clean_segs p = [] then [slash] else join_with slash (clean_segs p))
      else if clean_segs p = [] then ''.'' else tl (join_with slash (clean_segs p)))"

section \<open>The checks\<close>

definition DefaultAllowedPrefixes :: "string list" where
  "DefaultAllowedPrefixes =
     [''/var/log'', ''/var/log/journal'', ''/var/lib/blackboxd'', ''/dev/kmsg'', ''/run/log/journal'']"

definition CanonicalizePath :: "string \<Rightarrow> (sec_error, string) result" where
  "CanonicalizePath p =
     (if p = [] then Inl (ErrInsecure ''empty path'')
      else let cleaned = Clean p in
        if \<not> IsAbs cleaned then Inl (ErrInsecure ''path is not absolute'')
        else if list_ex (\<lambda>seg. seg = ''..'') (split_on slash cleaned)
        then Inl (ErrInsecure ''path contains traversal segments'')
        else Inr cleaned)"

fun allowed :: "string \<Rightarrow> string list \<Rightarrow> bool" where
  "allowed cleaned [] = False"
| "allowed cleaned (raw # rest) =
     (let p = Clean raw in
      if cleaned = p then True
      else if HasPrefix cleaned (p @ [slash]) then True
      else allowed cleaned rest)"

definition CheckUnderAllowlist :: "string \<Rightarrow> string list \<Rightarrow> (sec_error, unit) result" where
  "CheckUnderAllowlist cleaned allow =
     (if allow = [] then Inl (ErrInsecure ''empty allowlist'')
      else if allowed cleaned allow then Inr ()
      else Inl (ErrInsecure ''path is not under any allowed prefix''))"

definition ValidatePath :: "string \<Rightarrow> string list \<Rightarrow> (sec_error, string) result" where
  "ValidatePath p allow =
     rbind (CanonicalizePath p) (\<lambda>cleaned. rbind (CheckUnderAllowlist cleaned allow) (\<lambda>_. Inr cleaned))"

section \<open>Cleaned segments\<close>

definition plain_seg :: "string \<Rightarrow> bool" where
  "plain_seg s \<longleftrightarrow> s \<noteq> [] \<and> s \<noteq> ''.'' \<and> s \<noteq> ''..'' \<and> slash \<notin> set s"

lemma clean_step_plain:
  assumes "list_all plain_seg acc" "slash \<notin> set seg"
  shows "list_all plain_seg (clean_step True acc seg)"
  using assms by (auto simp: clean_step_def plain_seg_def split: list.splits)

lemma foldl_clean_plain:
  "list_all plain_seg acc \<Longrightarrow> \<forall>seg\<in>set segs. slash \<notin> set seg \<Longrightarrow> list_all plain_seg (foldl (clean_step True) acc segs)"
  by (induction segs arbitrary: acc) (auto intro: clean_step_plain)

lemma clean_segs_plain: "IsAbs p \<Longrightarrow> list_all plain_seg (clean_segs p)"
  using foldl_clean_plain[of "[]" "split_on slash p"] split_on_free[of _ slash p] by (simp add: clean_segs_def)

text \<open>Cleaning leaves plain segments alone.\<close>

lemma foldl_clean_id: "list_all plain_seg segs \<Longrightarrow> foldl (clean_step r) acc segs = rev segs @ acc"
  by (induction segs arbitrary: acc) (auto simp: clean_step_def plain_seg_def)

lemma join_plain:
  assumes "list_all plain_seg segs"
  shows "split_on slash (join_with slash segs) = [] # segs"
  using assms split_on_join[of segs slash] by (simp add: list_all_iff plain_seg_def)

lemma IsAbs_join [simp]: "segs \<noteq> [] \<Longrightarrow> IsAbs (join_with slash segs)"
  by (cases segs) (simp_all add: IsAbs_def HasPrefix_def join_with_def)

lemma Clean_abs:
  assumes "IsAbs p"
  shows "IsAbs (Clean p)" "clean_segs (Clean p) = clean_segs p"
proof -
  note pl = clean_segs_plain[OF assms]
  show "IsAbs (Clean p)" using assms by (simp add: Clean_def) (simp add: IsAbs_def HasPrefix_def)
  show "clean_segs (Clean p) = clean_segs p"
  proof (cases "clean_segs p = []")
    case True
    then have "Clean p = [slash]" using assms by (simp add: Clean_def)
    then show ?thesis using True by (simp add: clean_segs_def clean_step_def)
  next
    case False
    then have c: "Clean p = join_with slash (clean_segs p)" using assms by (simp add: Clean_def)
    have "clean_segs (join_with slash (clean_segs p)) = clean_segs p"
      by (subst (1) clean_segs_def) (simp add: join_plain[OF pl] foldl_clean_id[OF pl] clean_step_def[of _ "[]" "[]"])
    then show ?thesis by (simp only: c)
  qed
qed

text \<open>A relative path stays relative, even after cleaning.\<close>

definition ne_seg :: "string \<Rightarrow> bool" where
  "ne_seg s \<longleftrightarrow> s \<noteq> [] \<and> slash \<notin> set s"

lemma clean_step_ne: "list_all ne_seg acc \<Longrightarrow> slash \<notin> set seg \<Longrightarrow> list_all ne_seg (clean_step r acc seg)"
  by (auto simp: clean_step_def ne_seg_def split: list.splits)

lemma foldl_clean_ne:
  "list_all ne_seg acc \<Longrightarrow> \<forall>seg\<in>set segs. slash \<notin> set seg \<Longrightarrow> list_all ne_seg (foldl (clean_step r) acc segs)"
  by (induction segs arbitrary: acc) (auto intro: clean_step_ne)

lemma clean_segs_ne: "list_all ne_seg (clean_segs p)"
  using foldl_clean_ne[of "[]" "split_on slash p"] split_on_free[of _ slash p] by (simp add: clean_segs_def)

lemma Clean_rel:
  assumes "\<not> IsAbs p"
  shows "\<not> IsAbs (Clean p)"
proof (cases "clean_segs p")
  case Nil
  then show ?thesis using assms by (simp add: Clean_def) (simp add: IsAbs_def HasPrefix_def)
next
  case (Cons s ss)
  then obtain c cs where "s = c # cs" "c \<noteq> slash" using clean_segs_ne[of p] by (cases s) (auto simp: ne_seg_def)
  then show ?thesis using assms Cons by (simp add: Clean_def) (simp add: IsAbs_def HasPrefix_def join_with_def)
qed

lemma IsAbs_Clean [simp]: "IsAbs (Clean p) = IsAbs p"
  using Clean_abs(1) Clean_rel by blast

lemma Clean_no_dots:
  assumes "IsAbs p"
  shows "\<not> list_ex (\<lambda>seg. seg = ''..'') (split_on slash (Clean p))"
  using assms join_plain[OF clean_segs_plain[OF assms]] clean_segs_plain[OF assms]
  by (auto simp: Clean_def list_ex_iff list_all_iff plain_seg_def)

lemma CanonicalizePath_iff: "CanonicalizePath p = Inr c \<longleftrightarrow> IsAbs p \<and> c = Clean p"
  using Clean_no_dots[of p] by (auto simp: CanonicalizePath_def Let_def) (simp add: IsAbs_def HasPrefix_def)

section \<open>The allowlist\<close>

lemma join_with_append [simp]: "join_with c (xs @ ys) = join_with c xs @ join_with c ys"
  by (simp add: join_with_def)

lemma join_with_Nil [simp]: "join_with c [] = []"
  by (simp add: join_with_def)

lemma split_on_join_more:
  "\<forall>seg\<in>set xs. c \<notin> set seg \<Longrightarrow> split_on c (join_with c xs @ c # r) = ([] # xs) @ split_on c r"
proof (induction xs arbitrary: r rule: rev_induct)
  case (snoc x xs)
  have "join_with c (xs @ [x]) @ c # r = join_with c xs @ c # (x @ c # r)"
    by (simp add: join_with_def)
  moreover have "split_on c (x @ c # r) = x # split_on c r"
    using snoc.prems by (intro split_on_append_sep) simp
  ultimately show ?case using snoc.IH[of "x @ c # r"] snoc.prems by (simp only:) simp
qed simp

text \<open>For cleaned absolute paths, being below a prefix as a string is being below it segment by segment.\<close>

lemma join_prefix_segs:
  assumes "list_all plain_seg xs" "list_all plain_seg ys" "join_with slash ys = join_with slash xs @ slash # r"
  shows "strict_prefix xs ys"
proof -
  have "split_on slash (join_with slash xs @ slash # r) = ([] # xs) @ split_on slash r"
    by (rule split_on_join_more) (use assms(1) in \<open>simp add: list_all_iff plain_seg_def\<close>)
  then have "[] # ys = ([] # xs) @ split_on slash r" using join_plain[OF assms(2)] assms(3) by simp
  then show ?thesis by (auto simp: strict_prefix_def)
qed

lemma under_segs:
  assumes "IsAbs p" "IsAbs raw"
  shows "Clean p = Clean raw \<or> HasPrefix (Clean p) (Clean raw @ [slash])
    \<longleftrightarrow> prefix (clean_segs raw) (clean_segs p) \<and> (clean_segs raw = [] \<longrightarrow> clean_segs p = [])"
proof -
  note pp = clean_segs_plain[OF assms(1)] and pr = clean_segs_plain[OF assms(2)]
  have eq: "Clean p = Clean raw \<longleftrightarrow> clean_segs p = clean_segs raw"
    using Clean_abs(2)[OF assms(1)] Clean_abs(2)[OF assms(2)] assms by (auto simp: Clean_def)
  show ?thesis
  proof (cases "clean_segs raw")
    case Nil
    have "\<not> HasPrefix (Clean p) (Clean raw @ [slash])"
    proof (cases "clean_segs p")
      case (Cons s ss)
      then obtain c cs where "s = c # cs" "c \<noteq> slash" using pp by (cases s) (auto simp: plain_seg_def)
      then show ?thesis using Nil Cons assms by (simp add: Clean_def HasPrefix_def join_with_def)
    qed (use Nil assms in \<open>simp add: Clean_def HasPrefix_def\<close>)
    then show ?thesis using Nil eq by auto
  next
    case (Cons s ss)
    then have raw: "Clean raw = join_with slash (clean_segs raw)" using assms by (simp add: Clean_def)
    have ne: "clean_segs raw \<noteq> []" using Cons by simp
    have sp: "HasPrefix (Clean p) (Clean raw @ [slash]) \<longleftrightarrow> strict_prefix (clean_segs raw) (clean_segs p)"
    proof
      assume h: "HasPrefix (Clean p) (Clean raw @ [slash])"
      then have "clean_segs p \<noteq> []"
        using Cons assms by (auto simp: Clean_def HasPrefix_def join_with_def)
      then show "strict_prefix (clean_segs raw) (clean_segs p)"
        using h assms raw join_prefix_segs[OF pr pp] by (auto simp: HasPrefix_iff Clean_def)
    next
      assume "strict_prefix (clean_segs raw) (clean_segs p)"
      then obtain t ts where t: "clean_segs p = clean_segs raw @ t # ts"
        by (auto simp: strict_prefix_def prefix_def neq_Nil_conv)
      then have "Clean p = join_with slash (clean_segs raw) @ slash # (t @ join_with slash ts)"
        using assms by (simp add: Clean_def) (simp add: join_with_def)
      then show "HasPrefix (Clean p) (Clean raw @ [slash])" unfolding HasPrefix_iff raw by auto
    qed
    show ?thesis unfolding eq sp prefix_order.le_less by (metis ne)
  qed
qed

lemma under_rel:
  assumes "IsAbs p" "\<not> IsAbs raw"
  shows "\<not> (Clean p = Clean raw \<or> HasPrefix (Clean p) (Clean raw @ [slash]))"
proof
  assume "Clean p = Clean raw \<or> HasPrefix (Clean p) (Clean raw @ [slash])"
  then obtain r where "Clean p = Clean raw @ r" by (auto simp: HasPrefix_iff)
  moreover have "IsAbs (Clean p)" "\<not> IsAbs (Clean raw)" using assms by simp_all
  moreover have "Clean raw \<noteq> []"
  proof (cases "clean_segs raw")
    case (Cons s ss)
    then show ?thesis using clean_segs_ne[of raw] assms by (simp add: Clean_def join_with_def ne_seg_def)
  qed (use assms in \<open>simp add: Clean_def\<close>)
  ultimately show False by (cases "Clean raw") (auto simp: IsAbs_def HasPrefix_def)
qed

definition below :: "string \<Rightarrow> string \<Rightarrow> bool" where
  "below p raw \<longleftrightarrow> IsAbs raw \<and> prefix (clean_segs raw) (clean_segs p) \<and> (clean_segs raw = [] \<longrightarrow> clean_segs p = [])"

lemma allowed_iff: "IsAbs p \<Longrightarrow> allowed (Clean p) allow \<longleftrightarrow> list_ex (below p) allow"
proof (induction allow)
  case (Cons raw allow)
  have "Clean p = Clean raw \<or> HasPrefix (Clean p) (Clean raw @ [slash]) \<longleftrightarrow> below p raw"
    using under_segs[OF Cons.prems, of raw] under_rel[OF Cons.prems, of raw] unfolding below_def by blast
  then show ?case using Cons by (auto simp: Let_def)
qed simp

lemma ValidatePath_iff: "ValidatePath p allow = Inr c \<longleftrightarrow> IsAbs p \<and> c = Clean p \<and> list_ex (below p) allow"
proof -
  have "ValidatePath p allow = Inr c \<longleftrightarrow> IsAbs p \<and> c = Clean p \<and> CheckUnderAllowlist (Clean p) allow = Inr ()"
    by (auto simp: ValidatePath_def rbind_eq_Inr CanonicalizePath_iff)
  then show ?thesis by (auto simp: CheckUnderAllowlist_def allowed_iff)
qed

text \<open>C20. The allowlist cannot be escaped lexically, and is the documented rule: when no prefix of the list is the root, a
  path is accepted exactly when it is absolute and the segments of its cleaned form, none of which is empty, \<^verbatim>\<open>.\<close> or
  \<^verbatim>\<open>..\<close>, are those of an allowed absolute prefix or continue them. The result is the cleaned path, and cleaning it
  again changes nothing.\<close>

theorem allowlist_exact:
  assumes "\<forall>raw\<in>set allow. Clean raw \<noteq> [slash]"
  shows "(ValidatePath p allow = Inr c \<longleftrightarrow> IsAbs p \<and> c = Clean p
      \<and> (\<exists>raw\<in>set allow. IsAbs raw \<and> (clean_segs p = clean_segs raw \<or> strict_prefix (clean_segs raw) (clean_segs p))))
   \<and> (IsAbs p \<longrightarrow> list_all plain_seg (clean_segs p) \<and> clean_segs (Clean p) = clean_segs p)"
proof -
  have "below p raw \<longleftrightarrow> IsAbs raw \<and> (clean_segs p = clean_segs raw \<or> strict_prefix (clean_segs raw) (clean_segs p))"
    if "raw \<in> set allow" for raw
    using assms that by (auto simp: below_def Clean_def strict_prefix_def)
  then have "list_ex (below p) allow \<longleftrightarrow>
      (\<exists>raw\<in>set allow. IsAbs raw \<and> (clean_segs p = clean_segs raw \<or> strict_prefix (clean_segs raw) (clean_segs p)))"
    unfolding list_ex_iff by blast
  then show ?thesis using clean_segs_plain[of p] Clean_abs(2)[of p] by (simp add: ValidatePath_iff)
qed

text \<open>The root as a prefix: every other absolute path sits under it, but none is accepted, since the cleaned root already ends
  in the separator that \<^verbatim>\<open>CheckUnderAllowlist\<close> appends.\<close>

theorem root_prefix_only_root:
  "ValidatePath p [[slash]] = Inr c \<longleftrightarrow> IsAbs p \<and> Clean p = [slash] \<and> c = [slash]"
proof -
  have s: "clean_segs [slash] = []" "IsAbs [slash]" by code_simp+
  have "clean_segs p = [] \<longleftrightarrow> Clean p = [slash]" if "IsAbs p"
    using Clean_abs(2)[OF that] s(1) that by (auto simp: Clean_def)
  then show ?thesis by (auto simp: ValidatePath_iff below_def s)
qed

text \<open>A traversal and a longer sibling name are refused, a path below a prefix is accepted.\<close>

theorem allowlist_exact_witness:
  "ValidatePath ''/var/log/../lib//blackboxd/./spool'' DefaultAllowedPrefixes = Inr ''/var/lib/blackboxd/spool''
   \<and> ValidatePath ''/var/log/../../etc/shadow'' DefaultAllowedPrefixes \<noteq> Inr ''/etc/shadow''
   \<and> ValidatePath ''/var/log2/x'' DefaultAllowedPrefixes \<noteq> Inr ''/var/log2/x''"
proof -
  have "ValidatePath ''/var/log/../lib//blackboxd/./spool'' DefaultAllowedPrefixes = Inr ''/var/lib/blackboxd/spool''"
    by code_simp
  moreover have r: "\<forall>raw\<in>set DefaultAllowedPrefixes. Clean raw \<noteq> [slash]" by code_simp
  ultimately show ?thesis
    using conjunct1[OF allowlist_exact[OF r], of "''/var/log/../../etc/shadow''" "''/etc/shadow''"]
      conjunct1[OF allowlist_exact[OF r], of "''/var/log2/x''" "''/var/log2/x''"]
    by code_simp
qed

end
