(* ===== verification/Security_Modes.thy ===== *)
theory Security_Modes
  imports Security_Paths
begin

text \<open>
  \<^verbatim>\<open>src/internal/security/modes.go\<close>: the checks on type, permission bits and owner of the configuration,
  the private key and the state directory. A file mode is the 32-bit word of \<^verbatim>\<open>io/fs\<close>.
\<close>

unbundle bit_operations_syntax

section \<open>File modes\<close>

type_synonym FileMode = "32 word"

definition ModeDir :: FileMode where "ModeDir = push_bit 31 1"

text \<open>\<^verbatim>\<open>fs.ModeType\<close>: directory, symbolic link, device, named pipe, socket, character device, irregular.\<close>

definition ModeType :: FileMode where
  "ModeType = ModeDir OR push_bit 27 1 OR push_bit 26 1 OR push_bit 25 1 OR push_bit 24 1 OR push_bit 21 1 OR push_bit 19 1"

definition IsRegular :: "FileMode \<Rightarrow> bool" where
  "IsRegular m \<longleftrightarrow> m AND ModeType = 0"

definition IsDir :: "FileMode \<Rightarrow> bool" where
  "IsDir m \<longleftrightarrow> m AND ModeDir \<noteq> 0"

definition Perm :: "FileMode \<Rightarrow> FileMode" where
  "Perm m = m AND 511"

text \<open>What \<^verbatim>\<open>os.Lstat\<close> tells: the mode, and the owner where the platform has one.\<close>

record statinfo =
  st_mode :: FileMode
  st_uid :: "32 word option"

text \<open>The part of the system the checks look at: \<^const>\<open>None\<close> is a failing \<^verbatim>\<open>Lstat\<close>.\<close>

type_synonym lstat = "string \<Rightarrow> statinfo option"

section \<open>The checks\<close>

definition modeFileSensitive :: FileMode where "modeFileSensitive = 384"

definition modeDirState :: FileMode where "modeDirState = 448"

definition checkOwnedByCurrentUser :: "32 word \<Rightarrow> statinfo \<Rightarrow> (sec_error, unit) result" where
  "checkOwnedByCurrentUser euid info =
     (case st_uid info of
        None \<Rightarrow> Inl (ErrInsecure ''cannot determine owner'')
      | Some u \<Rightarrow> if u \<noteq> euid then Inl (ErrInsecure ''owned by another user'') else Inr ())"

definition CheckConfigMode :: "lstat \<Rightarrow> string \<Rightarrow> (sec_error, unit) result" where
  "CheckConfigMode fs path =
     (case fs path of
        None \<Rightarrow> Inl (ErrInsecure ''stat config'')
      | Some info \<Rightarrow>
          if \<not> IsRegular (st_mode info) then Inl (ErrInsecure ''config is not a regular file'')
          else if Perm (st_mode info) AND 18 \<noteq> 0 then Inl (ErrInsecure ''config is group/world-writable'')
          else Inr ())"

definition CheckKeyMode :: "lstat \<Rightarrow> 32 word \<Rightarrow> string \<Rightarrow> (sec_error, unit) result" where
  "CheckKeyMode fs euid path =
     (case fs path of
        None \<Rightarrow> Inl (ErrInsecure ''stat key'')
      | Some info \<Rightarrow>
          if \<not> IsRegular (st_mode info) then Inl (ErrInsecure ''key is not a regular file'')
          else if Perm (st_mode info) \<noteq> modeFileSensitive then Inl (ErrInsecure ''key mode, want 0600'')
          else checkOwnedByCurrentUser euid info)"

definition CheckStateDirMode :: "lstat \<Rightarrow> 32 word \<Rightarrow> string \<Rightarrow> (sec_error, unit) result" where
  "CheckStateDirMode fs euid path =
     (case fs path of
        None \<Rightarrow> Inl (ErrInsecure ''stat state dir'')
      | Some info \<Rightarrow>
          if \<not> IsDir (st_mode info) then Inl (ErrInsecure ''state dir is not a directory'')
          else if Perm (st_mode info) \<noteq> modeDirState then Inl (ErrInsecure ''state dir mode, want 0700'')
          else checkOwnedByCurrentUser euid info)"

section \<open>What acceptance means\<close>

text \<open>The permission bit for reading (2), writing (1) or executing (0) of the owner (2), the group (1) or the
  others (0).\<close>

definition may :: "FileMode \<Rightarrow> nat \<Rightarrow> nat \<Rightarrow> bool" where
  "may m who what = bit m (3 * who + what)"

lemma Perm_eq_iff: "v AND 511 = v \<Longrightarrow> Perm m = v \<longleftrightarrow> (\<forall>i<9. bit m i = bit v i)"
proof -
  assume v: "v AND 511 = v"
  have "(511 :: FileMode) = mask 9" by (simp add: mask_eq_exp_minus_1)
  then have b: "bit (511 :: FileMode) i \<longleftrightarrow> i < 9" for i by (simp only: bit_mask_iff) auto
  have "Perm m = v \<longleftrightarrow> (\<forall>i. bit (m AND 511) i = bit (v AND 511) i)"
    unfolding Perm_def v
  proof
    assume "\<forall>i. bit (m AND 511) i = bit v i"
    then show "m AND 511 = v" by (intro bit_eqI) (rule spec)
  qed (simp only: simp_thms)
  also have "\<dots> \<longleftrightarrow> (\<forall>i<9. bit m i = bit v i)" by (simp only: bit_and_iff b) blast
  finally show ?thesis .
qed

lemma all_less_9: "(\<forall>i<9. P i) \<longleftrightarrow> (\<forall>who<3. \<forall>what<3. P (3 * who + what :: nat))"
proof
  assume h: "\<forall>who<3. \<forall>what<3. P (3 * who + what :: nat)"
  show "\<forall>i<9. P i"
  proof (intro allI impI)
    fix i :: nat assume "i < 9"
    then have "i div 3 < 3" "i mod 3 < 3" by auto
    then have "P (3 * (i div 3) + i mod 3)" using h by blast
    then show "P i" by (simp only: mult_div_mod_eq)
  qed
qed auto

lemma bits_600: "who < 3 \<Longrightarrow> what < 3 \<Longrightarrow> bit (384 :: FileMode) (3 * who + what) \<longleftrightarrow> who = 2 \<and> what \<noteq> 0"
  for who what :: nat
proof -
  assume "who < 3" "what < 3"
  then have "who \<in> {0, 1, 2}" "what \<in> {0, 1, 2}" by auto
  then show ?thesis by (elim insertE emptyE) (simp_all add: bit_numeral_word_iff)
qed

lemma bits_700: "who < 3 \<Longrightarrow> what < 3 \<Longrightarrow> bit (448 :: FileMode) (3 * who + what) \<longleftrightarrow> who = 2"
  for who what :: nat
proof -
  assume "who < 3" "what < 3"
  then have "who \<in> {0, 1, 2}" "what \<in> {0, 1, 2}" by auto
  then show ?thesis by (elim insertE emptyE) (simp_all add: bit_numeral_word_iff)
qed

lemma bits_022: "Perm m AND 18 = 0 \<longleftrightarrow> \<not> may m 0 1 \<and> \<not> may m 1 1"
proof -
  have "Perm m AND 18 = m AND 18" by (simp add: Perm_def and.assoc)
  moreover have "m AND 18 = 0 \<longleftrightarrow> (\<forall>i. bit m i \<longrightarrow> \<not> bit (18 :: FileMode) i)" by (subst bit_eq_iff) (auto simp: bit_and_iff dest: bit_imp_le_length)
  moreover have "bit (18 :: FileMode) i \<longleftrightarrow> i = 1 \<or> i = 4" for i
  proof -
    have "(18 :: FileMode) = set_bit 1 (set_bit 4 0)" by (simp add: set_bit_eq_or)
    then have "bit (18 :: FileMode) i = bit (set_bit 1 (set_bit 4 0) :: FileMode) i" by (rule arg_cong)
    also have "\<dots> \<longleftrightarrow> i = 1 \<or> i = 4" by (simp only: bit_set_bit_iff bit_0_eq possible_bit_word) auto
    finally show ?thesis .
  qed
  ultimately have "Perm m AND 18 = 0 \<longleftrightarrow> (\<forall>i. bit m i \<longrightarrow> \<not> (i = 1 \<or> i = 4))" by (simp only:)
  then show ?thesis by (auto simp: may_def)
qed

text \<open>C21. The secrets are private: the private key is accepted exactly when it is a regular file of the
  running user that nobody else may read, write or execute (and that its owner may read and write
  but not execute); the state directory exactly when it is a directory of that user closed to
  everyone else; and the configuration exactly when it is a regular file that neither the group nor
  others may write. Every refusal is a security error.\<close>

theorem modes_exact:
  "(CheckKeyMode fs euid path = Inr () \<longleftrightarrow>
      (\<exists>info. fs path = Some info \<and> IsRegular (st_mode info) \<and> st_uid info = Some euid
        \<and> (\<forall>who<3. \<forall>what<3. may (st_mode info) who what = (who = 2 \<and> what \<noteq> 0))))
   \<and> (CheckStateDirMode fs euid path = Inr () \<longleftrightarrow>
      (\<exists>info. fs path = Some info \<and> IsDir (st_mode info) \<and> st_uid info = Some euid
        \<and> (\<forall>who<3. \<forall>what<3. may (st_mode info) who what = (who = 2))))
   \<and> (CheckConfigMode fs path = Inr () \<longleftrightarrow>
      (\<exists>info. fs path = Some info \<and> IsRegular (st_mode info)
        \<and> \<not> may (st_mode info) 0 1 \<and> \<not> may (st_mode info) 1 1))
   \<and> (CheckKeyMode fs euid path \<noteq> Inl (ErrPlain msg))
   \<and> (CheckStateDirMode fs euid path \<noteq> Inl (ErrPlain msg))
   \<and> (CheckConfigMode fs path \<noteq> Inl (ErrPlain msg))"
proof (intro conjI)
  have k: "Perm m = modeFileSensitive \<longleftrightarrow> (\<forall>who<3. \<forall>what<3. may m who what = (who = 2 \<and> what \<noteq> 0))" for m
    unfolding modeFileSensitive_def may_def by (subst Perm_eq_iff, simp) (simp only: all_less_9 bits_600 cong: imp_cong)
  have d: "Perm m = modeDirState \<longleftrightarrow> (\<forall>who<3. \<forall>what<3. may m who what = (who = 2))" for m
    unfolding modeDirState_def may_def by (subst Perm_eq_iff, simp) (simp only: all_less_9 bits_700 cong: imp_cong)
  show "CheckKeyMode fs euid path = Inr () \<longleftrightarrow>
      (\<exists>info. fs path = Some info \<and> IsRegular (st_mode info) \<and> st_uid info = Some euid
        \<and> (\<forall>who<3. \<forall>what<3. may (st_mode info) who what = (who = 2 \<and> what \<noteq> 0)))"
    unfolding k[symmetric] by (auto simp: CheckKeyMode_def checkOwnedByCurrentUser_def split: option.splits)
  show "CheckStateDirMode fs euid path = Inr () \<longleftrightarrow>
      (\<exists>info. fs path = Some info \<and> IsDir (st_mode info) \<and> st_uid info = Some euid
        \<and> (\<forall>who<3. \<forall>what<3. may (st_mode info) who what = (who = 2)))"
    unfolding d[symmetric] by (auto simp: CheckStateDirMode_def checkOwnedByCurrentUser_def split: option.splits)
  show "CheckConfigMode fs path = Inr () \<longleftrightarrow>
      (\<exists>info. fs path = Some info \<and> IsRegular (st_mode info)
        \<and> \<not> may (st_mode info) 0 1 \<and> \<not> may (st_mode info) 1 1)"
    unfolding bits_022[symmetric] by (auto simp: CheckConfigMode_def bits_022[symmetric] split: option.splits)
qed (auto simp: CheckKeyMode_def CheckStateDirMode_def CheckConfigMode_def checkOwnedByCurrentUser_def split: option.splits)

definition example_lstat :: lstat where
  "example_lstat = [''/k'' \<mapsto> \<lparr>st_mode = 384, st_uid = Some 1000\<rparr>, ''/open'' \<mapsto> \<lparr>st_mode = 416, st_uid = Some 1000\<rparr>]"

theorem modes_exact_witness:
  "CheckKeyMode example_lstat 1000 ''/k'' = Inr () \<and> may 384 2 2 \<and> \<not> may 384 0 2
   \<and> CheckKeyMode example_lstat 1000 ''/open'' \<noteq> Inr ()"
proof -
  have ok: "CheckKeyMode example_lstat 1000 ''/k'' = Inr ()"
    by (simp add: CheckKeyMode_def example_lstat_def IsRegular_def ModeType_def ModeDir_def Perm_def
        modeFileSensitive_def checkOwnedByCurrentUser_def)
  have "bit (416 :: FileMode) 5" by (simp add: bit_numeral_word_iff)
  then have g: "may 416 1 2" by (simp add: may_def)
  show ?thesis
    using ok g conjunct1[OF modes_exact, of example_lstat 1000 "''/k''"] conjunct1[OF modes_exact, of example_lstat 1000 "''/open''"]
    by (auto simp: example_lstat_def)
qed

end
