(* ===== verification/Security_TLS.thy ===== *)
theory Security_TLS
  imports Security_Modes
begin

text \<open>
  \<^verbatim>\<open>src/internal/security/pin.go\<close> and \<^verbatim>\<open>tls.go\<close>: certificate pins and the client TLS configuration. The hash
  \<^verbatim>\<open>SHA-256\<close>, the PEM readers of \<^verbatim>\<open>crypto/x509\<close> and \<^verbatim>\<open>crypto/tls\<close> and the file contents are parameters. What is
  proved: a pin is read exactly from the hexadecimal spelling of 32 bytes, and a configuration with a
  pin accepts exactly the connections whose leaf certificate has that fingerprint.
\<close>

type_synonym octet = "8 word"

section \<open>Hexadecimal\<close>

text \<open>\<^verbatim>\<open>hex.DecodeString\<close>: both cases, \<^const>\<open>None\<close> for an odd length or a foreign character.\<close>

definition hex_val :: "char \<Rightarrow> nat option" where
  "hex_val c =
     (let n = of_char c in
      if 48 \<le> n \<and> n \<le> 57 then Some (n - 48)
      else if 97 \<le> n \<and> n \<le> 102 then Some (n - 87)
      else if 65 \<le> n \<and> n \<le> 70 then Some (n - 55) else None)"

fun hex_decode :: "string \<Rightarrow> octet list option" where
  "hex_decode [] = Some []"
| "hex_decode [c] = None"
| "hex_decode (h # l # rest) =
     (case (hex_val h, hex_val l, hex_decode rest) of
        (Some a, Some b, Some bs) \<Rightarrow> Some (of_nat (16 * a + b) # bs)
      | _ \<Rightarrow> None)"

definition hex_digit :: "nat \<Rightarrow> char" where
  "hex_digit n = (if n < 10 then char_of (48 + n) else char_of (87 + n))"

definition hex_encode :: "octet list \<Rightarrow> string" where
  "hex_encode bs = concat (map (\<lambda>b. [hex_digit (unat b div 16), hex_digit (unat b mod 16)]) bs)"

section \<open>Pins\<close>

definition pinSize :: nat where "pinSize = 32"

text \<open>\<^verbatim>\<open>strings.ToLower\<close> on bytes below 128; the lower case of every other character is outside the
  hexadecimal alphabet, and so are its bytes.\<close>

definition ToLower :: "string \<Rightarrow> string" where
  "ToLower s = map (\<lambda>c. if 65 \<le> (of_char c :: nat) \<and> (of_char c :: nat) \<le> 90 then char_of ((of_char c :: nat) + 32) else c) s"

definition strip_pin :: "string \<Rightarrow> string" where
  "strip_pin s = filter (\<lambda>c. c \<notin> {CHR '':'', CHR '' '', CHR 0x09, CHR 0x0A, CHR 0x0D}) s"

definition ParsePin :: "string \<Rightarrow> (sec_error, octet list) result" where
  "ParsePin s =
     (if s = [] then Inl (ErrInsecure ''empty pin'')
      else let clean = ToLower (strip_pin s) in
        case hex_decode clean of
          None \<Rightarrow> Inl (ErrInsecure ''pin not hex'')
        | Some b \<Rightarrow> if length b \<noteq> pinSize then Inl (ErrInsecure ''pin has the wrong length'') else Inr b)"

text \<open>A certificate is its raw bytes; \<open>sha\<close> is \<^verbatim>\<open>sha256.Sum256\<close>.\<close>

type_synonym certificate = "octet list"

definition CertFingerprint :: "(octet list \<Rightarrow> octet list) \<Rightarrow> certificate \<Rightarrow> octet list" where
  "CertFingerprint sha cert = sha cert"

text \<open>\<^verbatim>\<open>subtle.ConstantTimeCompare\<close>: the differences of all bytes are accumulated.\<close>

definition ConstantTimeCompare :: "octet list \<Rightarrow> octet list \<Rightarrow> int" where
  "ConstantTimeCompare x y =
     (if length x \<noteq> length y then 0
      else if foldl (\<lambda>v (a, b). v OR (a XOR b)) 0 (zip x y) = 0 then 1 else 0)"

definition MatchPin :: "(octet list \<Rightarrow> octet list) \<Rightarrow> certificate \<Rightarrow> octet list \<Rightarrow> bool" where
  "MatchPin sha cert want \<longleftrightarrow> ConstantTimeCompare (CertFingerprint sha cert) want = 1"

section \<open>The TLS configuration\<close>

record TLSOptions =
  CACertPath :: string
  ClientCertPath :: string
  ClientKeyPath :: string
  BrokerCertPin :: string
  ServerName :: string

text \<open>The fields of \<^verbatim>\<open>tls.Config\<close> that are set; \<open>VerifyConnection\<close> is the pin its callback compares with.\<close>

record 'k tls_Config =
  MinVersion :: nat
  RootCAs :: "certificate list"
  Certificates :: "'k list"
  tls_ServerName :: string
  InsecureSkipVerify :: bool
  VerifyConnection :: "octet list option"

definition VersionTLS12 :: nat where "VersionTLS12 = 0x0303"

text \<open>What the builder reads: file contents, the certificates of a PEM bundle, the parsed key pair.\<close>

record 'k tls_env =
  ReadFile :: "string \<Rightarrow> bytes option"
  CertsFromPEM :: "bytes \<Rightarrow> certificate list"
  X509KeyPair :: "bytes \<Rightarrow> bytes \<Rightarrow> 'k option"

definition BuildClientTLS :: "'k tls_env \<Rightarrow> TLSOptions \<Rightarrow> (sec_error, 'k tls_Config) result" where
  "BuildClientTLS env opt =
     (if CACertPath opt = [] \<or> ClientCertPath opt = [] \<or> ClientKeyPath opt = []
      then Inl (ErrInsecure ''TLS paths incomplete'')
      else (case ReadFile env (CACertPath opt) of
        None \<Rightarrow> Inl (ErrInsecure ''read CA bundle'')
      | Some caPEM \<Rightarrow>
          if CertsFromPEM env caPEM = [] then Inl (ErrInsecure ''CA bundle contains no valid certificates'')
          else (case ReadFile env (ClientCertPath opt) of
            None \<Rightarrow> Inl (ErrInsecure ''read client cert'')
          | Some certPEM \<Rightarrow>
              (case ReadFile env (ClientKeyPath opt) of
                None \<Rightarrow> Inl (ErrInsecure ''read client key'')
              | Some keyPEM \<Rightarrow>
                  (case X509KeyPair env certPEM keyPEM of
                    None \<Rightarrow> Inl (ErrInsecure ''parse client cert/key'')
                  | Some clientCert \<Rightarrow>
                      (let cfg = \<lparr>MinVersion = VersionTLS12, RootCAs = CertsFromPEM env caPEM,
                                  Certificates = [clientCert], tls_ServerName = ServerName opt,
                                  InsecureSkipVerify = False, VerifyConnection = None\<rparr>
                       in if BrokerCertPin opt \<noteq> []
                          then rbind (ParsePin (BrokerCertPin opt)) (\<lambda>pin. Inr (cfg\<lparr>VerifyConnection := Some pin\<rparr>))
                          else Inr cfg))))))"

text \<open>\<^verbatim>\<open>pinVerifier\<close> on the peer's certificates, leaf first.\<close>

definition pinVerifier :: "(octet list \<Rightarrow> octet list) \<Rightarrow> octet list \<Rightarrow> certificate list \<Rightarrow> (sec_error, unit) result" where
  "pinVerifier sha want peers =
     (if length peers = 0 then Inl (ErrInsecure ''peer presented no certificate'')
      else if \<not> MatchPin sha (peers ! 0) want then Inl (ErrInsecure ''broker leaf cert fingerprint mismatch'')
      else Inr ())"

section \<open>Pins are read exactly\<close>

lemma hex_val_less: "hex_val c = Some n \<Longrightarrow> n < 16"
  by (auto simp: hex_val_def Let_def split: if_splits)

lemma hex_val_digit [simp]: "n < 16 \<Longrightarrow> hex_val (hex_digit n) = Some n"
  by (auto simp: hex_val_def hex_digit_def)

lemma hex_digit_val:
  assumes "hex_val c = Some n" "\<not> (65 \<le> (of_char c :: nat) \<and> (of_char c :: nat) \<le> 90)"
  shows "hex_digit n = c"
proof -
  have "(of_char c :: nat) = (if n < 10 then 48 + n else 87 + n)"
    using assms by (auto simp: hex_val_def Let_def split: if_splits)
  then have "hex_digit n = char_of (of_char c :: nat)" by (auto simp: hex_digit_def)
  then show ?thesis by simp
qed

lemma hex_decode_encode [simp]: "hex_decode (hex_encode bs) = Some bs"
proof (induction bs)
  case (Cons b bs)
  have "unat b < 256" using unsigned_less[of b, where ?'a = nat] by simp
  then have "unat b div 16 < 16" "unat b mod 16 < 16" "16 * (unat b div 16) + unat b mod 16 = unat b"
    by simp_all
  with Cons show ?case by (simp add: hex_encode_def)
qed (simp add: hex_encode_def)

lemma hex_encode_decode:
  "hex_decode s = Some bs \<Longrightarrow> \<forall>c\<in>set s. \<not> (65 \<le> (of_char c :: nat) \<and> (of_char c :: nat) \<le> 90) \<Longrightarrow> hex_encode bs = s"
proof (induction s arbitrary: bs rule: hex_decode.induct)
  case (3 h l rest)
  then obtain a b bs' where v: "hex_val h = Some a" "hex_val l = Some b" "hex_decode rest = Some bs'"
    "bs = of_nat (16 * a + b) # bs'"
    by (auto split: option.splits)
  have ab: "a < 16" "b < 16" using v hex_val_less by blast+
  then have "unat (of_nat (16 * a + b) :: octet) = 16 * a + b" 
    by (simp only: unsigned_of_nat) (simp add: take_bit_nat_eq_self)
  moreover have "hex_digit a = h" "hex_digit b = l" using hex_digit_val v(1,2) 3(3) by simp_all
  ultimately show ?case using 3 v ab by (simp add: hex_encode_def)
qed (simp_all add: hex_encode_def)

lemma lower_fixed: "c \<in> set (ToLower s) \<Longrightarrow> \<not> (65 \<le> (of_char c :: nat) \<and> (of_char c :: nat) \<le> 90)"
  by (auto simp: ToLower_def split: if_splits)

lemma ParsePin_iff: "ParsePin s = Inr b \<longleftrightarrow> length b = pinSize \<and> ToLower (strip_pin s) = hex_encode b"
proof (cases "s = []")
  case True
  then show ?thesis by (auto simp: ParsePin_def ToLower_def strip_pin_def hex_encode_def pinSize_def)
next
  case False
  have "hex_decode (ToLower (strip_pin s)) = Some b \<longleftrightarrow> ToLower (strip_pin s) = hex_encode b"
    using hex_encode_decode[of "ToLower (strip_pin s)" b] lower_fixed by auto
  then show ?thesis using False by (auto simp: ParsePin_def Let_def split: option.splits)
qed

text \<open>C22. A pin is read exactly: parsing succeeds with the bytes \<open>b\<close> if and only if there are 32 of them and the
  input, once blanks and colons are dropped and letters lowered, is their hexadecimal spelling. Hence
  every spelling of a fingerprint, with or without colons, gives back its bytes.\<close>

theorem pin_exact:
  "(ParsePin s = Inr b \<longleftrightarrow> length b = pinSize \<and> ToLower (strip_pin s) = hex_encode b)
   \<and> hex_decode (hex_encode b) = Some b"
  by (simp add: ParsePin_iff)

section \<open>Pinned connections\<close>

lemma or_xor_0: "v OR (a XOR b) = 0 \<longleftrightarrow> v = 0 \<and> a = (b :: octet)"
proof -
  have "a = b" if "a XOR b = 0"
  proof -
    have "a = (a XOR b) XOR b" by (simp only: xor.assoc xor_self_eq xor.right_neutral)
    then show ?thesis by (simp only: that xor.left_neutral)
  qed
  then have "a XOR b = 0 \<longleftrightarrow> a = b" by auto
  then show ?thesis by (simp add: or_eq_0_iff)
qed

lemma fold_diff: "length x = length y \<Longrightarrow> foldl (\<lambda>v (a, b). v OR (a XOR b)) (v :: octet) (zip x y) = 0 \<longleftrightarrow> v = 0 \<and> x = y"
proof (induction x y arbitrary: v rule: list_induct2)
  case (Cons a x b y)
  then show ?case by (simp add: or_xor_0)
qed simp

lemma ConstantTimeCompare_iff: "ConstantTimeCompare x y = 1 \<longleftrightarrow> x = y"
  using fold_diff[of x y 0] by (auto simp: ConstantTimeCompare_def)

text \<open>C23. The client configuration is strict: whenever it is built, it asks for TLS 1.2 or later, trusts exactly
  the certificates of the configured bundle, never skips verification and presents the client
  certificate; and if a pin is configured, its connection check accepts exactly the peers whose leaf
  certificate hashes to the 32 bytes the pin spells. A malformed pin prevents the configuration from
  being built.\<close>

theorem tls_pinned:
  assumes "BuildClientTLS env opt = Inr cfg"
  shows "MinVersion cfg = VersionTLS12 \<and> \<not> InsecureSkipVerify cfg \<and> RootCAs cfg \<noteq> []
    \<and> (\<exists>ca. ReadFile env (CACertPath opt) = Some ca \<and> RootCAs cfg = CertsFromPEM env ca)
    \<and> (\<exists>c k kp. ReadFile env (ClientCertPath opt) = Some c \<and> ReadFile env (ClientKeyPath opt) = Some k
          \<and> X509KeyPair env c k = Some kp \<and> Certificates cfg = [kp])
    \<and> (BrokerCertPin opt = [] \<longleftrightarrow> VerifyConnection cfg = None)
    \<and> (\<forall>pin. VerifyConnection cfg = Some pin \<longrightarrow> length pin = pinSize
          \<and> ToLower (strip_pin (BrokerCertPin opt)) = hex_encode pin
          \<and> (\<forall>peers. pinVerifier sha pin peers = Inr () \<longleftrightarrow> (\<exists>leaf rest. peers = leaf # rest \<and> sha leaf = pin)))"
proof -
  have pv: "pinVerifier sha pin peers = Inr () \<longleftrightarrow> (\<exists>leaf rest. peers = leaf # rest \<and> sha leaf = pin)" for pin peers
    by (cases peers) (auto simp: pinVerifier_def MatchPin_def ConstantTimeCompare_iff CertFingerprint_def)
  show ?thesis
    using assms unfolding pv
    by (auto simp: BuildClientTLS_def Let_def rbind_eq_Inr ParsePin_iff split: if_splits option.splits)
qed

definition example_tls_env :: "bytes tls_env" where
  "example_tls_env = \<lparr>ReadFile = (\<lambda>p. Some p), CertsFromPEM = (\<lambda>_. [[1, 2, 3]]), X509KeyPair = (\<lambda>c k. Some c)\<rparr>"

definition example_pin :: string where
  "example_pin = concat (replicate 32 ''aB:'')"

definition example_hash :: "octet list" where
  "example_hash = replicate 32 0xAB"

definition example_tls :: TLSOptions where
  "example_tls = \<lparr>CACertPath = ''/ca'', ClientCertPath = ''/crt'', ClientKeyPath = ''/key'',
     BrokerCertPin = example_pin, ServerName = ''broker''\<rparr>"

theorem tls_pinned_witness:
  "\<exists>cfg. BuildClientTLS example_tls_env example_tls = Inr cfg \<and> VerifyConnection cfg = Some example_hash
    \<and> (\<forall>peers. pinVerifier (\<lambda>c. take 32 (c @ replicate 32 0)) example_hash peers = Inr ()
         \<longleftrightarrow> (\<exists>leaf rest. peers = leaf # rest \<and> take 32 (leaf @ replicate 32 0) = example_hash))"
proof -
  have p: "ParsePin example_pin = Inr example_hash"
  proof -
    have "hex_digit (unat (0xAB :: octet) div 16) = CHR ''a''" "hex_digit (unat (0xAB :: octet) mod 16) = CHR ''b''"
      by code_simp+
    then have "hex_encode example_hash = concat (replicate 32 ''ab'')" by (simp add: hex_encode_def example_hash_def)
    moreover have "strip_pin ''aB:'' = ''aB''" "ToLower ''aB'' = ''ab''" by code_simp+
    then have "ToLower (strip_pin (concat (replicate 32 ''aB:''))) = concat (replicate 32 ''ab'')"
      by (simp add: strip_pin_def ToLower_def filter_concat map_concat)
    ultimately show ?thesis by (simp add: ParsePin_iff pinSize_def example_pin_def example_hash_def)
  qed
  have "example_pin \<noteq> []" by (simp add: example_pin_def)
  then have "\<exists>cfg. BuildClientTLS example_tls_env example_tls = Inr cfg \<and> VerifyConnection cfg = Some example_hash"
    unfolding BuildClientTLS_def example_tls_env_def example_tls_def
    by (simp only: p TLSOptions.simps tls_env.simps option.case if_True if_False list.distinct simp_thms Let_def rbind_Inr
      tls_Config.simps sum.inject)
  then obtain cfg where c: "BuildClientTLS example_tls_env example_tls = Inr cfg" "VerifyConnection cfg = Some example_hash"
    by blast
  note t = tls_pinned[OF c(1), of "\<lambda>c. take 32 (c @ replicate 32 0)"]
  from t have "\<forall>pin. VerifyConnection cfg = Some pin \<longrightarrow> length pin = pinSize
      \<and> ToLower (strip_pin (BrokerCertPin example_tls)) = hex_encode pin
      \<and> (\<forall>peers. pinVerifier (\<lambda>c. take 32 (c @ replicate 32 0)) pin peers = Inr ()
            \<longleftrightarrow> (\<exists>leaf rest. peers = leaf # rest \<and> take 32 (leaf @ replicate 32 0) = pin))"
    by (elim conjE)
  from this[rule_format, OF c(2)] show ?thesis by (intro exI[of _ cfg] conjI c) (elim conjE)
qed

end
