(* ===== verification/Config.thy ===== *)
theory Config
  imports Security_TLS Parser_Registry
begin

text \<open>
  \<^verbatim>\<open>src/internal/config/config.go\<close> and \<^verbatim>\<open>load.go\<close>: the configuration and its validation. The TOML decoder is
  a parameter: what it yields for a file is the decoded structure, the keys it did not use, and the
  generic tables of the parsers. Go's maps are association lists in iteration order, which is
  unspecified; the theorems hold for every order.
\<close>

section \<open>The schema\<close>

record DaemonConfig =
  DeviceID :: string
  Tenant :: string
  StateDir :: string
  LogLevel :: string

record SourceConfig =
  s_Type :: string
  s_Parser :: string
  s_Path :: string
  s_FromBeginning :: bool
  s_FollowRotation :: bool
  s_FollowSymlinks :: bool
  s_Units :: "string list"
  s_MinPriority :: int

record ParserConfig =
  pc_Type :: string
  pc_Options :: options

record TransportConfig =
  MQTTBroker :: string
  ClientCert :: string
  ClientKey :: string
  CACert :: string
  t_BrokerCertPin :: string
  QoSLogs :: "8 word"
  QoSHeartbeat :: "8 word"
  HeartbeatInterval :: int

record BufferConfig =
  MaxEntries :: int
  MaxBytes :: int
  c_BatchSize :: int
  c_BatchInterval :: int
  c_MaxLineBytes :: int

record Config =
  Daemon :: DaemonConfig
  Sources :: "(string \<times> SourceConfig) list"
  Parsers :: "(string \<times> ParserConfig) list"
  Transport :: TransportConfig
  Buffer :: BufferConfig
  Spool_MaxSizeBytes :: int
  PerSourceLinesPerSec :: int
  Shutdown_Timeout :: int
  AllowedPathPrefixes :: "string list"

text \<open>\<^verbatim>\<open>IDPattern\<close>: \<^verbatim>\<open>^[A-Za-z0-9_-]{1,64}$\<close>.\<close>

definition id_char :: "char \<Rightarrow> bool" where
  "id_char c =
     (let n = of_char c :: nat in
      65 \<le> n \<and> n \<le> 90 \<or> 97 \<le> n \<and> n \<le> 122 \<or> 48 \<le> n \<and> n \<le> 57 \<or> c = CHR ''_'' \<or> c = CHR ''-'')"

definition IDPattern :: "string \<Rightarrow> bool" where
  "IDPattern s \<longleftrightarrow> 1 \<le> length s \<and> length s \<le> 64 \<and> list_all id_char s"

definition allowlist :: "Config \<Rightarrow> string list" where
  "allowlist c = (if length (AllowedPathPrefixes c) = 0 then DefaultAllowedPrefixes else AllowedPathPrefixes c)"

section \<open>Defaults\<close>

definition or_default :: "'a::zero \<Rightarrow> 'a \<Rightarrow> 'a" where
  "or_default d x = (if x = 0 then d else x)"

definition applyDefaults :: "Config \<Rightarrow> Config" where
  "applyDefaults c =
     c\<lparr>Daemon := (Daemon c)\<lparr>LogLevel := if LogLevel (Daemon c) = [] then ''info'' else LogLevel (Daemon c)\<rparr>,
       Buffer := \<lparr>MaxEntries = or_default 10000 (MaxEntries (Buffer c)),
                  MaxBytes = or_default (4 * 1024 * 1024) (MaxBytes (Buffer c)),
                  c_BatchSize = or_default 100 (c_BatchSize (Buffer c)),
                  c_BatchInterval = or_default (5 * 1000000000) (c_BatchInterval (Buffer c)),
                  c_MaxLineBytes = or_default (64 * 1024) (c_MaxLineBytes (Buffer c))\<rparr>,
       Spool_MaxSizeBytes := or_default (100 * 1024 * 1024) (Spool_MaxSizeBytes c),
       PerSourceLinesPerSec := or_default 10000 (PerSourceLinesPerSec c),
       Shutdown_Timeout := or_default (10 * 1000000000) (Shutdown_Timeout c),
       Transport := (Transport c)\<lparr>QoSLogs := or_default 1 (QoSLogs (Transport c))\<rparr>\<rparr>"

section \<open>Validation\<close>

text \<open>What validation looks at outside the structure: \<^verbatim>\<open>Lstat\<close>, \<^verbatim>\<open>Stat\<close>, the effective user and the contents
  of the configuration file.\<close>

record fs_env =
  fs_lstat :: lstat
  fs_stat :: lstat
  fs_euid :: "32 word"
  fs_read :: "string \<Rightarrow> bytes option"

definition validLogLevel :: "string \<Rightarrow> bool" where
  "validLogLevel s \<longleftrightarrow> s \<in> {''debug'', ''info'', ''warn'', ''error''}"

definition validateParsers :: "registry \<Rightarrow> Config \<Rightarrow> (sec_error, unit) result" where
  "validateParsers reg c =
     rbind (require (length (Parsers c) \<noteq> 0) (ErrPlain ''at least one [parsers.*] block is required'')) (\<lambda>_.
     let known = RegisteredNames reg in
     each (\<lambda>(name, p).
       rbind (require (pc_Type p \<noteq> []) (ErrPlain ''parser type is required'')) (\<lambda>_.
       require (pc_Type p \<in> set known) (ErrPlain ''parser type unknown''))) (Parsers c))"

definition validate_source :: "Config \<Rightarrow> string list \<Rightarrow> SourceConfig \<Rightarrow> (sec_error, unit) result" where
  "validate_source c allow s =
     rbind (require (map_of (Parsers c) (s_Parser s) \<noteq> None) (ErrPlain ''source parser not defined'')) (\<lambda>_.
     if s_Type s = ''file'' \<or> s_Type s = ''journal''
     then rbind (require (s_Path s \<noteq> []) (ErrPlain ''source path is required'')) (\<lambda>_.
          rbind (ValidatePath (s_Path s) allow) (\<lambda>_. Inr ()))
     else if s_Type s = ''kmsg'' then Inr ()
     else if s_Type s = ''dmesg'' then Inl (ErrPlain ''dmesg is not supported in service mode'')
     else if s_Type s = [] then Inl (ErrPlain ''source type is required'')
     else Inl (ErrPlain ''source type unknown''))"

definition validateSources :: "Config \<Rightarrow> string list \<Rightarrow> (sec_error, unit) result" where
  "validateSources c allow = each (\<lambda>(name, s). validate_source c allow s) (Sources c)"

definition regular_file :: "lstat \<Rightarrow> string \<Rightarrow> (sec_error, unit) result" where
  "regular_file fs p =
     (case fs p of
        None \<Rightarrow> Inl (ErrPlain ''stat'')
      | Some info \<Rightarrow> require (IsRegular (st_mode info)) (ErrPlain ''not a regular file''))"

definition validateTransport :: "fs_env \<Rightarrow> bool \<Rightarrow> Config \<Rightarrow> (sec_error, unit) result" where
  "validateTransport env skipFS c =
     (let t = Transport c in
      rbind (require (MQTTBroker t \<noteq> []) (ErrPlain ''transport.mqtt_broker is required'')) (\<lambda>_.
      rbind (require (HasPrefix (MQTTBroker t) ''tls://'' \<or> HasPrefix (MQTTBroker t) ''ssl://''
                      \<or> HasPrefix (MQTTBroker t) ''mqtts://'') (ErrInsecure ''mqtt_broker must use TLS'')) (\<lambda>_.
      rbind (require (\<not> (ClientCert t = [] \<or> ClientKey t = [] \<or> CACert t = []))
              (ErrInsecure ''transport requires client_cert, client_key, and ca_cert'')) (\<lambda>_.
      rbind (each (\<lambda>p. rbind (CanonicalizePath p) (\<lambda>_. Inr ())) [ClientCert t, ClientKey t, CACert t]) (\<lambda>_.
      rbind (require (\<not> (2 < QoSLogs t \<or> 2 < QoSHeartbeat t)) (ErrPlain ''QoS values must be 0..2'')) (\<lambda>_.
      rbind (if skipFS then Inr ()
             else rbind (CheckKeyMode (fs_lstat env) (fs_euid env) (ClientKey t)) (\<lambda>_.
                  each (regular_file (fs_stat env)) [ClientCert t, CACert t])) (\<lambda>_.
      if t_BrokerCertPin t \<noteq> [] then rbind (ParsePin (t_BrokerCertPin t)) (\<lambda>_. Inr ()) else Inr ())))))))"

definition Validate :: "fs_env \<Rightarrow> registry \<Rightarrow> bool \<Rightarrow> Config \<Rightarrow> (sec_error, unit) result" where
  "Validate env reg skipFS c =
     rbind (require (IDPattern (DeviceID (Daemon c))) (ErrInsecure ''daemon.device_id invalid'')) (\<lambda>_.
     rbind (require (IDPattern (Tenant (Daemon c))) (ErrInsecure ''daemon.tenant invalid'')) (\<lambda>_.
     rbind (require (validLogLevel (LogLevel (Daemon c))) (ErrPlain ''daemon.log_level'')) (\<lambda>_.
     let allow = allowlist c in
     rbind (if StateDir (Daemon c) \<noteq> []
            then rbind (ValidatePath (StateDir (Daemon c)) allow) (\<lambda>_.
                 if \<not> skipFS then CheckStateDirMode (fs_lstat env) (fs_euid env) (StateDir (Daemon c)) else Inr ())
            else Inr ()) (\<lambda>_.
     rbind (validateParsers reg c) (\<lambda>_.
     rbind (validateSources c allow) (\<lambda>_.
     validateTransport env skipFS c))))))"

section \<open>Loading\<close>

text \<open>The decoder: the typed pass with the keys it left undecoded, and the generic pass.\<close>

record toml_lib =
  decode_config :: "bytes \<Rightarrow> (string, Config \<times> string list list) result"
  decode_parsers :: "bytes \<Rightarrow> (string, (string \<times> options) list) result"

definition zero_parser :: ParserConfig where
  "zero_parser = \<lparr>pc_Type = [], pc_Options = (\<lambda>_. None)\<rparr>"

definition merge_parser :: "(string \<times> options) \<Rightarrow> (string \<times> ParserConfig) list \<Rightarrow> (string \<times> ParserConfig) list" where
  "merge_parser raw ps =
     (case raw of (name, opts) \<Rightarrow>
       let t = (case as_string (opts ''type'') of None \<Rightarrow> [] | Some s \<Rightarrow> s);
           pc = (case map_of ps name of None \<Rightarrow> zero_parser | Some p \<Rightarrow> p)
       in AList.update name (pc\<lparr>pc_Type := if pc_Type pc = [] then t else pc_Type pc,
                               pc_Options := opts(''type'' := None)\<rparr>) ps)"

definition decodeParserOptions :: "toml_lib \<Rightarrow> bytes \<Rightarrow> Config \<Rightarrow> (sec_error, Config) result" where
  "decodeParserOptions toml data c =
     (case decode_parsers toml data of
        Inl e \<Rightarrow> Inl (ErrPlain ''decode parser options'')
      | Inr raws \<Rightarrow> Inr (c\<lparr>Parsers := fold merge_parser raws (Parsers c)\<rparr>))"

definition unknown_keys :: "string list list \<Rightarrow> string list list" where
  "unknown_keys undecoded = filter (\<lambda>k. \<not> (2 \<le> length k \<and> k ! 0 = ''parsers'')) undecoded"

definition Parse :: "toml_lib \<Rightarrow> fs_env \<Rightarrow> registry \<Rightarrow> bool \<Rightarrow> bytes \<Rightarrow> (sec_error, Config) result" where
  "Parse toml env reg skipFS data =
     (case decode_config toml data of
        Inl e \<Rightarrow> Inl (ErrPlain ''parse'')
      | Inr (c, undecoded) \<Rightarrow>
          rbind (require (\<not> (0 < length undecoded \<and> 0 < length (unknown_keys undecoded))) (ErrPlain ''unknown keys'')) (\<lambda>_.
          rbind (decodeParserOptions toml data c) (\<lambda>c1.
          let c2 = applyDefaults c1 in
          rbind (Validate env reg skipFS c2) (\<lambda>_. Inr c2))))"

definition Load :: "toml_lib \<Rightarrow> fs_env \<Rightarrow> registry \<Rightarrow> bool \<Rightarrow> string \<Rightarrow> (sec_error, Config) result" where
  "Load toml env reg skipFS path =
     rbind (if \<not> skipFS then CheckConfigMode (fs_lstat env) path else Inr ()) (\<lambda>_.
     case fs_read env path of
       None \<Rightarrow> Inl (ErrPlain ''read'')
     | Some data \<Rightarrow> Parse toml env reg skipFS data)"

section \<open>What an accepted configuration is\<close>

definition tls_broker :: "string \<Rightarrow> bool" where
  "tls_broker b \<longleftrightarrow> (\<exists>scheme\<in>{''tls'', ''ssl'', ''mqtts''}. \<exists>rest. b = scheme @ ''://'' @ rest)"

definition source_ok :: "Config \<Rightarrow> SourceConfig \<Rightarrow> bool" where
  "source_ok c s \<longleftrightarrow> s_Parser s \<in> fst ` set (Parsers c)
     \<and> (s_Type s \<in> {''file'', ''journal''} \<and> IsAbs (s_Path s) \<and> list_ex (below (s_Path s)) (allowlist c)
        \<or> s_Type s = ''kmsg'')"

definition transport_ok :: "fs_env \<Rightarrow> bool \<Rightarrow> TransportConfig \<Rightarrow> bool" where
  "transport_ok env skipFS t \<longleftrightarrow> tls_broker (MQTTBroker t)
     \<and> IsAbs (ClientCert t) \<and> IsAbs (ClientKey t) \<and> IsAbs (CACert t)
     \<and> QoSLogs t \<le> 2 \<and> QoSHeartbeat t \<le> 2
     \<and> (skipFS \<or> CheckKeyMode (fs_lstat env) (fs_euid env) (ClientKey t) = Inr ()
          \<and> (\<forall>p\<in>{ClientCert t, CACert t}. \<exists>info. fs_stat env p = Some info \<and> IsRegular (st_mode info)))
     \<and> (t_BrokerCertPin t = [] \<or> (\<exists>pin. ParsePin (t_BrokerCertPin t) = Inr pin))"

definition config_ok :: "fs_env \<Rightarrow> registry \<Rightarrow> bool \<Rightarrow> Config \<Rightarrow> bool" where
  "config_ok env reg skipFS c \<longleftrightarrow> IDPattern (DeviceID (Daemon c)) \<and> IDPattern (Tenant (Daemon c))
     \<and> LogLevel (Daemon c) \<in> {''debug'', ''info'', ''warn'', ''error''}
     \<and> (StateDir (Daemon c) = [] \<or> IsAbs (StateDir (Daemon c)) \<and> list_ex (below (StateDir (Daemon c))) (allowlist c)
          \<and> (skipFS \<or> CheckStateDirMode (fs_lstat env) (fs_euid env) (StateDir (Daemon c)) = Inr ()))
     \<and> Parsers c \<noteq> [] \<and> (\<forall>(name, p)\<in>set (Parsers c). pc_Type p \<noteq> [] \<and> pc_Type p \<in> fst ` set reg)
     \<and> (\<forall>(name, s)\<in>set (Sources c). source_ok c s)
     \<and> transport_ok env skipFS (Transport c)"

lemma IsAbs_ne: "IsAbs p \<Longrightarrow> p \<noteq> []"
  by (auto simp: IsAbs_def HasPrefix_def)

lemma ValidatePath_accepts [accepts]:
  "rbind (ValidatePath p allow) f = Inr w \<longleftrightarrow> IsAbs p \<and> list_ex (below p) allow \<and> f (Clean p) = Inr w"
  by (auto simp: rbind_eq_Inr ValidatePath_iff)

lemma CanonicalizePath_accepts [accepts]:
  "rbind (CanonicalizePath p) f = Inr w \<longleftrightarrow> IsAbs p \<and> f (Clean p) = Inr w"
  by (auto simp: rbind_eq_Inr CanonicalizePath_iff)

lemma validateParsers_iff:
  "validateParsers reg c = Inr () \<longleftrightarrow>
     Parsers c \<noteq> [] \<and> (\<forall>(name, p)\<in>set (Parsers c). pc_Type p \<noteq> [] \<and> pc_Type p \<in> fst ` set reg)"
  by (auto simp: validateParsers_def accepts RegisteredNames_def)

lemma validate_source_iff: "validate_source c (allowlist c) s = Inr () \<longleftrightarrow> source_ok c s"
  using IsAbs_ne[of "s_Path s"]
  by (auto simp: validate_source_def accepts source_ok_def map_of_eq_None_iff split: if_splits)

lemma regular_file_iff: "regular_file fs p = Inr () \<longleftrightarrow> (\<exists>info. fs p = Some info \<and> IsRegular (st_mode info))"
  by (auto simp: regular_file_def accepts split: option.splits)

lemma tls_broker_iff:
  "tls_broker b \<longleftrightarrow> HasPrefix b ''tls://'' \<or> HasPrefix b ''ssl://'' \<or> HasPrefix b ''mqtts://''"
  by (simp add: tls_broker_def HasPrefix_iff)

lemma validateTransport_iff: "validateTransport env skipFS c = Inr () \<longleftrightarrow> transport_ok env skipFS (Transport c)"
proof -
  have b: "b \<noteq> [] \<and> tls_broker b \<longleftrightarrow> tls_broker b" for b by (auto simp: tls_broker_def)
  have a: "\<not> (p = [] \<or> q = [] \<or> r = []) \<and> IsAbs p \<and> IsAbs q \<and> IsAbs r \<longleftrightarrow> IsAbs p \<and> IsAbs q \<and> IsAbs r" for p q r
    by (auto dest: IsAbs_ne)
  show ?thesis
    unfolding validateTransport_def Let_def accepts regular_file_iff transport_ok_def tls_broker_iff[symmetric]
    using b a by (auto simp: accepts regular_file_iff rbind_eq_Inr linorder_not_less)
qed

lemma Validate_iff: "Validate env reg skipFS c = Inr () \<longleftrightarrow> config_ok env reg skipFS c"
  unfolding Validate_def Let_def accepts validateParsers_iff validateSources_def validateTransport_iff config_ok_def
  by (auto simp: accepts validate_source_iff validLogLevel_def)

lemma unknown_keys_iff:
  "\<not> (0 < length undecoded \<and> 0 < length (unknown_keys undecoded))
     \<longleftrightarrow> (\<forall>k\<in>set undecoded. 2 \<le> length k \<and> k ! 0 = ''parsers'')"
  by (auto simp: unknown_keys_def filter_empty_conv)

lemma Parse_iff:
  "Parse toml env reg skipFS data = Inr c \<longleftrightarrow>
     (\<exists>c0 undecoded raws. decode_config toml data = Inr (c0, undecoded)
        \<and> (\<forall>k\<in>set undecoded. 2 \<le> length k \<and> k ! 0 = ''parsers'')
        \<and> decode_parsers toml data = Inr raws
        \<and> c = applyDefaults (c0\<lparr>Parsers := fold merge_parser raws (Parsers c0)\<rparr>))
     \<and> config_ok env reg skipFS c"
proof -
  have d: "decodeParserOptions toml data c0 = Inr c1 \<longleftrightarrow>
      (\<exists>raws. decode_parsers toml data = Inr raws \<and> c1 = c0\<lparr>Parsers := fold merge_parser raws (Parsers c0)\<rparr>)" for c0 c1
    by (auto simp: decodeParserOptions_def split: sum.splits)
  have p: "Parse toml env reg skipFS data = Inr c \<longleftrightarrow>
     (\<exists>c0 undecoded c1. decode_config toml data = Inr (c0, undecoded)
        \<and> (\<forall>k\<in>set undecoded. 2 \<le> length k \<and> k ! 0 = ''parsers'')
        \<and> decodeParserOptions toml data c0 = Inr c1 \<and> c = applyDefaults c1 \<and> config_ok env reg skipFS (applyDefaults c1))"
    unfolding Parse_def Let_def unknown_keys_iff
    by (auto simp: require_accepts rbind_eq_Inr Validate_iff split: sum.split)
  show ?thesis unfolding p d by blast
qed

lemma Load_iff:
  "Load toml env reg skipFS path = Inr c \<longleftrightarrow>
     (skipFS \<or> CheckConfigMode (fs_lstat env) path = Inr ())
     \<and> (\<exists>data c0 undecoded raws. fs_read env path = Some data \<and> decode_config toml data = Inr (c0, undecoded)
          \<and> (\<forall>k\<in>set undecoded. 2 \<le> length k \<and> k ! 0 = ''parsers'')
          \<and> decode_parsers toml data = Inr raws
          \<and> c = applyDefaults (c0\<lparr>Parsers := fold merge_parser raws (Parsers c0)\<rparr>))
     \<and> config_ok env reg skipFS c"
proof -
  have "Load toml env reg skipFS path = Inr c \<longleftrightarrow>
     (skipFS \<or> CheckConfigMode (fs_lstat env) path = Inr ())
     \<and> (\<exists>data. fs_read env path = Some data \<and> Parse toml env reg skipFS data = Inr c)"
    unfolding Load_def unit_rbind_accepts by (auto split: option.split)
  then show ?thesis unfolding Parse_iff by blast
qed

lemma Load_config_ok: "Load toml env reg skipFS path = Inr c \<Longrightarrow> config_ok env reg skipFS c"
  unfolding Load_iff by blast

text \<open>C24. The type of a configuration: loading succeeds with \<open>c\<close> exactly when the file is safe to read (unless
  file checks are skipped), decodes with no unknown key outside the parser tables, \<open>c\<close> is the decoded
  structure with parser options merged and defaults filled in, and \<open>c\<close> is well formed: identifiers fit
  for topics, a known log level, a private state directory inside the allowlist, registered parser
  types, sources that name a defined parser and stay inside the allowlist, a TLS broker, absolute
  certificate paths, a private key file, quality of service at most 2 and a pin of 32 bytes if any.\<close>

theorem load_accepts:
  "Load toml env reg skipFS path = Inr c \<longleftrightarrow>
     (skipFS \<or> CheckConfigMode (fs_lstat env) path = Inr ())
     \<and> (\<exists>data c0 undecoded raws. fs_read env path = Some data \<and> decode_config toml data = Inr (c0, undecoded)
          \<and> (\<forall>k\<in>set undecoded. 2 \<le> length k \<and> k ! 0 = ''parsers'')
          \<and> decode_parsers toml data = Inr raws
          \<and> c = applyDefaults (c0\<lparr>Parsers := fold merge_parser raws (Parsers c0)\<rparr>))
     \<and> config_ok env reg skipFS c"
  by (rule Load_iff)

definition example_config :: Config where
  "example_config =
     \<lparr>Daemon = \<lparr>DeviceID = ''dev-1'', Tenant = ''acme'', StateDir = ''/var/lib/blackboxd'', LogLevel = []\<rparr>,
      Sources = [(''sys'', \<lparr>s_Type = ''file'', s_Parser = ''bsd'', s_Path = ''/var/log/messages'', s_FromBeginning = False,
        s_FollowRotation = True, s_FollowSymlinks = False, s_Units = [], s_MinPriority = 0\<rparr>)],
      Parsers = [(''bsd'', \<lparr>pc_Type = ''syslog_bsd'', pc_Options = (\<lambda>_. None)\<rparr>)],
      Transport = \<lparr>MQTTBroker = ''tls://broker:8883'', ClientCert = ''/etc/c'', ClientKey = ''/etc/k'', CACert = ''/etc/ca'',
        t_BrokerCertPin = [], QoSLogs = 0, QoSHeartbeat = 0, HeartbeatInterval = 0\<rparr>,
      Buffer = \<lparr>MaxEntries = 0, MaxBytes = 0, c_BatchSize = 0, c_BatchInterval = 0, c_MaxLineBytes = 0\<rparr>,
      Spool_MaxSizeBytes = 0, PerSourceLinesPerSec = 0, Shutdown_Timeout = 0, AllowedPathPrefixes = []\<rparr>"

definition example_fs :: fs_env where
  "example_fs = \<lparr>fs_lstat = (\<lambda>_. None), fs_stat = (\<lambda>_. None), fs_euid = 0, fs_read = (\<lambda>_. Some [])\<rparr>"

definition example_toml :: toml_lib where
  "example_toml = \<lparr>decode_config = (\<lambda>_. Inr (example_config, [[''parsers'', ''bsd'', ''timezone'']])),
     decode_parsers = (\<lambda>_. Inr [(''bsd'', [''type'' \<mapsto> AnyString ''syslog_bsd'', ''timezone'' \<mapsto> AnyString ''UTC''])])\<rparr>"

lemma example_loads:
  "\<exists>c. Load example_toml example_fs (init_registrations example_env) True ''/etc/blackboxd.toml'' = Inr c
    \<and> config_ok example_fs (init_registrations example_env) True c \<and> QoSLogs (Transport c) = 1"
proof -
  let ?raws = "[(''bsd'', [''type'' \<mapsto> AnyString ''syslog_bsd'', ''timezone'' \<mapsto> AnyString ''UTC''])]"
  define c where "c = applyDefaults (example_config\<lparr>Parsers := fold merge_parser ?raws (Parsers example_config)\<rparr>)"
  have id: "IDPattern ''dev-1''" "IDPattern ''acme''" by code_simp+
  have b: "list_ex (below ''/var/lib/blackboxd'') DefaultAllowedPrefixes" "list_ex (below ''/var/log/messages'') DefaultAllowedPrefixes"
    by code_simp+
  have tb: "tls_broker ''tls://broker:8883''" by (simp add: tls_broker_iff HasPrefix_def)
  have ok: "config_ok example_fs (init_registrations example_env) True c"
    by (simp add: config_ok_def c_def example_config_def applyDefaults_def merge_parser_def id b tb allowlist_def IsAbs_def
        HasPrefix_def source_ok_def transport_ok_def init_defs or_default_def)
  have "Load example_toml example_fs (init_registrations example_env) True ''/etc/blackboxd.toml'' = Inr c"
    unfolding Load_iff using ok by (simp add: example_toml_def example_fs_def c_def)
  with ok show ?thesis by (intro exI[of _ c]) (simp add: c_def applyDefaults_def example_config_def or_default_def)
qed

theorem load_accepts_witness:
  "\<exists>c. Load example_toml example_fs (init_registrations example_env) True ''/etc/blackboxd.toml'' = Inr c
    \<and> config_ok example_fs (init_registrations example_env) True c"
proof -
  obtain c where c: "Load example_toml example_fs (init_registrations example_env) True ''/etc/blackboxd.toml'' = Inr c"
    using example_loads by blast
  with c[unfolded load_accepts] show ?thesis by blast
qed

section \<open>Defaults, merging and map order\<close>

lemma applyDefaults_idem: "applyDefaults (applyDefaults c) = applyDefaults c"
  by (simp add: applyDefaults_def or_default_def)

text \<open>Explicit values are kept; in particular the defaults are the only way to a value that was zero, so that a
  configured quality of service 0 for logs, which validation would allow, becomes 1.\<close>

lemma qos_zero_replaced:
  assumes "Parse toml env reg skipFS data = Inr c"
  shows "QoSLogs (Transport c) \<noteq> 0" "MaxEntries (Buffer c) \<noteq> 0" "c_BatchSize (Buffer c) \<noteq> 0"
proof -
  obtain c1 where c: "c = applyDefaults c1" using assms unfolding Parse_iff by blast
  show "QoSLogs (Transport c) \<noteq> 0" "MaxEntries (Buffer c) \<noteq> 0" "c_BatchSize (Buffer c) \<noteq> 0"
    by (simp_all add: c applyDefaults_def or_default_def)
qed

lemma map_of_merge_parser:
  "map_of (merge_parser (n, opts) ps) k =
     (if k = n
      then Some (let pc = (case map_of ps n of None \<Rightarrow> zero_parser | Some p \<Rightarrow> p)
                 in pc\<lparr>pc_Type := if pc_Type pc = [] then (case as_string (opts ''type'') of None \<Rightarrow> [] | Some s \<Rightarrow> s) else pc_Type pc,
                       pc_Options := opts(''type'' := None)\<rparr>)
      else map_of ps k)"
  by (simp add: merge_parser_def Let_def)

text \<open>Every parser table reaches its parser, without its type key, in whatever order the tables are visited.\<close>

lemma merged_options:
  assumes "distinct (map fst raws)" "(n, opts) \<in> set raws"
  shows "\<exists>pc. map_of (fold merge_parser raws ps) n = Some pc \<and> pc_Options pc = opts(''type'' := None)"
  using assms
proof (induction raws arbitrary: ps)
  case (Cons r raws)
  obtain m o' where r: "r = (m, o')" by (cases r)
  have keep: "map_of (fold merge_parser rs qs) k = map_of qs k" if "k \<notin> fst ` set rs" for rs qs k
    using that
  proof (induction rs arbitrary: qs)
    case (Cons a rs)
    then show ?case by (cases a) (simp add: map_of_merge_parser)
  qed simp
  show ?case
  proof (cases "n = m")
    case True
    then have "opts = o'" using Cons.prems r by (auto simp: image_iff)
    then show ?thesis using True Cons.prems r keep[of m raws] by (simp add: map_of_merge_parser Let_def fun_upd_def)
  next
    case False
    then show ?thesis using Cons r by auto
  qed
qed simp

lemma validation_order_irrelevant:
  assumes "set ps = set (Parsers c)" "set ss = set (Sources c)"
  shows "Validate env reg skipFS (c\<lparr>Parsers := ps, Sources := ss\<rparr>) = Inr () \<longleftrightarrow> Validate env reg skipFS c = Inr ()"
proof -
  have "ps = [] \<longleftrightarrow> Parsers c = []" using assms(1) by (metis set_empty)
  then show ?thesis unfolding Validate_iff config_ok_def source_ok_def using assms by (simp add: allowlist_def)
qed

end
