(* ===== verification/Transport_MQTT.thy ===== *)
theory Transport_MQTT
  imports Security_TLS Go_Float
begin

text \<open>
  \<^verbatim>\<open>src/internal/transport/transport.go\<close> and \<^verbatim>\<open>mqtt.go\<close>: topics, the broker address, the options handed to
  the MQTT library and the reading of its answers. The library (\<^verbatim>\<open>autopaho\<close>, \<^verbatim>\<open>paho\<close>) is a parameter: what
  it answers to a connection request and to a publish. Of \<^verbatim>\<open>net/url\<close> the scheme is read as the library
  does; everything behind it is a parameter.
\<close>

section \<open>Topics\<close>

record Topics =
  Logs :: string
  Status :: string
  Heartbeat :: string
  Metrics :: string

definition NewTopics :: "string \<Rightarrow> string \<Rightarrow> (string, Topics) result" where
  "NewTopics tenant deviceID =
     (if tenant = [] \<or> deviceID = [] then Inl ''transport: tenant and device_id required''
      else let base = ''blackbox/v1/'' @ tenant @ ''/'' @ deviceID in
        Inr \<lparr>Logs = base @ ''/logs'', Status = base @ ''/status'', Heartbeat = base @ ''/heartbeat'',
             Metrics = base @ ''/metrics''\<rparr>)"

section \<open>The broker address\<close>

text \<open>\<^verbatim>\<open>getScheme\<close> of \<^verbatim>\<open>net/url\<close>: the letters, digits and \<^verbatim>\<open>+-.\<close> before the first colon; \<^const>\<open>None\<close> is an error, an
  empty scheme means that there is none.\<close>

definition is_letter :: "char \<Rightarrow> bool" where
  "is_letter c = (let n = of_char c :: nat in 97 \<le> n \<and> n \<le> 122 \<or> 65 \<le> n \<and> n \<le> 90)"

fun get_scheme :: "nat \<Rightarrow> string \<Rightarrow> string \<Rightarrow> string option" where
  "get_scheme i acc [] = Some []"
| "get_scheme i acc (c # cs) =
     (if is_letter c then get_scheme (i + 1) (acc @ [c]) cs
      else if is_digit c \<or> c \<in> {CHR ''+'', CHR ''-'', CHR ''.''}
      then if i = 0 then Some [] else get_scheme (i + 1) (acc @ [c]) cs
      else if c = CHR '':'' then if i = 0 then None else Some acc
      else Some [])"

record 'u URL =
  Scheme :: string
  url_rest :: 'u

definition url_Parse :: "(string \<Rightarrow> 'u option) \<Rightarrow> string \<Rightarrow> 'u URL option" where
  "url_Parse rest raw =
     (case get_scheme 0 [] raw of
        None \<Rightarrow> None
      | Some s \<Rightarrow> (case rest raw of None \<Rightarrow> None | Some r \<Rightarrow> Some \<lparr>Scheme = ToLower s, url_rest = r\<rparr>))"

definition normalizeBrokerURL :: "(string \<Rightarrow> 'u option) \<Rightarrow> string \<Rightarrow> (string, 'u URL) result" where
  "normalizeBrokerURL rest raw =
     (case url_Parse rest raw of
        None \<Rightarrow> Inl ''transport: parse broker URL''
      | Some u \<Rightarrow>
          (let s = ToLower (Scheme u) in
           if s \<in> {''tls'', ''ssl'', ''mqtts''} then Inr (u\<lparr>Scheme := ''tls''\<rparr>)
           else if s = [] then Inl ''transport: broker URL lacks scheme''
           else Inl ''transport: broker URL uses non-TLS scheme''))"

section \<open>Connecting\<close>

text \<open>Durations are nanoseconds.\<close>

record 'k MQTTPublisherConfig =
  BrokerURL :: string
  TLSConfig :: "'k tls_Config option"
  ClientID :: string
  StatusTopic :: string
  OfflinePayload :: bytes
  OnlinePayload :: bytes
  StatusQoS :: "8 word"
  StatusRetain :: bool
  m_KeepAlive :: int
  m_ConnectRetryDelay :: int
  m_ConnectTimeout :: int

abbreviation second :: int where "second \<equiv> 1000000000"

definition mqtt_defaults :: "'k MQTTPublisherConfig \<Rightarrow> 'k MQTTPublisherConfig" where
  "mqtt_defaults cfg =
     (let k0 = (if m_KeepAlive cfg = 0 then 30 * second else m_KeepAlive cfg);
          k = (if 65535 < Seconds k0 then 65535 * second else k0)
      in cfg\<lparr>m_KeepAlive := k,
             m_ConnectRetryDelay := if m_ConnectRetryDelay cfg = 0 then 10 * second else m_ConnectRetryDelay cfg,
             m_ConnectTimeout := if m_ConnectTimeout cfg = 0 then 10 * second else m_ConnectTimeout cfg\<rparr>)"

text \<open>\<^verbatim>\<open>uint16(x)\<close> of a float: truncation; outside the range the machine decides (the argument \<open>cvt\<close>).\<close>

definition to_uint16 :: "(rat \<Rightarrow> 16 word) \<Rightarrow> rat \<Rightarrow> 16 word" where
  "to_uint16 cvt q = (if 0 \<le> trunc q \<and> trunc q < 2 ^ 16 then of_int (trunc q) else cvt q)"

type_synonym mqtt_message = "string \<times> bytes \<times> 8 word \<times> bool"

text \<open>What is handed to \<^verbatim>\<open>autopaho.NewConnection\<close>.\<close>

record ('k, 'u) ClientConfig =
  ServerUrls :: "'u URL list"
  TlsCfg :: "'k tls_Config"
  KeepAlive16 :: "16 word"
  CleanStart :: bool
  cc_ConnectRetryDelay :: int
  cc_ConnectTimeout :: int
  cc_ClientID :: string
  WillMessage :: "mqtt_message option"

definition status_message :: "'k MQTTPublisherConfig \<Rightarrow> bytes \<Rightarrow> mqtt_message option" where
  "status_message cfg payload =
     (if StatusTopic cfg \<noteq> [] \<and> 0 < length payload
      then Some (StatusTopic cfg, payload, StatusQoS cfg, StatusRetain cfg) else None)"

text \<open>\<^verbatim>\<open>OnConnectionUp\<close>: what is published on every (re)connection; its failure is only logged.\<close>

definition OnConnectionUp :: "'k MQTTPublisherConfig \<Rightarrow> mqtt_message option" where
  "OnConnectionUp cfg = status_message cfg (OnlinePayload cfg)"

definition client_config ::
  "(rat \<Rightarrow> 16 word) \<Rightarrow> 'k MQTTPublisherConfig \<Rightarrow> 'k tls_Config \<Rightarrow> 'u URL \<Rightarrow> ('k, 'u) ClientConfig" where
  "client_config cvt cfg tls u =
     \<lparr>ServerUrls = [u], TlsCfg = tls, KeepAlive16 = to_uint16 cvt (Seconds (m_KeepAlive cfg)), CleanStart = True,
      cc_ConnectRetryDelay = m_ConnectRetryDelay cfg, cc_ConnectTimeout = m_ConnectTimeout cfg,
      cc_ClientID = ClientID cfg, WillMessage = status_message cfg (OfflinePayload cfg)\<rparr>"

definition NewMQTTPublisher ::
  "(rat \<Rightarrow> 16 word) \<Rightarrow> (string \<Rightarrow> 'u option) \<Rightarrow> (('k, 'u) ClientConfig \<Rightarrow> (string, 'c) result) \<Rightarrow> 'k MQTTPublisherConfig
    \<Rightarrow> (string, 'c \<times> 'k MQTTPublisherConfig) result" where
  "NewMQTTPublisher cvt rest newConnection cfg0 =
     (case TLSConfig cfg0 of
        None \<Rightarrow> Inl ''transport: broker URL, TLS config, and client ID required''
      | Some tls \<Rightarrow>
          if BrokerURL cfg0 = [] \<or> ClientID cfg0 = []
          then Inl ''transport: broker URL, TLS config, and client ID required''
          else let cfg = mqtt_defaults cfg0 in
            rbind (normalizeBrokerURL rest (BrokerURL cfg)) (\<lambda>u.
            case newConnection (client_config cvt cfg tls u) of
              Inl e \<Rightarrow> Inl ''transport: autopaho.NewConnection''
            | Inr cm \<Rightarrow> Inr (cm, cfg)))"

section \<open>Publishing\<close>

text \<open>A broker's answer: its reason code, and the reason string when properties are present.\<close>

record PublishResponse =
  ReasonCode :: "8 word"
  ReasonString :: "string option"

datatype publish_error = NotConnected | PublishFailed string | BrokerReason "8 word" string

text \<open>\<open>cm\<close> is what the connection answers to a publish; \<^const>\<open>None\<close> is a publisher without a connection.\<close>

definition MQTT_Publish ::
  "(mqtt_message \<Rightarrow> (string, PublishResponse option) result) option \<Rightarrow> mqtt_message \<Rightarrow> (publish_error, unit) result" where
  "MQTT_Publish cm m =
     (case cm of
        None \<Rightarrow> Inl NotConnected
      | Some send \<Rightarrow>
          (case send m of
             Inl e \<Rightarrow> Inl (PublishFailed e)
           | Inr resp \<Rightarrow>
               (case resp of
                  None \<Rightarrow> Inr ()
                | Some r \<Rightarrow>
                    if 0x80 \<le> ReasonCode r
                    then Inl (BrokerReason (ReasonCode r) (case ReasonString r of None \<Rightarrow> [] | Some s \<Rightarrow> s))
                    else Inr ())))"

definition MQTT_Close :: "(unit \<Rightarrow> (string, unit) result) option \<Rightarrow> (string, unit) result" where
  "MQTT_Close cm = (case cm of None \<Rightarrow> Inr () | Some disconnect \<Rightarrow> disconnect ())"

definition AwaitConnection :: "(unit \<Rightarrow> (string, unit) result) option \<Rightarrow> (string, unit) result" where
  "AwaitConnection cm = (case cm of None \<Rightarrow> Inl ''transport: not initialised'' | Some await \<Rightarrow> await ())"

section \<open>The broker address is always TLS\<close>

lemma get_scheme_letters:
  "list_all is_letter s \<Longrightarrow> 0 < i \<or> s \<noteq> [] \<Longrightarrow> get_scheme i acc (s @ CHR '':'' # r) = Some (acc @ s)"
proof (induction s arbitrary: i acc)
  case Nil
  then show ?case by (simp add: is_letter_def is_digit_def)
qed simp

lemma normalize_tls:
  "normalizeBrokerURL rest raw = Inr u \<Longrightarrow> Scheme u = ''tls''"
  by (auto simp: normalizeBrokerURL_def Let_def split: option.splits if_splits)

lemma normalize_accepts:
  assumes "scheme \<in> {''tls'', ''ssl'', ''mqtts''}" "rest (scheme @ ''://'' @ r) = Some x"
  shows "normalizeBrokerURL rest (scheme @ ''://'' @ r) = Inr \<lparr>Scheme = ''tls'', url_rest = x\<rparr>"
proof -
  have l: "list_all is_letter scheme" "scheme \<noteq> []" "ToLower (ToLower scheme) = scheme"
    using assms(1) by (auto simp: is_letter_def ToLower_def)
  then have "get_scheme 0 [] (scheme @ ''://'' @ r) = Some scheme"
    using get_scheme_letters[of scheme 0 "[]" "''//'' @ r"] by simp
  moreover have "ToLower scheme \<in> {''tls'', ''ssl'', ''mqtts''}" "ToLower (ToLower scheme) \<in> {''tls'', ''ssl'', ''mqtts''}"
    using assms(1) by (auto simp: ToLower_def)
  ultimately show ?thesis using assms(2) by (simp add: normalizeBrokerURL_def url_Parse_def Let_def)
qed

section \<open>The keep-alive time fits its sixteen bits\<close>

lemma rnd_below_next:
  fixes n :: int
  assumes "0 \<le> n" "n < 65536"
  shows "rnd (of_int n + 1 - 1 / 68719476736) = of_int n + 1 - 1 / 68719476736"
proof -
  let ?m = "n * 68719476736 + 68719476735"
  have p: "pow2 (- 36) = 1 / 68719476736" using pow2_div[of 0 36] pow2_nat[of 36] pow2_nat[of 0] by simp
  have e: "of_int ?m * pow2 (- 36) = of_int n + 1 - 1 / 68719476736"
    unfolding p by simp
  have m: "0 < ?m" "?m < 2 ^ 53" using assms by simp_all
  have "rnd_pos (of_int ?m * pow2 (- 36)) = of_int ?m * pow2 (- 36)" by (rule rnd_pos_scaled[OF m]) simp
  moreover have "0 < of_int ?m * pow2 (- 36)" 
    using m(1) by (intro mult_pos_pos pow2_pos) (simp only: of_int_0_less_iff)
  ultimately show ?thesis unfolding e by (simp add: rnd_def)
qed

lemma Seconds_bounds:
  assumes "0 \<le> d" "d div second \<le> 65535"
  shows "of_int (d div second) \<le> Seconds d \<and> Seconds d < of_int (d div second) + 1"
proof -
  define s where "s = d div second"
  define f where "f = rnd (of_int (d - s * second) / 1000000000)"
  have s: "0 \<le> s" "s < 65536" using assms by (simp_all add: s_def pos_imp_zdiv_nonneg_iff)
  have n: "0 \<le> d - s * second" "d - s * second \<le> 999999999"
    unfolding s_def by (simp_all add: minus_div_mult_eq_mod)
  have sec: "Seconds d = rnd (of_int s + f)"
  proof -
    have "rnd (of_int s) = of_int s" "rnd (of_int (d - s * second)) = of_int (d - s * second)"
      using s n by (intro rnd_int; simp)+
    then show ?thesis using assms(1)
      by (simp add: Seconds_def f_def go_div_nonneg go_mod_nonneg minus_div_mult_eq_mod[symmetric] flip: s_def)
  qed
  have f0: "0 \<le> f" unfolding f_def using n by (intro rnd_nonneg) simp
  have "of_int (d - s * second) \<le> (999999999 :: rat)" using n(2) by linarith
  then have "of_int (d - s * second) / 1000000000 \<le> (of_int 0 + 1 - 1 / 68719476736 :: rat)" by simp
  from rnd_mono[OF this] have f1: "f \<le> 1 - 1 / 68719476736" using rnd_below_next[of 0] by (simp add: f_def)
  have "rnd (of_int s) \<le> rnd (of_int s + f)" using f0 by (intro rnd_mono) simp
  moreover have "rnd (of_int s + f) \<le> rnd (of_int s + 1 - 1 / 68719476736)" using f1 by (intro rnd_mono) simp
  moreover have "rnd (of_int s) = of_int s" using s by (intro rnd_int) simp
  ultimately show ?thesis using rnd_below_next[OF s] by (simp add: sec s_def[symmetric])
qed

lemma Seconds_large:
  assumes "65536 \<le> d div second"
  shows "65535 < Seconds d"
proof -
  define s where "s = d div second"
  have d0: "0 \<le> d"
  proof (rule ccontr)
    assume "\<not> 0 \<le> d"
    then have "d div second < 0" by (simp add: neg_imp_zdiv_neg_iff)
    then show False using assms by simp
  qed
  let ?f = "rnd (rnd (of_int (d mod second)) / 1000000000)"
  have r: "rnd (of_int 65536) = 65536" by (subst rnd_int) simp_all
  have "0 \<le> ?f" by (intro rnd_nonneg divide_nonneg_nonneg) simp_all
  moreover have "rnd (of_int 65536) \<le> rnd (of_int s)" using assms by (intro rnd_mono) (simp add: s_def)
  ultimately have "rnd (of_int 65536) \<le> rnd (rnd (of_int s) + ?f)" using r by (intro rnd_mono) simp
  then show ?thesis using d0 r by (simp add: Seconds_def s_def go_div_nonneg go_mod_nonneg)
qed

lemma trunc_between: "0 \<le> n \<Longrightarrow> of_int n \<le> q \<Longrightarrow> q < of_int n + 1 \<Longrightarrow> trunc q = n" for q :: rat
  by (auto simp: trunc_def floor_eq_iff)

lemma keepalive_seconds:
  assumes "0 \<le> d"
  shows "to_uint16 cvt (Seconds (if 65535 < Seconds d then 65535 * second else d)) = of_int (min 65535 (d div second))"
proof -
  have t: "to_uint16 cvt (Seconds e) = of_int (e div second)" if "0 \<le> e" "e div second \<le> 65535" for e
  proof -
    have e: "0 \<le> e div second" using that by (simp add: pos_imp_zdiv_nonneg_iff)
    have "trunc (Seconds e) = e div second" using trunc_between[OF e] Seconds_bounds[OF that] by blast
    then show ?thesis using e that by (simp add: to_uint16_def)
  qed
  consider "65536 \<le> d div second" | "d div second \<le> 65535" "65535 < Seconds d" | "d div second \<le> 65535" "\<not> 65535 < Seconds d"
    by linarith
  then show ?thesis
  proof cases
    case 1
    then show ?thesis using Seconds_large[OF 1] t[of "65535 * second"] by simp
  next
    case 2
    then have "65535 < of_int (d div second) + (1 :: rat)"
      using Seconds_bounds[OF assms 2(1)] by linarith
    then have "d div second = 65535" using 2(1) by linarith
    then show ?thesis using 2 t[of "65535 * second"] by simp
  next
    case 3
    then show ?thesis using t[OF assms 3(1)] by simp
  qed
qed

section \<open>Connection and publish\<close>

text \<open>C27. What the MQTT library is asked for: whenever a publisher is created, the connection was requested for
  one address whose scheme is TLS, with the given TLS configuration and client name, with the offline
  status as the will, and with a keep-alive time that is the configured number of whole seconds
  (thirty by default) cut at 65535, never a truncation of its sixteen bits.\<close>

theorem mqtt_connection:
  assumes "NewMQTTPublisher cvt rest newConnection cfg0 = Inr (cm, cfg)" "0 \<le> m_KeepAlive cfg0"
  shows "\<exists>pcfg u. newConnection pcfg = Inr cm \<and> ServerUrls pcfg = [u] \<and> Scheme u = ''tls''
    \<and> TLSConfig cfg0 = Some (TlsCfg pcfg) \<and> cc_ClientID pcfg = ClientID cfg0 \<and> ClientID cfg0 \<noteq> []
    \<and> KeepAlive16 pcfg = of_int (if m_KeepAlive cfg0 = 0 then 30 else min 65535 (m_KeepAlive cfg0 div second))
    \<and> (WillMessage pcfg = (if StatusTopic cfg0 \<noteq> [] \<and> OfflinePayload cfg0 \<noteq> []
          then Some (StatusTopic cfg0, OfflinePayload cfg0, StatusQoS cfg0, StatusRetain cfg0) else None))
    \<and> (OnConnectionUp cfg = (if StatusTopic cfg0 \<noteq> [] \<and> OnlinePayload cfg0 \<noteq> []
          then Some (StatusTopic cfg0, OnlinePayload cfg0, StatusQoS cfg0, StatusRetain cfg0) else None))
    \<and> cc_ConnectTimeout pcfg \<noteq> 0 \<and> cc_ConnectRetryDelay pcfg \<noteq> 0"
proof -
  define k0 where "k0 = (if m_KeepAlive cfg0 = 0 then 30 * second else m_KeepAlive cfg0)"
  have k: "to_uint16 cvt (Seconds (m_KeepAlive (mqtt_defaults cfg0)))
      = of_int (if m_KeepAlive cfg0 = 0 then 30 else min 65535 (m_KeepAlive cfg0 div second))"
    using keepalive_seconds[of k0 cvt] assms(2) by (auto simp: mqtt_defaults_def k0_def[symmetric] Let_def) (simp_all add: k0_def)
  have d: "StatusTopic (mqtt_defaults cfg0) = StatusTopic cfg0" "OfflinePayload (mqtt_defaults cfg0) = OfflinePayload cfg0"
    "OnlinePayload (mqtt_defaults cfg0) = OnlinePayload cfg0" "StatusQoS (mqtt_defaults cfg0) = StatusQoS cfg0"
    "StatusRetain (mqtt_defaults cfg0) = StatusRetain cfg0" "ClientID (mqtt_defaults cfg0) = ClientID cfg0"
    "m_ConnectTimeout (mqtt_defaults cfg0) \<noteq> 0" "m_ConnectRetryDelay (mqtt_defaults cfg0) \<noteq> 0"
    by (simp_all add: mqtt_defaults_def Let_def)
  from assms(1) obtain tls u where t: "TLSConfig cfg0 = Some tls" "ClientID cfg0 \<noteq> []"
    "normalizeBrokerURL rest (BrokerURL (mqtt_defaults cfg0)) = Inr u"
    and n: "(case newConnection (client_config cvt (mqtt_defaults cfg0) tls u) of
      Inl e \<Rightarrow> Inl ''transport: autopaho.NewConnection'' | Inr cm \<Rightarrow> Inr (cm, mqtt_defaults cfg0)) = Inr (cm, cfg)"
    by (auto simp: NewMQTTPublisher_def Let_def rbind_eq_Inr split: option.splits if_splits)
  from n have c: "newConnection (client_config cvt (mqtt_defaults cfg0) tls u) = Inr cm" "cfg = mqtt_defaults cfg0"
    by (auto split: sum.splits)
  show ?thesis
    by (rule exI[of _ "client_config cvt (mqtt_defaults cfg0) tls u"], rule exI[of _ u])
      (use normalize_tls[OF t(3)] t c d k in \<open>simp add: client_config_def status_message_def OnConnectionUp_def\<close>)
qed

definition example_mqtt :: "bytes MQTTPublisherConfig" where
  "example_mqtt = \<lparr>BrokerURL = ''mqtts://broker:8883'',
     TLSConfig = Some \<lparr>MinVersion = VersionTLS12, RootCAs = [], Certificates = [], tls_ServerName = ''broker'',
       InsecureSkipVerify = False, VerifyConnection = None\<rparr>,
     ClientID = ''acme-dev1'', StatusTopic = ''s'', OfflinePayload = ''off'', OnlinePayload = ''on'', StatusQoS = 1,
     StatusRetain = True, m_KeepAlive = 100000 * second, m_ConnectRetryDelay = 0, m_ConnectTimeout = 0\<rparr>"

theorem mqtt_connection_witness:
  "\<exists>pcfg cfg. NewMQTTPublisher (\<lambda>_. 0) (\<lambda>_. Some ''broker:8883'') Inr example_mqtt = Inr (pcfg, cfg)
     \<and> KeepAlive16 pcfg = 65535 \<and> WillMessage pcfg = Some (''s'', ''off'', 1, True)"
proof -
  have n: "normalizeBrokerURL (\<lambda>_. Some ''broker:8883'') (''mqtts'' @ ''://'' @ ''broker:8883'')
      = Inr \<lparr>Scheme = ''tls'', url_rest = ''broker:8883''\<rparr>"
    by (rule normalize_accepts) simp_all
  have b: "BrokerURL (mqtt_defaults example_mqtt) = ''mqtts'' @ ''://'' @ ''broker:8883''"
    by (simp add: mqtt_defaults_def example_mqtt_def Let_def)
  obtain pcfg cfg where p: "NewMQTTPublisher (\<lambda>_. 0) (\<lambda>_. Some ''broker:8883'') Inr example_mqtt = Inr (pcfg, cfg)"
    unfolding NewMQTTPublisher_def Let_def b n by (simp add: example_mqtt_def)
  from mqtt_connection[OF this] have "KeepAlive16 pcfg = 65535" "WillMessage pcfg = Some (''s'', ''off'', 1, True)"
    by (auto simp: example_mqtt_def)
  with p show ?thesis by blast
qed

text \<open>A publish succeeds exactly when the publisher is connected and the library reports neither an error
  nor a reason code of 128 or above; each failure is reported as its own kind of error.\<close>

lemma publish_outcome:
  "MQTT_Publish cm m =
     (case cm of
        None \<Rightarrow> Inl NotConnected
      | Some send \<Rightarrow> case send m of
          Inl e \<Rightarrow> Inl (PublishFailed e)
        | Inr resp \<Rightarrow> if \<exists>r. resp = Some r \<and> bit (ReasonCode r) 7
                      then Inl (BrokerReason (ReasonCode (the resp)) (case ReasonString (the resp) of None \<Rightarrow> [] | Some s \<Rightarrow> s))
                      else Inr ())"
proof -
  have b: "bit r 7 \<longleftrightarrow> 0x80 \<le> r" for r :: "8 word"
  proof -
    have "unat r < 256" using unsigned_less[of r, where ?'a = nat] by simp
    then have "unat r div 128 \<le> 1" by simp
    then have "odd (unat r div 2 ^ 7) \<longleftrightarrow> 128 \<le> unat r" by (cases "unat r div 128") auto
    moreover have "bit r 7 \<longleftrightarrow> bit (unat r) 7" by (simp add: bit_unsigned_iff)
    ultimately show ?thesis by (simp add: bit_iff_odd word_le_nat_alt)
  qed
  show ?thesis
    by (auto simp: MQTT_Publish_def b split: option.splits sum.splits)
qed

end
