(* ===== verification/Go_Duration.thy ===== *)
theory Go_Duration
  imports Go_Float Go_Time
begin

text \<open>
  \<^verbatim>\<open>time.ParseDuration\<close>, which reads the durations of the configuration (\<^verbatim>\<open>Duration.UnmarshalText\<close>) and of
  \<^verbatim>\<open>--since\<close>, with its 64-bit overflow checks and its floating-point fractions; and the proof that a sum of
  whole numbers of units is read exactly.
\<close>

section \<open>Reading a duration\<close>

definition unitMap :: "string \<Rightarrow> nat option" where
  "unitMap u =
     (if u = ''ns'' then Some 1
      else if u = ''us'' \<or> u = [CHR 0xC2, CHR 0xB5] @ ''s'' \<or> u = [CHR 0xCE, CHR 0xBC] @ ''s'' then Some 1000
      else if u = ''ms'' then Some 1000000
      else if u = ''s'' then Some 1000000000
      else if u = ''m'' then Some 60000000000
      else if u = ''h'' then Some 3600000000000
      else None)"

text \<open>\<^verbatim>\<open>leadingInt\<close>: \<^const>\<open>None\<close> is the overflow error.\<close>

fun leadingInt :: "nat \<Rightarrow> string \<Rightarrow> (nat \<times> string) option" where
  "leadingInt x [] = Some (x, [])"
| "leadingInt x (c # cs) =
     (if \<not> is_digit c then Some (x, c # cs)
      else if 2 ^ 63 div 10 < x then None
      else let y = x * 10 + digit_val c in if 2 ^ 63 < y then None else leadingInt y cs)"

text \<open>\<^verbatim>\<open>leadingFraction\<close>: digits past the precision are skipped; the scale is a float.\<close>

fun leadingFraction :: "bool \<Rightarrow> nat \<Rightarrow> rat \<Rightarrow> string \<Rightarrow> nat \<times> rat \<times> string" where
  "leadingFraction overflow x scale [] = (x, scale, [])"
| "leadingFraction overflow x scale (c # cs) =
     (if \<not> is_digit c then (x, scale, c # cs)
      else if overflow then leadingFraction overflow x scale cs
      else if (2 ^ 63 - 1) div 10 < x then leadingFraction True x scale cs
      else let y = x * 10 + digit_val c in
        if 2 ^ 63 < y then leadingFraction True x scale cs
        else leadingFraction False y (rnd (scale * 10)) cs)"

definition unit_char :: "char \<Rightarrow> bool" where
  "unit_char c \<longleftrightarrow> \<not> (c = CHR ''.'' \<or> is_digit c)"

lemma leadingInt_length: "leadingInt x s = Some (v, s') \<Longrightarrow> length s' \<le> length s"
  by (induction x s rule: leadingInt.induct) (auto simp: Let_def split: if_splits intro: le_SucI)

lemma leadingFraction_length: "leadingFraction ov x sc s = (v, sc', s') \<Longrightarrow> length s' \<le> length s"
  by (induction ov x sc s rule: leadingFraction.induct) (auto simp: Let_def split: if_splits intro: le_SucI)

text \<open>The value of one number with its unit, and the rest of the input.\<close>

definition duration_item :: "string \<Rightarrow> (nat \<times> string) option" where
  "duration_item s =
     (if \<not> (s ! 0 = CHR ''.'' \<or> is_digit (s ! 0)) then None
      else case leadingInt 0 s of
        None \<Rightarrow> None
      | Some (v, s1) \<Rightarrow>
          (let pre = (length s \<noteq> length s1);
               (f, scale, post, s2) =
                 (if s1 \<noteq> [] \<and> s1 ! 0 = CHR ''.''
                  then (case leadingFraction False 0 1 (drop 1 s1) of
                          (f, scale, s2) \<Rightarrow> (f, scale, length (drop 1 s1) \<noteq> length s2, s2))
                  else (0, 1, False, s1))
           in if \<not> pre \<and> \<not> post then None
              else let u = takeWhile unit_char s2; s3 = dropWhile unit_char s2 in
                if u = [] then None
                else case unitMap u of
                  None \<Rightarrow> None
                | Some unit \<Rightarrow>
                    if 2 ^ 63 div unit < v then None
                    else let w = v * unit;
                             w1 = (if 0 < f then w + nat (trunc (rnd (rnd (of_nat f) * rnd (of_nat unit / scale)))) else w)
                         in if 0 < f \<and> 2 ^ 63 < w1 then None else Some (w1, s3)))"

lemma duration_item_length:
  assumes "duration_item s = Some (w, s')" "s \<noteq> []"
  shows "length s' < length s"
proof -
  have "length (dropWhile unit_char t) < length t" if "takeWhile unit_char t \<noteq> []" for t
    using that by (cases t) (auto simp: le_imp_less_Suc length_dropWhile_le split: if_splits)
  note dw = this
  obtain v s1 where l: "leadingInt 0 s = Some (v, s1)"
    using assms by (auto simp: duration_item_def split: if_splits option.splits prod.splits)
  note l1 = leadingInt_length[OF l]
  show ?thesis
  proof (cases "s1 \<noteq> [] \<and> s1 ! 0 = CHR ''.''")
    case True
    obtain f sc s2 where fr: "leadingFraction False 0 1 (drop 1 s1) = (f, sc, s2)" by (rule prod_cases3)
    have "length s2 \<le> length s1" using leadingFraction_length[OF fr] by simp
    moreover have "takeWhile unit_char s2 \<noteq> []" "s' = dropWhile unit_char s2"
      using assms l True fr by (auto simp: duration_item_def Let_def split: if_splits option.splits)
    ultimately show ?thesis using dw[of s2] l1 by simp
  next
    case False
    then have "takeWhile unit_char s1 \<noteq> []" "s' = dropWhile unit_char s1"
      using assms l by (auto simp: duration_item_def Let_def split: if_splits option.splits)
    then show ?thesis using dw[of s1] l1 by simp
  qed
qed

function duration_loop :: "nat \<Rightarrow> string \<Rightarrow> nat option" where
  "duration_loop d s =
     (if s = [] then Some d
      else case duration_item s of
        None \<Rightarrow> None
      | Some (w, s') \<Rightarrow> if 2 ^ 63 < d + w then None else duration_loop (d + w) s')"
  by pat_completeness auto
termination
  by (relation "measure (\<lambda>(d, s). length s)") (auto dest: duration_item_length)

declare duration_loop.simps [simp del]

definition ParseDuration :: "string \<Rightarrow> int option" where
  "ParseDuration s0 =
     (let (neg, s) = (case s0 of [] \<Rightarrow> (False, [])
        | c # cs \<Rightarrow> if c = CHR ''-'' \<or> c = CHR ''+'' then (c = CHR ''-'', cs) else (False, s0))
      in if s = ''0'' then Some 0
         else if s = [] then None
         else case duration_loop 0 s of
           None \<Rightarrow> None
         | Some d \<Rightarrow> if neg then Some (- int d) else if 2 ^ 63 - 1 < d then None else Some (int d))"

text \<open>\<^verbatim>\<open>Duration.UnmarshalText\<close> of the configuration.\<close>

definition Duration_UnmarshalText :: "string \<Rightarrow> (string, int) result" where
  "Duration_UnmarshalText t = (case ParseDuration t of None \<Rightarrow> Inl ''config: parse duration'' | Some v \<Rightarrow> Inr v)"

section \<open>Sums of whole units\<close>

text \<open>The printed form of a list of numbers with their units.\<close>

definition print_duration :: "(nat \<times> string) list \<Rightarrow> string" where
  "print_duration ps = concat (map (\<lambda>(n, u). dec_digits n @ u) ps)"

definition duration_total :: "(nat \<times> string) list \<Rightarrow> nat" where
  "duration_total ps = sum_list (map (\<lambda>(n, u). n * the (unitMap u)) ps)"

lemma leadingInt_digits:
  assumes "list_all is_digit ds" "x * 10 ^ length ds + digits_val ds \<le> 2 ^ 63" "t = [] \<or> \<not> is_digit (hd t)"
  shows "leadingInt x (ds @ t) = Some (x * 10 ^ length ds + digits_val ds, t)"
  using assms
proof (induction ds arbitrary: x)
  case Nil
  then show ?case by (cases t) simp_all
next
  case (Cons c ds)
  have dv: "digits_val (c # ds) = digit_val c * 10 ^ length ds + digits_val ds"
  proof (induction ds rule: rev_induct)
    case (snoc y ys)
    have "digits_val ((c # ys) @ [y]) = digits_val (c # ys) * 10 + digit_val y" by (rule digits_val_snoc)
    then show ?case using snoc by (simp add: algebra_simps)
  qed (simp add: digits_val_def)
  let ?y = "x * 10 + digit_val c"
  have tot: "?y * 10 ^ length ds + digits_val ds = x * 10 ^ length (c # ds) + digits_val (c # ds)"
    by (simp add: dv algebra_simps)
  then have le: "?y * 10 ^ length ds + digits_val ds \<le> 2 ^ 63" using Cons.prems(2) by simp
  have "?y * 1 \<le> ?y * 10 ^ length ds" by (intro mult_le_mono2) simp
  then have "?y \<le> 2 ^ 63" using add_leD1[OF le] by (simp only: mult_1_right le_trans)
  moreover from this have "x \<le> 2 ^ 63 div 10" by (subst less_eq_div_iff_mult_less_eq) simp_all
  ultimately show ?case using Cons.IH[OF _ le Cons.prems(3)] Cons.prems(1) tot
    by (simp add: Let_def)
qed

lemma unit_chars: "unitMap u = Some k \<Longrightarrow> list_all unit_char u \<and> u \<noteq> [] \<and> 0 < k"
  by (auto simp: unitMap_def unit_char_def is_digit_def split: if_splits)

lemma duration_item_whole:
  assumes "unitMap u = Some k" "n * k \<le> 2 ^ 63" "t = [] \<or> is_digit (hd t)"
  shows "duration_item (dec_digits n @ u @ t) = Some (n * k, t)"
proof -
  note u = unit_chars[OF assms(1)]
  have h: "\<not> is_digit (hd (u @ t))" "(u @ t) \<noteq> []" "hd (u @ t) \<noteq> CHR ''.''"
    using u by (cases u; auto simp: unit_char_def)+
  have n: "n \<le> 2 ^ 63" using assms(2) u by (metis le_trans mult.right_neutral mult_le_mono2 One_nat_def Suc_leI)
  have l: "leadingInt 0 (dec_digits n @ u @ t) = Some (n, u @ t)"
    using leadingInt_digits[OF dec_digits_digits, of 0 n "u @ t"] n h by simp
  have d0: "is_digit ((dec_digits n @ u @ t) ! 0)"
    using dec_digits_digits[of n] dec_digits_ne[of n] by (cases "dec_digits n") auto
  have tw: "takeWhile unit_char (u @ t) = u" "dropWhile unit_char (u @ t) = t"
    using u assms(3) by (cases t; auto simp: unit_char_def list_all_iff takeWhile_append2 dropWhile_append2)+
  have "n \<le> 2 ^ 63 div k" using assms(2) u by (simp add: less_eq_div_iff_mult_less_eq)
  then show ?thesis
    using l d0 h u tw assms(1) by (simp add: duration_item_def Let_def hd_conv_nth)
qed

lemma duration_loop_whole:
  assumes "\<forall>(n, u)\<in>set ps. unitMap u \<noteq> None" "d + duration_total ps \<le> 2 ^ 63"
  shows "duration_loop d (print_duration ps) = Some (d + duration_total ps)"
  using assms
proof (induction ps arbitrary: d)
  case (Cons p ps)
  obtain n u where p: "p = (n, u)" by (cases p)
  then obtain k where k: "unitMap u = Some k" using Cons.prems(1) by auto
  have t: "duration_total (p # ps) = n * k + duration_total ps" by (simp add: duration_total_def p k)
  have hd: "print_duration ps = [] \<or> is_digit (hd (print_duration ps))"
  proof (cases ps)
    case (Cons q qs)
    obtain m v where "q = (m, v)" by (cases q)
    then show ?thesis using Cons dec_digits_digits[of m] dec_digits_ne[of m]
      by (cases "dec_digits m") (auto simp: print_duration_def)
  qed (simp add: print_duration_def)
  have "duration_item (print_duration (p # ps)) = Some (n * k, print_duration ps)"
    using duration_item_whole[OF k _ hd, of n] Cons.prems(2) t by (simp add: print_duration_def p)
  moreover have "print_duration (p # ps) \<noteq> []" by (simp add: print_duration_def p)
  ultimately show ?case using Cons t by (subst duration_loop.simps) (simp add: add.assoc)
qed (simp add: print_duration_def duration_total_def duration_loop.simps)

text \<open>Durations are read exactly: a sum of whole numbers of units, such as \<^verbatim>\<open>1h30m\<close>, \<^verbatim>\<open>5s\<close> or \<^verbatim>\<open>100ms\<close>, is read as its
  number of nanoseconds whenever that fits a signed 64-bit integer, with a minus sign as the
  negative, and is refused when it does not fit.\<close>

theorem duration_exact:
  assumes "\<forall>(n, u)\<in>set ps. unitMap u \<noteq> None" "ps \<noteq> []" "duration_total ps \<le> 2 ^ 63"
  shows "ParseDuration (print_duration ps) = (if duration_total ps = 2 ^ 63 then None else Some (int (duration_total ps)))
    \<and> ParseDuration (CHR ''-'' # print_duration ps) = Some (- int (duration_total ps))"
proof -
  obtain n u qs where ps: "ps = (n, u) # qs" using assms(2) by (cases ps) auto
  obtain c cs where c: "dec_digits n = c # cs" "is_digit c"
    using dec_digits_ne[of n] dec_digits_digits[of n] by (cases "dec_digits n") auto
  have "u \<noteq> []" "unit_char (last u)" using assms(1) ps unit_chars[of u] by (auto simp: list_all_iff)
  then have z: "print_duration ps \<noteq> ''0''"
    using c ps by (cases cs; cases u) (auto simp: print_duration_def unit_char_def is_digit_def)
  have ne: "print_duration ps \<noteq> []" "hd (print_duration ps) \<noteq> CHR ''-''" "hd (print_duration ps) \<noteq> CHR ''+''"
    using c ps by (auto simp: print_duration_def is_digit_def)
  have lp: "duration_loop 0 (print_duration ps) = Some (duration_total ps)"
    using duration_loop_whole[OF assms(1), of 0] assms(3) by simp
  show ?thesis
    using lp z ne assms(3) by (cases "print_duration ps") (auto simp: ParseDuration_def)
qed

theorem duration_exact_witness:
  "ParseDuration (print_duration [(1, ''h''), (30, ''m'')]) = Some 5400000000000
   \<and> print_duration [(1, ''h''), (30, ''m'')] = ''1h30m''"
proof -
  have p: "print_duration [(1, ''h''), (30, ''m'')] = ''1h30m''" by code_simp
  have t: "duration_total [(1, ''h''), (30, ''m'')] = 5400000000000" by (simp add: duration_total_def unitMap_def)
  have u: "unitMap ''h'' \<noteq> None" "unitMap ''m'' \<noteq> None" by (simp_all add: unitMap_def)
  show ?thesis using duration_exact[of "[(1, ''h''), (30, ''m'')]"] t u p by simp
qed

end
