(* ===== verification/Dump_Command.thy ===== *)
theory Dump_Command
  imports Oneshot_Sources Go_Duration Config
begin

text \<open>
  \<^verbatim>\<open>src/cmd/blackboxd\<close>: command line flags (\<^verbatim>\<open>flags.go\<close> and the \<^verbatim>\<open>flag\<close> package), the dump command with its filter and
  sources (\<^verbatim>\<open>dump.go\<close>), validation and dispatch (\<^verbatim>\<open>main.go\<close>). What is outside (files, subprocesses, the
  clock, the output) is an argument. What is proved: a dump writes the chronological merge of all the
  passing entries of the selected sources.
\<close>

section \<open>Command line flags\<close>

datatype flag_kind = FBool | FString | FInt | FMulti

type_synonym flag_set = "string \<Rightarrow> flag_kind option"

definition ParseBool :: "string \<Rightarrow> bool option" where
  "ParseBool s =
     (if s \<in> {''1'', ''t'', ''T'', ''true'', ''TRUE'', ''True''} then Some True
      else if s \<in> {''0'', ''f'', ''F'', ''false'', ''FALSE'', ''False''} then Some False else None)"

text \<open>\<^verbatim>\<open>strconv.ParseInt(s, 0, strconv.IntSize)\<close>, with the size of an \<^verbatim>\<open>int\<close> on the target (64, or 32 on the small ARM
  boards) as the first argument: the base is read from the prefix, underscores are allowed between digits.\<close>

definition int_digit :: "nat \<Rightarrow> char \<Rightarrow> nat option" where
  "int_digit base c =
     (let l = (of_char (to_lower c) :: nat);
          d = (if is_digit c then Some (digit_val c) else if 97 \<le> l \<and> l \<le> 122 then Some (l - 87) else None)
      in case d of None \<Rightarrow> None | Some v \<Rightarrow> if v < base then Some v else None)"

definition int_base :: "string \<Rightarrow> nat \<times> string" where
  "int_base s =
     (if s ! 0 \<noteq> CHR ''0'' then (10, s)
      else if 3 \<le> length s \<and> to_lower (s ! 1) = CHR ''b'' then (2, drop 2 s)
      else if 3 \<le> length s \<and> to_lower (s ! 1) = CHR ''o'' then (8, drop 2 s)
      else if 3 \<le> length s \<and> to_lower (s ! 1) = CHR ''x'' then (16, drop 2 s)
      else (8, drop 1 s))"

definition ParseUint0 :: "nat \<Rightarrow> string \<Rightarrow> nat option" where
  "ParseUint0 bits s =
     (if s = [] then None
      else let (base, body) = int_base s; ds = filter (\<lambda>c. c \<noteq> CHR ''_'') body in
        if list_ex (\<lambda>c. int_digit base c = None) ds then None
        else if CHR ''_'' \<in> set body \<and> \<not> underscoreOK s then None
        else let n = foldl (\<lambda>v c. v * base + the (int_digit base c)) 0 ds in
          if n < 2 ^ bits then Some n else None)"

definition ParseInt0 :: "nat \<Rightarrow> string \<Rightarrow> int option" where
  "ParseInt0 bits s =
     (let (neg, body) = strip_sign s in
      case ParseUint0 bits body of
        None \<Rightarrow> None
      | Some n \<Rightarrow> if \<not> neg \<and> 2 ^ (bits - 1) \<le> n then None
                  else if neg \<and> 2 ^ (bits - 1) < n then None
                  else Some (if neg then - int n else int n))"

definition flag_value_ok :: "nat \<Rightarrow> flag_kind \<Rightarrow> string \<Rightarrow> bool" where
  "flag_value_ok bits k v = (case k of FBool \<Rightarrow> ParseBool v \<noteq> None | FInt \<Rightarrow> ParseInt0 bits v \<noteq> None | _ \<Rightarrow> True)"

text \<open>\<^verbatim>\<open>FlagSet.Parse\<close>: the values in the order they were set, and the remaining arguments; \<^const>\<open>None\<close> is an error (also
  the one that asks for help).\<close>

fun flag_parse :: "nat \<Rightarrow> flag_set \<Rightarrow> string list \<Rightarrow> (string \<times> string) list \<Rightarrow> ((string \<times> string) list \<times> string list) option" where
  "flag_parse bits formal [] acc = Some (acc, [])"
| "flag_parse bits formal (s # args) acc =
     (if length s < 2 \<or> s ! 0 \<noteq> CHR ''-'' then Some (acc, s # args)
      else if s = ''--'' then Some (acc, args)
      else let body = (if s ! 1 = CHR ''-'' then drop 2 s else drop 1 s) in
        if body = [] \<or> body ! 0 = CHR ''-'' \<or> body ! 0 = CHR ''='' then None
        else let (name, val) = (case IndexByte (drop 1 body) (CHR ''='') of
                   None \<Rightarrow> (body, None)
                 | Some i \<Rightarrow> (take (i + 1) body, Some (drop (i + 2) body)))
        in case formal name of
             None \<Rightarrow> None
           | Some FBool \<Rightarrow>
               (let v = (case val of None \<Rightarrow> ''true'' | Some v \<Rightarrow> v) in
                if flag_value_ok bits FBool v then flag_parse bits formal args (acc @ [(name, v)]) else None)
           | Some k \<Rightarrow>
               (case val of
                  Some v \<Rightarrow> if flag_value_ok bits k v then flag_parse bits formal args (acc @ [(name, v)]) else None
                | None \<Rightarrow>
                    (case args of
                       [] \<Rightarrow> None
                     | v # args' \<Rightarrow>
                         if flag_value_ok bits k v then flag_parse bits formal args' (acc @ [(name, v)]) else None)))"

definition flag_string :: "(string \<times> string) list \<Rightarrow> string \<Rightarrow> string \<Rightarrow> string" where
  "flag_string vs name d = (case map_of (rev vs) name of None \<Rightarrow> d | Some v \<Rightarrow> v)"

definition flag_bool :: "(string \<times> string) list \<Rightarrow> string \<Rightarrow> bool" where
  "flag_bool vs name = (case map_of (rev vs) name of None \<Rightarrow> False | Some v \<Rightarrow> ParseBool v = Some True)"

definition flag_int :: "nat \<Rightarrow> (string \<times> string) list \<Rightarrow> string \<Rightarrow> int" where
  "flag_int bits vs name = (case map_of (rev vs) name of None \<Rightarrow> 0 | Some v \<Rightarrow> the (ParseInt0 bits v))"

text \<open>\<^verbatim>\<open>multiString\<close>: every value, in order.\<close>

definition multiString :: "(string \<times> string) list \<Rightarrow> string \<Rightarrow> string list" where
  "multiString vs name = map snd (filter (\<lambda>(n, v). n = name) vs)"

section \<open>Filter and sources of a dump\<close>

definition buildOneshotFilter :: "instant \<Rightarrow> string \<Rightarrow> string \<Rightarrow> (string, Filter) result" where
  "buildOneshotFilter now since until =
     rbind (if since = [] then Inr 0
            else case ParseDuration since of
              Some d \<Rightarrow> Inr (now + wrap64 (- d))
            | None \<Rightarrow> (case time_Parse RFC3339 since of
                Some t \<Rightarrow> Inr t
              | None \<Rightarrow> Inl ''--since: not a duration or RFC3339 timestamp'')) (\<lambda>s.
     rbind (if until = [] then Inr 0
            else case time_Parse RFC3339 until of Some t \<Rightarrow> Inr t | None \<Rightarrow> Inl ''--until'') (\<lambda>u.
     Inr \<lparr>Since = s, Until = u\<rparr>))"

datatype os_source = OSFile os_FileSource Parser | OSDmesg Parser | OSJournal os_JournalSource Parser

fun bsd_sources :: "parser_env \<Rightarrow> string list \<Rightarrow> (string, os_source list) result" where
  "bsd_sources env [] = Inr []"
| "bsd_sources env (p # ps) =
     rbind (NewSyslogBSD env \<lparr>DefaultYear = 0, Timezone = ''UTC'', Strict = False\<rparr>) (\<lambda>bsd.
     rbind (bsd_sources env ps) (\<lambda>rest.
     Inr (OSFile \<lparr>f_Label = ''syslog_bsd:'' @ p, f_Path = p\<rparr> (syslogBSD_Parse bsd) # rest)))"

text \<open>\<open>fmt\<close> prints a time as RFC 3339 in its own zone.\<close>

definition buildOneshotSources ::
  "parser_env \<Rightarrow> (instant \<Rightarrow> string) \<Rightarrow> bool \<Rightarrow> bool \<Rightarrow> bool \<Rightarrow> string list \<Rightarrow> string list \<Rightarrow> string list \<Rightarrow> Filter
    \<Rightarrow> (string, os_source list) result" where
  "buildOneshotSources env fmt wantKmsg wantDmesg wantJournal units bsdFiles rfcFiles flt =
     rbind (bsd_sources env bsdFiles) (\<lambda>s1.
     let s2 = map (\<lambda>p. OSFile \<lparr>f_Label = ''syslog_rfc5424:'' @ p, f_Path = p\<rparr> syslogRFC5424_Parse) rfcFiles in
     rbind (if wantKmsg
            then rbind (NewKMsg env \<lparr>kmsg_BootTime = 0\<rparr>) (\<lambda>kp.
                 Inr [OSFile \<lparr>f_Label = ''kmsg'', f_Path = ''/dev/kmsg''\<rparr> (kmsg_Parse kp)])
            else Inr []) (\<lambda>s3.
     rbind (if wantDmesg
            then rbind (NewDmesg env 0) (\<lambda>dp. Inr [OSDmesg (dmesg_Parse (env_cvt env) dp)])
            else Inr []) (\<lambda>s4.
     let s5 = (if wantJournal \<or> 0 < length units
               then [OSJournal \<lparr>oj_Label = ''journal'', oj_Path = [], oj_Units = units, oj_Priority = 0,
                       oj_Since = if \<not> IsZero (Since flt) then fmt (Since flt) else [],
                       oj_Until = if \<not> IsZero (Until flt) then fmt (Until flt) else []\<rparr> journald_Parse]
               else [])
     in Inr (s1 @ s2 @ s3 @ s4 @ s5))))"

section \<open>The dump command\<close>

text \<open>What a dump meets: the size of an \<^verbatim>\<open>int\<close>, the clock, readable files, subprocesses, whether the output opens, which
  encodings fail, the errors of flushing and closing the output, and how many lines have then reached it.\<close>

record dump_world =
  dw_bits :: nat
  dw_env :: parser_env
  dw_fmt :: "instant \<Rightarrow> string"
  dw_file :: "string \<Rightarrow> bytes option"
  dw_run :: runner
  dw_dmesg :: dmesg_proc
  dw_open :: "string \<Rightarrow> bool"
  dw_enc_fails :: "nat \<Rightarrow> bool"
  dw_flush :: "string option"
  dw_closers :: "string option list"
  dw_reached :: nat

definition source_Read :: "dump_world \<Rightarrow> Filter \<Rightarrow> os_source \<Rightarrow> (string, LogEntry list) result" where
  "source_Read w flt src =
     (case src of
        OSFile f parse \<Rightarrow> FileSource_Read f parse (dw_file w (f_Path f)) flt
      | OSDmesg parse \<Rightarrow> DmesgSource_Read parse (dw_dmesg w) flt
      | OSJournal j parse \<Rightarrow> JournalSource_Read j parse (dw_run w) flt)"

datatype exitCode = exitOK | exitUsage | exitConfigInvalid | exitRuntimeFailure

text \<open>\<^verbatim>\<open>OpenOutput\<close>: standard output, or the file created with mode 0600; whether it is compressed does not change
  the lines.\<close>

definition OpenOutput :: "dump_world \<Rightarrow> string \<Rightarrow> (string, unit) result" where
  "OpenOutput w path =
     (if path = [] \<or> path = ''-'' then Inr ()
      else if dw_open w path then Inr () else Inl ''oneshot output'')"

definition dump_flags :: flag_set where
  "dump_flags =
     [''kmsg'' \<mapsto> FBool, ''dmesg'' \<mapsto> FBool, ''journal'' \<mapsto> FBool, ''journal-unit'' \<mapsto> FMulti, ''syslog-bsd'' \<mapsto> FMulti,
      ''syslog-rfc5424'' \<mapsto> FMulti, ''since'' \<mapsto> FString, ''until'' \<mapsto> FString, ''output'' \<mapsto> FString, ''o'' \<mapsto> FString,
      ''gzip'' \<mapsto> FBool, ''max-lines'' \<mapsto> FInt]"

text \<open>The lines are encoded into a buffered (and perhaps compressing) writer. They are all in the output only once the
  deferred \<^verbatim>\<open>closer.Close()\<close> has flushed and closed it without an error; otherwise a prefix is.\<close>

definition output_lines :: "dump_world \<Rightarrow> LogEntry list \<Rightarrow> LogEntry list" where
  "output_lines w ls =
     (if writerCloser_Close (dw_flush w) (dw_closers w) = None then ls else take (dw_reached w) ls)"

text \<open>The exit code, the lines encoded (which the final message counts) and the lines in the output. The deferred close
  runs after the code is decided; its error is discarded.\<close>

definition runDump :: "dump_world \<Rightarrow> string list \<Rightarrow> exitCode \<times> LogEntry list \<times> LogEntry list" where
  "runDump w args =
     (case flag_parse (dw_bits w) dump_flags args [] of
        None \<Rightarrow> (exitUsage, [], [])
      | Some (vs, _) \<Rightarrow>
          (let out0 = flag_string vs ''output'' [];
               out = (if out0 = [] then flag_string vs ''o'' [] else out0)
           in case buildOneshotFilter (env_now (dw_env w)) (flag_string vs ''since'' []) (flag_string vs ''until'' []) of
                Inl e \<Rightarrow> (exitUsage, [], [])
              | Inr flt \<Rightarrow>
                  (case buildOneshotSources (dw_env w) (dw_fmt w) (flag_bool vs ''kmsg'') (flag_bool vs ''dmesg'')
                          (flag_bool vs ''journal'') (multiString vs ''journal-unit'') (multiString vs ''syslog-bsd'')
                          (multiString vs ''syslog-rfc5424'') flt of
                     Inl e \<Rightarrow> (exitUsage, [], [])
                   | Inr sources \<Rightarrow>
                       if length sources = 0 then (exitUsage, [], [])
                       else (case OpenOutput w out of
                         Inl e \<Rightarrow> (exitRuntimeFailure, [], [])
                       | Inr _ \<Rightarrow>
                           (case Merge (dw_enc_fails w) (map (source_Read w flt) sources) (flag_int (dw_bits w) vs ''max-lines'') of
                              (ls, Some e) \<Rightarrow> (exitRuntimeFailure, ls, output_lines w ls)
                            | (ls, None) \<Rightarrow> (exitOK, ls, output_lines w ls))))))"

section \<open>Validation and dispatch\<close>

definition runValidate :: "nat \<Rightarrow> toml_lib \<Rightarrow> fs_env \<Rightarrow> registry \<Rightarrow> string list \<Rightarrow> exitCode" where
  "runValidate bits toml env reg args =
     (case flag_parse bits [''skip-fs-checks'' \<mapsto> FBool] args [] of
        None \<Rightarrow> exitUsage
      | Some (vs, rest) \<Rightarrow>
          if length rest \<noteq> 1 then exitUsage
          else case Load toml env reg (flag_bool vs ''skip-fs-checks'') (rest ! 0) of
            Inl e \<Rightarrow> exitConfigInvalid
          | Inr c \<Rightarrow> exitOK)"

text \<open>\<^verbatim>\<open>runService\<close>: service mode is not wired up.\<close>

definition runService :: "nat \<Rightarrow> string list \<Rightarrow> exitCode" where
  "runService bits args =
     (case flag_parse bits [''config'' \<mapsto> FString] args [] of None \<Rightarrow> exitUsage | Some _ \<Rightarrow> exitRuntimeFailure)"

definition dispatch :: "dump_world \<Rightarrow> toml_lib \<Rightarrow> fs_env \<Rightarrow> registry \<Rightarrow> string list \<Rightarrow> exitCode" where
  "dispatch w toml env reg args =
     (if length args = 0 then runService (dw_bits w) args
      else let a = args ! 0; rest = drop 1 args in
        if a = ''dump'' then fst (runDump w rest)
        else if a = ''validate'' then runValidate (dw_bits w) toml env reg rest
        else if a = ''version'' then exitOK
        else if a = ''help'' \<or> a = ''-h'' \<or> a = ''--help'' then exitOK
        else runService (dw_bits w) args)"

section \<open>A dump is complete and ordered\<close>

lemma source_Read_passes:
  assumes "source_Read w flt src = Inr es" "e \<in> set es"
  shows "Passes flt (Timestamp e)"
proof (cases src)
  case (OSFile f parse)
  then obtain c where "dw_file w (f_Path f) = Some c" using assms by (auto simp: source_Read_def FileSource_Read_def split: option.splits)
  then show ?thesis using assms OSFile file_entries[of f parse c flt] dump_entry_passes by (auto simp: source_Read_def)
next
  case (OSDmesg parse)
  then have "es = filter (\<lambda>e. Passes flt (Timestamp e)) es \<or> IsZero (Since flt) \<and> IsZero (Until flt)"
    using assms by (auto simp: source_Read_def DmesgSource_Read_def split: prod.splits option.splits if_splits)
  then show ?thesis
  proof
    assume "es = filter (\<lambda>e. Passes flt (Timestamp e)) es"
    then have "e \<in> set (filter (\<lambda>e. Passes flt (Timestamp e)) es)" using assms(2) by (simp only:)
    then show ?thesis by simp
  qed (simp add: Passes_def)
next
  case (OSJournal j parse)
  then obtain out where "dw_run w ''journalctl'' (journal_args j) = Inr out"
    using assms by (auto simp: source_Read_def JournalSource_Read_def captureCommand_def split: sum.splits)
  then show ?thesis
    using assms OSJournal journal_entries[of "dw_run w" j out parse flt] dump_entry_passes by (auto simp: source_Read_def)
qed

lemma readable_passes:
  "es \<in> set (readable (map (source_Read w flt) srcs)) \<Longrightarrow> e \<in> set es \<Longrightarrow> Passes flt (Timestamp e)"
proof (induction srcs)
  case (Cons src srcs)
  then show ?case using source_Read_passes[of w flt src] by (cases "source_Read w flt src") auto
qed simp

text \<open>The parts of a successful run.\<close>

lemma runDump_ok:
  assumes "runDump w args = (exitOK, ls, out)"
  obtains vs rest flt sources where "flag_parse (dw_bits w) dump_flags args [] = Some (vs, rest)"
    "buildOneshotFilter (env_now (dw_env w)) (flag_string vs ''since'' []) (flag_string vs ''until'' []) = Inr flt"
    "buildOneshotSources (dw_env w) (dw_fmt w) (flag_bool vs ''kmsg'') (flag_bool vs ''dmesg'') (flag_bool vs ''journal'')
       (multiString vs ''journal-unit'') (multiString vs ''syslog-bsd'') (multiString vs ''syslog-rfc5424'') flt = Inr sources"
    "sources \<noteq> []" "Merge (dw_enc_fails w) (map (source_Read w flt) sources) (flag_int (dw_bits w) vs ''max-lines'') = (ls, None)"
    "out = output_lines w ls"
    "OpenOutput w (if flag_string vs ''output'' [] = [] then flag_string vs ''o'' [] else flag_string vs ''output'' []) = Inr ()"
  using assms unfolding runDump_def Let_def
  by (auto split: option.splits prod.splits sum.splits if_splits)

text \<open>C38. A dump is complete, filtered and in order: when \<^verbatim>\<open>blackboxd dump\<close> succeeds, the lines it has encoded are
  sorted by time and an interleaving of the stably sorted entries of all selected sources that could be read
  (the first \<open>max-lines\<close> of it when a cap is given), each of them lies within the time filter, and they are what the
  output holds, provided that it was flushed and closed without an error; the exit code does not tell, and
  otherwise the output holds a prefix of them.\<close>

theorem dump_exports:
  assumes "runDump w args = (exitOK, ls, out)" "\<forall>n. \<not> dw_enc_fails w n"
  shows "\<exists>vs rest flt sources xs. flag_parse (dw_bits w) dump_flags args [] = Some (vs, rest)
    \<and> buildOneshotFilter (env_now (dw_env w)) (flag_string vs ''since'' []) (flag_string vs ''until'' []) = Inr flt
    \<and> buildOneshotSources (dw_env w) (dw_fmt w) (flag_bool vs ''kmsg'') (flag_bool vs ''dmesg'') (flag_bool vs ''journal'')
        (multiString vs ''journal-unit'') (multiString vs ''syslog-bsd'') (multiString vs ''syslog-rfc5424'') flt = Inr sources
    \<and> sources \<noteq> [] \<and> sorted (map Timestamp xs)
    \<and> interleaves (mset (map (sort_key Timestamp) (readable (map (source_Read w flt) sources)))) xs
    \<and> ls = (if flag_int (dw_bits w) vs ''max-lines'' \<le> 0 then xs else take (nat (flag_int (dw_bits w) vs ''max-lines'')) xs)
    \<and> (\<forall>e\<in>set ls. Passes flt (Timestamp e))
    \<and> (writerCloser_Close (dw_flush w) (dw_closers w) = None \<longrightarrow> out = ls) \<and> prefix out ls"
proof -
  from assms(1) obtain vs rest flt sources where d: "flag_parse (dw_bits w) dump_flags args [] = Some (vs, rest)"
    "buildOneshotFilter (env_now (dw_env w)) (flag_string vs ''since'' []) (flag_string vs ''until'' []) = Inr flt"
    "buildOneshotSources (dw_env w) (dw_fmt w) (flag_bool vs ''kmsg'') (flag_bool vs ''dmesg'') (flag_bool vs ''journal'')
       (multiString vs ''journal-unit'') (multiString vs ''syslog-bsd'') (multiString vs ''syslog-rfc5424'') flt = Inr sources"
    "sources \<noteq> []" and m: "Merge (dw_enc_fails w) (map (source_Read w flt) sources) (flag_int (dw_bits w) vs ''max-lines'') = (ls, None)"
    and out: "out = output_lines w ls"
    by (rule runDump_ok)
  obtain xs where xs: "sorted (map Timestamp xs)"
    "interleaves (mset (map (sort_key Timestamp) (readable (map (source_Read w flt) sources)))) xs"
    "ls = (if flag_int (dw_bits w) vs ''max-lines'' \<le> 0 then xs else take (nat (flag_int (dw_bits w) vs ''max-lines'')) xs)"
    using Merge_sorted[OF assms(2), of "map (source_Read w flt) sources" "flag_int (dw_bits w) vs ''max-lines''"] m by auto
  have "set ls \<subseteq> set (concat (readable (map (source_Read w flt) sources)))"
    using xs(3) interleaved_set[OF xs(2)] set_take_subset[of _ xs] by auto
  then have p: "\<forall>e\<in>set ls. Passes flt (Timestamp e)" using readable_passes by fastforce
  have o: "(writerCloser_Close (dw_flush w) (dw_closers w) = None \<longrightarrow> out = ls) \<and> prefix out ls"
    unfolding out output_lines_def by (simp add: take_is_prefix)
  show ?thesis
    by (rule exI[of _ vs], rule exI[of _ rest], rule exI[of _ flt], rule exI[of _ sources], rule exI[of _ xs])
      (intro conjI d xs p conjunct1[OF o] conjunct2[OF o])
qed

text \<open>Failing to flush or to close the output goes unnoticed: the exit code and the count are the same.\<close>

lemma dump_ignores_close:
  assumes "runDump w args = (exitOK, ls, out)"
  shows "runDump (w\<lparr>dw_flush := Some e, dw_reached := 0\<rparr>) args = (exitOK, ls, [])"
proof -
  let ?w = "w\<lparr>dw_flush := Some e, dw_reached := 0\<rparr>"
  have same: "source_Read ?w = source_Read w" "OpenOutput ?w = OpenOutput w" "dw_bits ?w = dw_bits w"
    "dw_env ?w = dw_env w" "dw_fmt ?w = dw_fmt w" "dw_enc_fails ?w = dw_enc_fails w"
    by (auto simp: fun_eq_iff source_Read_def OpenOutput_def split: os_source.splits)
  have o: "output_lines ?w l = []" for l by (simp add: output_lines_def writerCloser_first)
  obtain vs rest flt sources where d: "flag_parse (dw_bits w) dump_flags args [] = Some (vs, rest)"
    "buildOneshotFilter (env_now (dw_env w)) (flag_string vs ''since'' []) (flag_string vs ''until'' []) = Inr flt"
    "buildOneshotSources (dw_env w) (dw_fmt w) (flag_bool vs ''kmsg'') (flag_bool vs ''dmesg'') (flag_bool vs ''journal'')
       (multiString vs ''journal-unit'') (multiString vs ''syslog-bsd'') (multiString vs ''syslog-rfc5424'') flt = Inr sources"
    "sources \<noteq> []" "Merge (dw_enc_fails w) (map (source_Read w flt) sources) (flag_int (dw_bits w) vs ''max-lines'') = (ls, None)"
    "OpenOutput w (if flag_string vs ''output'' [] = [] then flag_string vs ''o'' [] else flag_string vs ''output'' []) = Inr ()"
    by (rule runDump_ok[OF assms])
  show ?thesis
    unfolding runDump_def same d Let_def option.case sum.case prod.case o using d(4) by simp
qed

definition example_dump_world :: dump_world where
  "example_dump_world = \<lparr>dw_bits = 64, dw_env = example_env, dw_fmt = (\<lambda>_. []), dw_file = (\<lambda>_. None),
     dw_run = (\<lambda>_ _. Inr (''MESSAGE=late'' @ LF # ''__REALTIME_TIMESTAMP=9'' @ LF # LF # ''MESSAGE=early'' @ LF # ''__REALTIME_TIMESTAMP=3'' @ [LF])),
     dw_dmesg = \<lparr>d_pipe = False, d_start = False, d_out = [], d_end = StreamEOF, d_wait = False\<rparr>,
     dw_open = (\<lambda>_. False), dw_enc_fails = (\<lambda>_. False), dw_flush = None, dw_closers = [], dw_reached = 0\<rparr>"

theorem dump_exports_witness:
  "\<exists>ls. runDump example_dump_world [''--journal'', ''--dmesg''] = (exitOK, ls, ls) \<and> map Message ls = [''early'', ''late'']
    \<and> sorted (map Timestamp ls)"
proof -
  obtain ls out where r: "runDump example_dump_world [''--journal'', ''--dmesg''] = (exitOK, ls, out)" "map Message ls = [''early'', ''late'']"
  proof -
    have "fst (runDump example_dump_world [''--journal'', ''--dmesg'']) = exitOK"
      "map Message (fst (snd (runDump example_dump_world [''--journal'', ''--dmesg'']))) = [''early'', ''late'']" by code_simp+
    then show ?thesis using that by (metis prod.collapse)
  qed
  have n: "\<forall>n. \<not> dw_enc_fails example_dump_world n" by (simp add: example_dump_world_def)
  note d = dump_exports[OF r(1) n]
  have s: "sorted (map Timestamp ls)"
    using d by (elim exE conjE) (simp only: take_map[symmetric] sorted_wrt_take simp_thms split: if_split)
  have c: "writerCloser_Close (dw_flush example_dump_world) (dw_closers example_dump_world) = None"
    by (simp add: example_dump_world_def writerCloser_first)
  have "writerCloser_Close (dw_flush example_dump_world) (dw_closers example_dump_world) = None \<longrightarrow> out = ls"
    using d by (elim exE conjE)
  then have "out = ls" by (rule mp[OF _ c])
  then show ?thesis by (intro exI[of _ ls] conjI r(2) s) (simp only: r(1))
qed

end
