(* ===== verification/Go_JSON.thy ===== *)
theory Go_JSON
  imports Parser_Types
begin

text \<open>
  What the program uses of \<^verbatim>\<open>encoding/json\<close>: quoting of strings (with and without HTML escapes), the
  syntax of a JSON text read by recursive descent, the reading of string literals, and the assignment
  of values to the fields of a structure. A string literal keeps its bytes between the quotes, because
  an \<^verbatim>\<open>UnmarshalJSON\<close> method is handed the raw text. Decoding errors are not told apart: the program
  drops the partial result of every one of them.
\<close>

section \<open>Quoting\<close>

abbreviation bsl :: char where "bsl \<equiv> CHR 0x5C"

definition esc_byte :: "bool \<Rightarrow> char \<Rightarrow> string" where
  "esc_byte html c =
     (let b = (of_char c :: nat) in
      if c = bsl \<or> c = dquote then [bsl, c]
      else if b = 8 then [bsl, CHR ''b'']
      else if b = 12 then [bsl, CHR ''f'']
      else if b = 10 then [bsl, CHR ''n'']
      else if b = 13 then [bsl, CHR ''r'']
      else if b = 9 then [bsl, CHR ''t'']
      else if b < 32 \<or> html \<and> (c = CHR ''<'' \<or> c = CHR ''>'' \<or> c = CHR ''&'')
      then bsl # ''u00'' @ [''0123456789abcdef'' ! (b div 16), ''0123456789abcdef'' ! (b mod 16)]
      else [c])"

text \<open>The line separators U+2028 and U+2029 in UTF-8.\<close>

abbreviation u2028 :: string where "u2028 \<equiv> [CHR 0xE2, CHR 0x80, CHR 0xA8]"
abbreviation u2029 :: string where "u2029 \<equiv> [CHR 0xE2, CHR 0x80, CHR 0xA9]"

definition esc_rune :: "bool \<Rightarrow> string \<Rightarrow> string" where
  "esc_rune html r =
     (if length r = 1 then if (of_char (hd r) :: nat) < 128 then esc_byte html (hd r) else bsl # ''ufffd''
      else if r = u2028 then bsl # ''u2028''
      else if r = u2029 then bsl # ''u2029''
      else r)"

definition quote_body :: "bool \<Rightarrow> string \<Rightarrow> string" where
  "quote_body html s = concat (map (esc_rune html) (runes s))"

definition quote :: "bool \<Rightarrow> string \<Rightarrow> string" where
  "quote html s = dquote # quote_body html s @ [dquote]"

section \<open>Syntax\<close>

datatype jvalue = JNull | JTrue | JFalse | JNumber string | JString string
  | JArray "jvalue list" | JObject "(string \<times> jvalue) list"

definition skip_ws :: "string \<Rightarrow> string" where
  "skip_ws s = dropWhile (\<lambda>c. c \<in> {CHR '' '', CHR 0x09, CHR 0x0A, CHR 0x0D}) s"

definition json_hex :: "char \<Rightarrow> nat option" where
  "json_hex c =
     (let b = (of_char c :: nat) in
      if 48 \<le> b \<and> b \<le> 57 then Some (b - 48)
      else if 97 \<le> b \<and> b \<le> 102 then Some (b - 87)
      else if 65 \<le> b \<and> b \<le> 70 then Some (b - 55)
      else None)"

definition cons_body :: "string \<Rightarrow> (string \<times> string) option \<Rightarrow> (string \<times> string) option" where
  "cons_body p r = map_option (\<lambda>(b, rest). (p @ b, rest)) r"

text \<open>The scan of a literal behind its opening quote: the body and what follows the closing quote.\<close>

fun scan_str :: "string \<Rightarrow> (string \<times> string) option" where
  "scan_str [] = None"
| "scan_str (c # cs) =
     (if c = dquote then Some ([], cs)
      else if c = bsl
      then (case cs of
              [] \<Rightarrow> None
            | d # ds \<Rightarrow>
                if d \<in> {CHR ''b'', CHR ''f'', CHR ''n'', CHR ''r'', CHR ''t'', bsl, CHR ''/'', dquote}
                then cons_body [c, d] (scan_str ds)
                else if d = CHR ''u''
                then (case ds of
                        h1 # h2 # h3 # h4 # rest \<Rightarrow>
                          if list_all (\<lambda>h. json_hex h \<noteq> None) [h1, h2, h3, h4]
                          then cons_body [c, d, h1, h2, h3, h4] (scan_str rest) else None
                      | _ \<Rightarrow> None)
                else None)
      else if (of_char c :: nat) < 32 then None
      else cons_body [c] (scan_str cs))"

definition scan_digits :: "string \<Rightarrow> (string \<times> string) option" where
  "scan_digits s = (if takeWhile is_digit s = [] then None else Some (takeWhile is_digit s, dropWhile is_digit s))"

definition scan_int :: "string \<Rightarrow> (string \<times> string) option" where
  "scan_int s = (if s \<noteq> [] \<and> hd s = CHR ''0'' then Some ([hd s], tl s) else scan_digits s)"

definition scan_frac :: "string \<Rightarrow> (string \<times> string) option" where
  "scan_frac s = (if s \<noteq> [] \<and> hd s = CHR ''.'' then cons_body [hd s] (scan_digits (tl s)) else Some ([], s))"

definition scan_exp :: "string \<Rightarrow> (string \<times> string) option" where
  "scan_exp s =
     (if s \<noteq> [] \<and> (hd s = CHR ''e'' \<or> hd s = CHR ''E'')
      then let t = tl s in
        if t \<noteq> [] \<and> (hd t = CHR ''+'' \<or> hd t = CHR ''-'') then cons_body [hd s, hd t] (scan_digits (tl t))
        else cons_body [hd s] (scan_digits t)
      else Some ([], s))"

definition scan_number :: "string \<Rightarrow> (string \<times> string) option" where
  "scan_number s =
     (let sg = (if s \<noteq> [] \<and> hd s = CHR ''-'' then [hd s] else []) in
      case scan_int (drop (length sg) s) of
        None \<Rightarrow> None
      | Some (i, s2) \<Rightarrow>
          (case scan_frac s2 of
             None \<Rightarrow> None
           | Some (f, s3) \<Rightarrow> cons_body (sg @ i @ f) (scan_exp s3)))"

text \<open>A value, the members of an object and the elements of an array. The first argument is fuel (a text of
  \<open>n\<close> bytes needs at most \<open>2 n + 1\<close>, see \<open>json_fuel_enough\<close>), the second how deep containers may still nest.\<close>

definition next_is :: "char \<Rightarrow> string \<Rightarrow> bool" where
  "next_is c s \<longleftrightarrow> s \<noteq> [] \<and> hd s = c"

fun json_value :: "nat \<Rightarrow> nat \<Rightarrow> string \<Rightarrow> (jvalue \<times> string) option"
  and json_members :: "nat \<Rightarrow> nat \<Rightarrow> string \<Rightarrow> ((string \<times> jvalue) list \<times> string) option"
  and json_elements :: "nat \<Rightarrow> nat \<Rightarrow> string \<Rightarrow> (jvalue list \<times> string) option" where
  "json_value 0 d s0 = None"
| "json_value (Suc n) d s0 =
     (let s = skip_ws s0 in
      if next_is (CHR 0x7B) s
      then if d = 0 then None
           else if next_is (CHR 0x7D) (skip_ws (tl s)) then Some (JObject [], tl (skip_ws (tl s)))
           else map_option (\<lambda>(kvs, r). (JObject kvs, r)) (json_members n (d - 1) (tl s))
      else if next_is (CHR ''['') s
      then if d = 0 then None
           else if next_is (CHR '']'') (skip_ws (tl s)) then Some (JArray [], tl (skip_ws (tl s)))
           else map_option (\<lambda>(vs, r). (JArray vs, r)) (json_elements n (d - 1) (tl s))
      else if next_is dquote s then map_option (\<lambda>(b, r). (JString b, r)) (scan_str (tl s))
      else if HasPrefix s ''null'' then Some (JNull, drop 4 s)
      else if HasPrefix s ''true'' then Some (JTrue, drop 4 s)
      else if HasPrefix s ''false'' then Some (JFalse, drop 5 s)
      else map_option (\<lambda>(l, r). (JNumber l, r)) (scan_number s))"
| "json_members 0 d s0 = None"
| "json_members (Suc n) d s0 =
     (let s = skip_ws s0 in
      if \<not> next_is dquote s then None
      else case scan_str (tl s) of
        None \<Rightarrow> None
      | Some (k, r) \<Rightarrow>
          (if \<not> next_is (CHR '':'') (skip_ws r) then None
           else case json_value n d (tl (skip_ws r)) of
             None \<Rightarrow> None
           | Some (v, r2) \<Rightarrow>
               (if next_is (CHR '','') (skip_ws r2)
                then map_option (\<lambda>(kvs, r3). ((k, v) # kvs, r3)) (json_members n d (tl (skip_ws r2)))
                else if next_is (CHR 0x7D) (skip_ws r2) then Some ([(k, v)], tl (skip_ws r2))
                else None)))"
| "json_elements 0 d s0 = None"
| "json_elements (Suc n) d s0 =
     (case json_value n d s0 of
        None \<Rightarrow> None
      | Some (v, r2) \<Rightarrow>
          (if next_is (CHR '','') (skip_ws r2)
           then map_option (\<lambda>(vs, r3). (v # vs, r3)) (json_elements n d (tl (skip_ws r2)))
           else if next_is (CHR '']'') (skip_ws r2) then Some ([v], tl (skip_ws r2))
           else None))"

text \<open>The next value of a stream, and a text that is one value.\<close>

definition json_next :: "string \<Rightarrow> (jvalue \<times> string) option" where
  "json_next s = json_value (2 * length s + 1) 10000 s"

definition json_text :: "string \<Rightarrow> jvalue option" where
  "json_text s = (case json_next s of None \<Rightarrow> None | Some (v, r) \<Rightarrow> if skip_ws r = [] then Some v else None)"

section \<open>Reading literals\<close>

definition encode_rune :: "nat \<Rightarrow> string" where
  "encode_rune n =
     map char_of
       (if n < 128 then [n]
        else if n < 2048 then [192 + n div 64, 128 + n mod 64]
        else if n < 65536 then [224 + n div 4096, 128 + n div 64 mod 64, 128 + n mod 64]
        else [240 + n div 262144, 128 + n div 4096 mod 64, 128 + n div 64 mod 64, 128 + n mod 64])"

definition hex4 :: "string \<Rightarrow> nat option" where
  "hex4 s =
     (case map json_hex (take 4 s) of
        [Some a, Some b, Some c, Some d] \<Rightarrow> Some (((a * 16 + b) * 16 + c) * 16 + d)
      | _ \<Rightarrow> None)"

definition unesc :: "char \<Rightarrow> char" where
  "unesc d =
     (if d = CHR ''b'' then CHR 0x08 else if d = CHR ''f'' then CHR 0x0C else if d = CHR ''n'' then CHR 0x0A
      else if d = CHR ''r'' then CHR 0x0D else if d = CHR ''t'' then CHR 0x09 else d)"

text \<open>A surrogate is joined with the low half that follows it, and is the replacement character otherwise.\<close>

definition low_half :: "string \<Rightarrow> nat option" where
  "low_half rest =
     (if HasPrefix rest (bsl # ''u'')
      then case hex4 (drop 2 rest) of
        Some n \<Rightarrow> if 0xDC00 \<le> n \<and> n < 0xE000 then Some n else None
      | None \<Rightarrow> None
      else None)"

definition unquote_u :: "string \<Rightarrow> string \<times> nat" where
  "unquote_u ds =
     (case hex4 ds of
        None \<Rightarrow> ([], 0)
      | Some n \<Rightarrow>
          if 0xD800 \<le> n \<and> n < 0xE000
          then case (if n < 0xDC00 then low_half (drop 4 ds) else None) of
                 Some lo \<Rightarrow> (encode_rune (0x10000 + (n - 0xD800) * 1024 + (lo - 0xDC00)), 10)
               | None \<Rightarrow> (replacement, 4)
          else (encode_rune n, 4))"

function unquote :: "string \<Rightarrow> string" where
  "unquote s =
     (case s of
        [] \<Rightarrow> []
      | c # cs \<Rightarrow>
          if c = bsl
          then (case cs of
                  [] \<Rightarrow> []
                | d # ds \<Rightarrow>
                    if d = CHR ''u'' then fst (unquote_u ds) @ unquote (drop (snd (unquote_u ds)) ds)
                    else unesc d # unquote ds)
          else if (of_char c :: nat) < 128 then c # unquote cs
          else if rune_len s = 0 then replacement @ unquote cs
          else take (rune_len s) s @ unquote (drop (rune_len s) s))"
  by pat_completeness auto
termination
  by (relation "measure length") auto

declare unquote.simps [simp del]

section \<open>Literals that were quoted read back\<close>

lemma cons_body_Some [simp]: "cons_body p (Some (b, r)) = Some (p @ b, r)"
  by (simp add: cons_body_def)

lemma cons_body_None [simp]: "cons_body p None = None"
  by (simp add: cons_body_def)

lemma cons_body_append: "cons_body p (cons_body q r) = cons_body (p @ q) r"
  by (simp add: cons_body_def option.map_comp comp_def case_prod_unfold)

lemma cons_body_Nil: "cons_body [] r = r"
  by (cases r) auto

definition plain_char :: "char \<Rightarrow> bool" where
  "plain_char c \<longleftrightarrow> c \<noteq> dquote \<and> c \<noteq> bsl \<and> 32 \<le> (of_char c :: nat)"

lemma scan_plain: "list_all plain_char p \<Longrightarrow> scan_str (p @ t) = cons_body p (scan_str t)"
  by (induction p) (auto simp: plain_char_def cons_body_append cons_body_Nil)

abbreviation hexdigit :: "nat \<Rightarrow> char" where
  "hexdigit k \<equiv> ''0123456789abcdef'' ! k"

lemma json_hex_hexdigit: "k < 16 \<Longrightarrow> json_hex (hexdigit k) = Some k"
proof -
  have "list_all (\<lambda>k. json_hex (hexdigit k) = Some k) [0..<16]" by code_simp
  then show "k < 16 \<Longrightarrow> ?thesis" by (simp add: list_all_iff)
qed

lemma unquote_unesc: "d \<noteq> CHR ''u'' \<Longrightarrow> unquote (bsl # d # t) = unesc d # unquote t"
  by (subst unquote.simps) simp

lemma unquote_unicode: "unquote (bsl # CHR ''u'' # ds) = fst (unquote_u ds) @ unquote (drop (snd (unquote_u ds)) ds)"
  by (subst unquote.simps) simp

lemma scan_unicode:
  "list_all (\<lambda>h. json_hex h \<noteq> None) [h1, h2, h3, h4] \<Longrightarrow>
   scan_str (bsl # CHR ''u'' # h1 # h2 # h3 # h4 # t) = cons_body [bsl, CHR ''u'', h1, h2, h3, h4] (scan_str t)"
  by simp

lemma hex4_digits:
  assumes "json_hex a = Some x" "json_hex b = Some y" "json_hex c = Some z" "json_hex d = Some w"
  shows "hex4 (a # b # c # d # t) = Some (((x * 16 + y) * 16 + z) * 16 + w)"
  using assms by (simp add: hex4_def)

text \<open>An escape by four hexadecimal digits that is not a surrogate.\<close>

lemma unicode_reads:
  assumes "json_hex a = Some x" "json_hex b = Some y" "json_hex c = Some z" "json_hex d = Some w"
    and "n = ((x * 16 + y) * 16 + z) * 16 + w" "n < 0xD800 \<or> 0xE000 \<le> n"
  shows "scan_str ([bsl, CHR ''u'', a, b, c, d] @ t) = cons_body [bsl, CHR ''u'', a, b, c, d] (scan_str t)
    \<and> unquote ([bsl, CHR ''u'', a, b, c, d] @ t) = encode_rune n @ unquote t"
proof -
  have "hex4 (a # b # c # d # t) = Some n" using hex4_digits assms(1-5) by blast
  then have "unquote_u (a # b # c # d # t) = (encode_rune n, 4)" using assms(6) by (auto simp: unquote_u_def)
  then show ?thesis using unquote_unicode[of "a # b # c # d # t"] scan_unicode[of a b c d t] assms(1-4) by simp
qed

lemma short_reads:
  "d \<in> {CHR ''b'', CHR ''f'', CHR ''n'', CHR ''r'', CHR ''t'', bsl, dquote} \<Longrightarrow>
   scan_str ([bsl, d] @ t) = cons_body [bsl, d] (scan_str t) \<and> unquote ([bsl, d] @ t) = unesc d # unquote t"
  using unquote_unesc[of d t] by auto

lemma esc_byte_reads:
  assumes "(of_char c :: nat) < 128"
  shows "scan_str (esc_byte html c @ t) = cons_body (esc_byte html c) (scan_str t)
    \<and> unquote (esc_byte html c @ t) = c # unquote t"
proof -
  define b where "b = (of_char c :: nat)"
  have c: "c = char_of b" by (simp add: b_def)
  have cc: "char_of (8 :: nat) = CHR 0x08" "char_of (12 :: nat) = CHR 0x0C" "char_of (10 :: nat) = CHR 0x0A"
    "char_of (13 :: nat) = CHR 0x0D" "char_of (9 :: nat) = CHR 0x09" by code_simp+
  consider "c = bsl \<or> c = dquote" | "c = CHR 0x08" | "c = CHR 0x0C" | "c = CHR 0x0A" | "c = CHR 0x0D" | "c = CHR 0x09"
    | "c \<noteq> bsl" "c \<noteq> dquote" "b \<notin> {8, 12, 10, 13, 9}"
      "b < 32 \<or> html \<and> (c = CHR ''<'' \<or> c = CHR ''>'' \<or> c = CHR ''&'')"
    | "c \<noteq> bsl" "c \<noteq> dquote" "b \<notin> {8, 12, 10, 13, 9}" "32 \<le> b"
      "\<not> (html \<and> (c = CHR ''<'' \<or> c = CHR ''>'' \<or> c = CHR ''&''))" using c cc by fastforce
  then show ?thesis
  proof cases
    case 1
    then have e: "esc_byte html c = [bsl, c]" "unesc c = c" by (auto simp: esc_byte_def unesc_def)
    show ?thesis unfolding e(1) using short_reads[of c t] 1 e(2) by auto
  next
    case 2
    then have e: "esc_byte html c = [bsl, CHR ''b'']" by (simp add: esc_byte_def)
    show ?thesis unfolding e using short_reads[of "CHR ''b''" t] 2 by (simp add: unesc_def)
  next
    case 3
    then have e: "esc_byte html c = [bsl, CHR ''f'']" by (simp add: esc_byte_def)
    show ?thesis unfolding e using short_reads[of "CHR ''f''" t] 3 by (simp add: unesc_def)
  next
    case 4
    then have e: "esc_byte html c = [bsl, CHR ''n'']" by (simp add: esc_byte_def)
    show ?thesis unfolding e using short_reads[of "CHR ''n''" t] 4 by (simp add: unesc_def)
  next
    case 5
    then have e: "esc_byte html c = [bsl, CHR ''r'']" by (simp add: esc_byte_def)
    show ?thesis unfolding e using short_reads[of "CHR ''r''" t] 5 by (simp add: unesc_def)
  next
    case 6
    then have e: "esc_byte html c = [bsl, CHR ''t'']" by (simp add: esc_byte_def)
    show ?thesis unfolding e using short_reads[of "CHR ''t''" t] 6 by (simp add: unesc_def)
  next
    case 7
    define h1 h2 where "h1 = hexdigit (b div 16)" and "h2 = hexdigit (b mod 16)"
    have b: "b < 128" using assms by (simp add: b_def)
    have j: "json_hex h1 = Some (b div 16)" "json_hex h2 = Some (b mod 16)"
      unfolding h1_def h2_def using b by (intro json_hex_hexdigit; simp)+
    have z: "json_hex (CHR ''0'') = Some 0" by code_simp
    have e: "esc_byte html c = [bsl, CHR ''u'', CHR ''0'', CHR ''0'', h1, h2]"
      unfolding esc_byte_def Let_def h1_def h2_def b_def[symmetric] using 7 by simp
    have n: "b = ((0 * 16 + 0) * 16 + b div 16) * 16 + b mod 16" "b < 0xD800 \<or> 0xE000 \<le> b" using b by simp_all
    have r: "encode_rune b = [c]" using b by (simp add: encode_rune_def c)
    show ?thesis unfolding e using unicode_reads[OF z z j n, of t] r by simp
  next
    case 8
    then have e: "esc_byte html c = [c]" unfolding esc_byte_def Let_def b_def[symmetric] by auto
    show ?thesis unfolding e
      using 8 assms scan_plain[of "[c]" t] by (simp add: plain_char_def b_def unquote.simps[of "c # _"])
  qed
qed

lemma rune_high:
  assumes "1 < rune_len s" "c \<in> set (take (rune_len s) s)"
  shows "128 \<le> (of_char c :: nat)"
proof -
  have pos: "0 < rune_len s" using assms(1) by simp
  obtain a cs n where n: "s = a # cs" "n = seq_len (of_char a)" "rune_len s = n" "n \<le> length s"
    "n \<le> 1 \<or> second_ok (of_char a) (of_char (s ! 1))" "list_all (\<lambda>c. cont (of_char c)) (drop 2 (take n s))"
    using pos by (rule rune_len_pos)
  have a: "128 \<le> (of_char a :: nat)" using n(2,3) assms(1) by (auto simp: seq_len_def split: if_splits)
  have n1: "1 < n" using n(3) assms(1) by simp
  obtain d ds where cs: "cs = d # ds" using n(1,4) n1 by (cases cs) auto
  have "second_ok (of_char a) (of_char d)" using n(1,5) n1 cs by simp
  then have d: "128 \<le> (of_char d :: nat)" by (auto simp: second_ok_def cont_def split: if_splits)
  have "take n s = a # d # take (n - 2) ds" using n(1) cs n1 by (simp add: take_Cons' numeral_2_eq_2)
  moreover have "drop 2 (take n s) = take (n - 2) ds" using n(1) cs n1 by (simp add: take_Cons' numeral_2_eq_2)
  ultimately show ?thesis using a d n(3,6) assms(2) by (auto simp: list_all_iff cont_def)
qed

text \<open>What a string becomes: each invalid byte is replaced.\<close>

definition fix_rune :: "string \<Rightarrow> string" where
  "fix_rune r = (if length r = 1 \<and> 128 \<le> (of_char (hd r) :: nat) then replacement else r)"

definition json_string :: "string \<Rightarrow> string" where
  "json_string s = concat (map fix_rune (runes s))"

lemma high_plain: "128 \<le> (of_char c :: nat) \<Longrightarrow> plain_char c"
  by (auto simp: plain_char_def)

lemma unquote_rune:
  assumes "1 < rune_len s"
  shows "unquote (take (rune_len s) s @ t) = take (rune_len s) s @ unquote t"
proof -
  let ?r = "take (rune_len s) s"
  have l: "length ?r = rune_len s" using rune_len_le[of s] by simp
  have r: "rune_len ?r = rune_len s"
  proof -
    have pos: "0 < rune_len s" using assms by simp
    obtain c cs n where n: "s = c # cs" "n = seq_len (of_char c)" "rune_len s = n" "0 < n" "n \<le> length s"
      "n \<le> 1 \<or> second_ok (of_char c) (of_char (s ! 1))" "list_all (\<lambda>c. cont (of_char c)) (drop 2 (take n s))"
      using pos by (rule rune_len_pos)
    from n(1,4) have "take n s = c # take (n - 1) cs" by (cases n) auto
    with n show ?thesis by (cases "n \<le> 1") (auto simp: rune_len_def Let_def min_def split: list.splits)
  qed
  have rt: "rune_len (?r @ t) = rune_len s" using rune_len_append[of ?r t] r assms by simp
  obtain c cs where c: "?r = c # cs" using assms l by (cases ?r) auto
  have h: "128 \<le> (of_char c :: nat)" using rune_high[OF assms, of c] c by simp
  have "unquote (?r @ t) = take (rune_len (?r @ t)) (?r @ t) @ unquote (drop (rune_len (?r @ t)) (?r @ t))"
    using h rt assms unfolding c append_Cons by (subst unquote.simps) auto
  then show ?thesis unfolding rt using l by simp
qed

lemma encode_rune_specials:
  "encode_rune 65533 = replacement" "encode_rune 8232 = u2028" "encode_rune 8233 = u2029"
proof -
  have c: "char_of (239 :: nat) = CHR 0xEF" "char_of (191 :: nat) = CHR 0xBF" "char_of (189 :: nat) = CHR 0xBD"
    "char_of (226 :: nat) = CHR 0xE2" "char_of (128 :: nat) = CHR 0x80" "char_of (168 :: nat) = CHR 0xA8"
    "char_of (169 :: nat) = CHR 0xA9" by code_simp+
  show "encode_rune 65533 = replacement" "encode_rune 8232 = u2028" "encode_rune 8233 = u2029"
    by (simp_all add: encode_rune_def c)
qed

lemma esc_rune_reads:
  assumes "s \<noteq> []" "r = take (max 1 (rune_len s)) s"
  shows "scan_str (esc_rune html r @ v) = cons_body (esc_rune html r) (scan_str v)
    \<and> unquote (esc_rune html r @ v) = fix_rune r @ unquote v"
proof -
  obtain c cs where s: "s = c # cs" using assms(1) by (cases s) auto
  consider "rune_len s \<le> 1" "(of_char c :: nat) < 128" | "rune_len s \<le> 1" "128 \<le> (of_char c :: nat)" | "1 < rune_len s"
    by linarith
  then show ?thesis
  proof cases
    case 1
    then have "max 1 (rune_len s) = 1" by simp
    then have r: "r = [c]" using s assms(2) by simp
    show ?thesis unfolding r using 1 esc_byte_reads[of c html v] by (simp add: esc_rune_def fix_rune_def)
  next
    case 2
    then have "max 1 (rune_len s) = 1" by simp
    then have r: "r = [c]" using s assms(2) by simp
    have e: "esc_rune html r = [bsl, CHR ''u'', CHR ''f'', CHR ''f'', CHR ''f'', CHR ''d'']" "fix_rune r = replacement"
      using 2 by (simp_all add: r esc_rune_def fix_rune_def)
    have f: "json_hex (CHR ''f'') = Some 15" "json_hex (CHR ''d'') = Some 13" by code_simp+
    have n: "encode_rune 65533 = replacement" by (rule encode_rune_specials)
    show ?thesis unfolding e n[symmetric] by (rule unicode_reads[OF f(1,1,1,2)]) simp_all
  next
    case 3
    then have k: "r = take (rune_len s) s" using assms(2) by simp
    have l: "length r = rune_len s" "length r \<noteq> 1" using rune_len_le[of s] 3 k by simp_all
    have hx: "json_hex (CHR ''2'') = Some 2" "json_hex (CHR ''0'') = Some 0" "json_hex (CHR ''8'') = Some 8"
      "json_hex (CHR ''9'') = Some 9" by code_simp+
    have e: "encode_rune 8232 = u2028" "encode_rune 8233 = u2029" by (rule encode_rune_specials)+
    have fr: "fix_rune r = r" using l by (simp add: fix_rune_def)
    consider "r = u2028" | "r = u2029" | "r \<noteq> u2028" "r \<noteq> u2029" by blast
    then show ?thesis
    proof cases
      case 1
      have er: "esc_rune html r = [bsl, CHR ''u'', CHR ''2'', CHR ''0'', CHR ''2'', CHR ''8'']"
        by (simp add: 1 esc_rune_def)
      show ?thesis unfolding fr er unfolding 1 e(1)[symmetric] by (rule unicode_reads[OF hx(1,2,1,3)]) simp_all
    next
      case 2
      have er: "esc_rune html r = [bsl, CHR ''u'', CHR ''2'', CHR ''0'', CHR ''2'', CHR ''9'']"
        by (simp add: 2 esc_rune_def)
      show ?thesis unfolding fr er unfolding 2 e(2)[symmetric] by (rule unicode_reads[OF hx(1,2,1,4)]) simp_all
    next
      case 3
      then have er: "esc_rune html r = r" using l by (simp add: esc_rune_def)
      have "list_all plain_char r"
        using rune_high[OF \<open>1 < rune_len s\<close>] unfolding k by (auto simp: list_all_iff intro!: high_plain)
      then show ?thesis unfolding er fr using scan_plain unquote_rune[OF \<open>1 < rune_len s\<close>] unfolding k by blast
    qed
  qed
qed

lemma quote_body_reads:
  "scan_str (quote_body html s @ dquote # t) = Some (quote_body html s, t) \<and> unquote (quote_body html s) = json_string s"
proof (induction s rule: runes.induct)
  case (1 s)
  show ?case
  proof (cases "s = []")
    case True
    then show ?thesis by (simp add: quote_body_def json_string_def runes.simps unquote.simps)
  next
    case False
    let ?k = "max 1 (rune_len s)"
    let ?r = "take ?k s" and ?d = "drop ?k s"
    have ru: "runes s = ?r # runes ?d" using False by (subst runes.simps) simp
    have qb: "quote_body html s = esc_rune html ?r @ quote_body html ?d" "json_string s = fix_rune ?r @ json_string ?d"
      unfolding quote_body_def json_string_def ru by simp_all
    have ih: "scan_str (quote_body html ?d @ dquote # t) = Some (quote_body html ?d, t)"
      "unquote (quote_body html ?d) = json_string ?d"
      using 1[OF False] by blast+
    show ?thesis unfolding qb using esc_rune_reads[OF False refl] ih by simp
  qed
qed

lemma json_string_valid: "ValidString s \<Longrightarrow> json_string s = s"
proof (induction s rule: ValidString.induct)
  case (1 s)
  show ?case
  proof (cases "s = []")
    case True
    then show ?thesis by (simp add: json_string_def runes.simps)
  next
    case False
    with "1.prems" have v: "rune_len s \<noteq> 0" "ValidString (drop (rune_len s) s)"
      by (auto simp: ValidString.simps[of s] split: if_splits)
    then have k: "max 1 (rune_len s) = rune_len s" by simp
    have f: "fix_rune (take (rune_len s) s) = take (rune_len s) s"
    proof (cases "rune_len s = 1")
      case True
      have pos: "0 < rune_len s" using v(1) by simp
      obtain c cs n where "s = c # cs" "n = seq_len (of_char c)" "rune_len s = n"
        using pos by (rule rune_len_pos)
      then have "s = c # cs" "seq_len (of_char c) = 1" using True by simp_all
      moreover from this(2) have "(of_char c :: nat) < 128" by (simp add: seq_len_def split: if_splits)
      ultimately show ?thesis using True by (simp add: fix_rune_def)
    next
      case False
      then show ?thesis using rune_len_le[of s] v(1) by (auto simp: fix_rune_def min_def)
    qed
    have "json_string s = fix_rune (take (rune_len s) s) @ json_string (drop (rune_len s) s)"
      unfolding json_string_def using False k by (subst runes.simps) simp
    then show ?thesis using f "1.IH"[OF False v] by simp
  qed
qed

end
