(* ===== verification/JSON_Texts.thy ===== *)
theory JSON_Texts
  imports Go_JSON "HOL-Library.Word"
begin

text \<open>
  JSON texts read and printed: the scanner never returns more than it was given, so the fuel of
  \<^const>\<open>json_next\<close> is always enough; a printed value is read back whatever follows it; and the assignment
  of the members of an object to the fields of a structure.
\<close>

section \<open>Fuel\<close>

lemma skip_ws_le: "length (skip_ws s) \<le> length s"
  by (simp add: skip_ws_def length_dropWhile_le)

lemma next_is_tl: "next_is c s \<Longrightarrow> length (tl s) < length s"
  by (cases s) (simp_all add: next_is_def)

lemma next_skip: "next_is c (skip_ws s) \<Longrightarrow> length (tl (skip_ws s)) < length s"
  using next_is_tl[of c "skip_ws s"] skip_ws_le[of s] by simp

text \<open>A scanner leaves at most \<open>n\<close> bytes.\<close>

definition leaves :: "nat \<Rightarrow> ('a \<times> string) option \<Rightarrow> bool" where
  "leaves n x \<longleftrightarrow> (\<forall>b r. x = Some (b, r) \<longrightarrow> length r \<le> n)"

named_theorems leaves_intros \<open>bounds on what a scanner leaves\<close>

lemma leaves_None [leaves_intros]: "leaves n None"
  by (simp add: leaves_def)

lemma leaves_Some [leaves_intros]: "length r \<le> n \<Longrightarrow> leaves n (Some (b, r))"
  by (simp add: leaves_def)

lemma leaves_cons_body [leaves_intros]: "leaves n x \<Longrightarrow> leaves n (cons_body p x)"
  by (auto simp: leaves_def cons_body_def)

lemma leaves_map [leaves_intros]: "leaves n x \<Longrightarrow> leaves n (map_option (\<lambda>(b, r). (f b, r)) x)"
  by (auto simp: leaves_def)

lemma leaves_if [leaves_intros]: "(c \<Longrightarrow> leaves n x) \<Longrightarrow> (\<not> c \<Longrightarrow> leaves n y) \<Longrightarrow> leaves n (if c then x else y)"
  by simp

lemma leaves_case [leaves_intros]:
  "leaves k x \<Longrightarrow> (\<And>b r. length r \<le> k \<Longrightarrow> leaves n (f b r)) \<Longrightarrow>
   leaves n (case x of None \<Rightarrow> None | Some y \<Rightarrow> (case y of (b, r) \<Rightarrow> f b r))"
  by (auto simp: leaves_def split: option.splits)

lemma leaves_mono: "leaves k x \<Longrightarrow> k \<le> n \<Longrightarrow> leaves n x"
  by (auto simp: leaves_def intro: le_trans)

text \<open>From here on each bound is stated for any number that is large enough, so that the facts chain as
  introduction rules.\<close>

lemma scan_str_leaves [leaves_intros]: "length s \<le> k \<Longrightarrow> leaves k (scan_str s)"
proof (induction s arbitrary: k rule: length_induct)
  case (1 s)
  have IH: "leaves k (scan_str t)" if "length t < length s" for t
    using 1 that by simp
  show ?case
  proof (cases s)
    case (Cons c cs)
    then have le: "length cs \<le> k" using "1.prems" by simp
    have esc: "leaves k (case cs of [] \<Rightarrow> None | d # ds \<Rightarrow> f d ds)" if "\<And>d ds. cs = d # ds \<Longrightarrow> leaves k (f d ds)" for f :: "char \<Rightarrow> string \<Rightarrow> (string \<times> string) option"
      using that by (cases cs) (simp_all add: leaves_None)
    have hex: "leaves k (case ds of h1 # h2 # h3 # h4 # rest \<Rightarrow> g h1 h2 h3 h4 rest | _ \<Rightarrow> None)"
      if "\<And>h1 h2 h3 h4 rest. ds = h1 # h2 # h3 # h4 # rest \<Longrightarrow> leaves k (g h1 h2 h3 h4 rest)"
      for ds :: string and g :: "char \<Rightarrow> char \<Rightarrow> char \<Rightarrow> char \<Rightarrow> string \<Rightarrow> (string \<times> string) option"
      using that by (auto simp: leaves_None split: list.split)
    show ?thesis
      unfolding Cons scan_str.simps
      by (intro leaves_intros esc hex le IH) (simp_all add: Cons)
  qed (simp add: leaves_None)
qed

lemma scan_digits_leaves [leaves_intros]: "length s \<le> k \<Longrightarrow> leaves k (scan_digits s)"
  using length_dropWhile_le[of is_digit s] by (auto simp: scan_digits_def leaves_def)

lemma scan_int_leaves [leaves_intros]: "length s \<le> k \<Longrightarrow> leaves k (scan_int s)"
  unfolding scan_int_def by (intro leaves_intros) simp_all

lemma scan_frac_leaves [leaves_intros]: "length s \<le> k \<Longrightarrow> leaves k (scan_frac s)"
  unfolding scan_frac_def by (intro leaves_intros) simp_all

lemma scan_exp_leaves [leaves_intros]: "length s \<le> k \<Longrightarrow> leaves k (scan_exp s)"
  unfolding scan_exp_def Let_def by (intro leaves_intros) simp_all

lemma scan_number_leaves [leaves_intros]: "length s \<le> k \<Longrightarrow> leaves k (scan_number s)"
  unfolding scan_number_def Let_def
  by (rule leaves_case[where k = k], (intro leaves_intros; simp))
    (rule leaves_case[where k = k]; intro leaves_intros; assumption)

lemma skip_ws_bound: "length s \<le> k \<Longrightarrow> length (skip_ws s) \<le> k" "length s \<le> k \<Longrightarrow> length (tl (skip_ws s)) \<le> k"
  using skip_ws_le[of s] by simp_all

lemma json_leaves:
  "length s \<le> k \<Longrightarrow> leaves k (json_value n d s)"
  "length s \<le> k \<Longrightarrow> leaves k (json_members n d s)"
  "length s \<le> k \<Longrightarrow> leaves k (json_elements n d s)"
proof (induction n arbitrary: d s)
  case (Suc n)
  note bounds = skip_ws_bound
  {
    case 1
    have "length (skip_ws s) \<le> k" "length (tl (skip_ws s)) \<le> k" "length (tl (skip_ws (tl (skip_ws s)))) \<le> k"
      by (rule bounds(1)[OF 1], rule bounds(2)[OF 1], rule bounds(2)[OF bounds(2)[OF 1]])
    then show ?case
      unfolding json_value.simps Let_def by (intro leaves_intros Suc) (simp_all add: bounds)
  next
    case 2
    then show ?case
      unfolding json_members.simps Let_def
      by (intro leaves_intros leaves_case[where k = k] Suc bounds) (assumption | simp)+
  next
    case 3
    then show ?case
      unfolding json_elements.simps Let_def
      by (intro leaves_intros leaves_case[where k = k] Suc bounds) (assumption | simp)+
  }
qed (simp_all add: leaves_None)

lemma json_value_le: "json_value n d s = Some (v, r) \<Longrightarrow> length r \<le> length s"
  using json_leaves(1)[of s "length s" n d] by (simp add: leaves_def)

lemma scan_str_le: "scan_str s = Some (b, r) \<Longrightarrow> length r \<le> length s"
  using scan_str_leaves[of s "length s"] by (simp add: leaves_def)

text \<open>Every value takes at least one byte.\<close>

lemma leaves_tl: "next_is c s \<Longrightarrow> length s \<le> Suc k \<Longrightarrow> length (tl s) \<le> k"
  using next_is_tl[of c s] by simp

lemma scan_digits_less: "length s \<le> Suc k \<Longrightarrow> leaves k (scan_digits s)"
  using arg_cong[OF takeWhile_dropWhile_id[of is_digit s], of length]
  by (cases "takeWhile is_digit s") (auto simp: scan_digits_def leaves_def)

lemma scan_int_less: "length s \<le> Suc k \<Longrightarrow> leaves k (scan_int s)"
  unfolding scan_int_def by (intro leaves_intros scan_digits_less) auto

lemma scan_number_less: "length s \<le> Suc k \<Longrightarrow> leaves k (scan_number s)"
  unfolding scan_number_def Let_def
  by (rule leaves_case[where k = k], rule scan_int_less, simp)
    (rule leaves_case[where k = k]; intro leaves_intros; assumption)

lemma HasPrefix_length: "HasPrefix s p \<Longrightarrow> length p \<le> length s"
  by (auto simp: HasPrefix_iff)

lemma json_value_less: "length s \<le> Suc k \<Longrightarrow> leaves k (json_value n d s)"
proof (cases n)
  case (Suc n')
  assume s: "length s \<le> Suc k"
  then have w: "length (skip_ws s) \<le> Suc k" by (rule skip_ws_bound)
  have t: "length (tl (skip_ws s)) \<le> k" if "next_is c (skip_ws s)" for c using leaves_tl[OF that w] .
  have t2: "length (tl (skip_ws (tl (skip_ws s)))) \<le> k" if "next_is c (skip_ws s)" for c
    by (rule skip_ws_bound(2)[OF t[OF that]])
  show ?thesis
    unfolding Suc json_value.simps Let_def
    by (intro leaves_intros json_leaves scan_number_less w t t2) (assumption | use w HasPrefix_length in fastforce)+
qed (simp add: leaves_None)

lemma json_next_less: "json_next s = Some (v, r) \<Longrightarrow> length r < length s"
proof (cases s)
  case Nil
  then show "json_next s = Some (v, r) \<Longrightarrow> ?thesis"
    by (simp add: json_next_def skip_ws_def next_is_def HasPrefix_def scan_number_def scan_int_def scan_digits_def)
next
  case (Cons c cs)
  then have "leaves (length cs) (json_value (2 * length s + 1) 10000 s)" by (intro json_value_less) simp
  then show "json_next s = Some (v, r) \<Longrightarrow> ?thesis" using Cons by (simp add: json_next_def leaves_def)
qed

text \<open>More fuel changes nothing: every call but the first of an array's element consumes a byte.\<close>

lemma json_fuel_enough:
  "2 * length s + 1 \<le> n \<Longrightarrow> 2 * length s + 1 \<le> m \<Longrightarrow> json_value n d s = json_value m d s"
  "2 * length s + 2 \<le> n \<Longrightarrow> 2 * length s + 2 \<le> m \<Longrightarrow> json_members n d s = json_members m d s"
  "2 * length s + 2 \<le> n \<Longrightarrow> 2 * length s + 2 \<le> m \<Longrightarrow> json_elements n d s = json_elements m d s"
proof (induction n arbitrary: m d s)
  case (Suc n)
  have tl: "2 * length (tl (skip_ws t)) + 2 \<le> 2 * length t" if "next_is c (skip_ws t)" for c t
    using next_skip[OF that] by simp
  {
    case 1
    then obtain m' where m: "m = Suc m'" by (cases m) auto
    have eq: "json_members n e (tl (skip_ws s)) = json_members m' e (tl (skip_ws s))"
      "json_elements n e (tl (skip_ws s)) = json_elements m' e (tl (skip_ws s))" if "next_is c (skip_ws s)" for c e
      using Suc.IH(2,3)[of "tl (skip_ws s)" m' e] tl[OF that] 1 m by simp_all
    note obj = eq(1)[where c = "CHR 0x7B"] and arr = eq(2)[where c = "CHR ''[''"]
    show ?case unfolding m json_value.simps Let_def
      by (cases "next_is (CHR 0x7B) (skip_ws s)"; cases "next_is (CHR ''['') (skip_ws s)") (simp_all only: obj arr if_True if_False)
  next
    case 2
    then obtain m' where m: "m = Suc m'" by (cases m) auto
    have v: "json_value n d (tl (skip_ws r)) = json_value m' d (tl (skip_ws r))"
      if "next_is dquote (skip_ws s)" "scan_str (tl (skip_ws s)) = Some (k, r)" "next_is (CHR '':'') (skip_ws r)" for k r
    proof -
      have "2 * length (tl (skip_ws r)) + 1 \<le> 2 * length s" using tl[OF that(1)] scan_str_le[OF that(2)] tl[OF that(3)] by simp
      then show ?thesis using Suc.IH(1)[of "tl (skip_ws r)" m' d] 2 m by simp
    qed
    have k: "json_members n d (tl (skip_ws r2)) = json_members m' d (tl (skip_ws r2))"
      if "next_is dquote (skip_ws s)" "scan_str (tl (skip_ws s)) = Some (k, r)" "next_is (CHR '':'') (skip_ws r)"
        "json_value m' d (tl (skip_ws r)) = Some (x, r2)" "next_is (CHR '','') (skip_ws r2)" for k r x r2
    proof -
      have "2 * length (tl (skip_ws r2)) + 2 \<le> 2 * length s"
        using tl[OF that(1)] scan_str_le[OF that(2)] tl[OF that(3)] json_value_le[OF that(4)] tl[OF that(5)] by simp
      then show ?thesis using Suc.IH(2)[of "tl (skip_ws r2)" m' d] 2 m by simp
    qed
    show ?case unfolding m json_members.simps Let_def using v k by (auto split: option.split)
  next
    case 3
    then obtain m' where m: "m = Suc m'" by (cases m) auto
    have v: "json_value n d s = json_value m' d s" using Suc.IH(1)[of s m' d] 3 m by simp
    have k: "json_elements n d (tl (skip_ws r2)) = json_elements m' d (tl (skip_ws r2))"
      if "json_value m' d s = Some (x, r2)" "next_is (CHR '','') (skip_ws r2)" for x r2
      using Suc.IH(3)[of "tl (skip_ws r2)" m' d] json_value_le[OF that(1)] tl[OF that(2)] 3 m by simp
    show ?case unfolding m json_elements.simps using v k by (auto split: option.split)
  }
qed simp_all

section \<open>Printing\<close>

text \<open>\<^verbatim>\<open>strconv.AppendInt\<close> in base ten, and a compact JSON text.\<close>

definition AppendInt :: "int \<Rightarrow> string" where
  "AppendInt k = (if k < 0 then CHR ''-'' # dec_digits (nat (- k)) else dec_digits (nat k))"

fun commas :: "string list \<Rightarrow> string" where
  "commas [] = []"
| "commas [x] = x"
| "commas (x # y # zs) = x @ CHR '','' # commas (y # zs)"

definition print_member :: "string \<Rightarrow> string \<Rightarrow> string" where
  "print_member k v = dquote # k @ dquote # CHR '':'' # v"

definition braces :: "string \<Rightarrow> string" where
  "braces s = CHR 0x7B # s @ [CHR 0x7D]"

definition member_list :: "(string \<times> string) list \<Rightarrow> string" where
  "member_list ms = braces (commas (map (\<lambda>(k, v). print_member k v) ms))"

text \<open>What a printed value must be followed by: nothing that would extend a number.\<close>

definition num_end :: "string \<Rightarrow> bool" where
  "num_end t \<longleftrightarrow> t = [] \<or> \<not> is_digit (hd t) \<and> hd t \<notin> {CHR ''.'', CHR ''e'', CHR ''E''}"

text \<open>A text that is read back as a value within \<open>d\<close> levels, whatever follows.\<close>

definition reads :: "nat \<Rightarrow> string \<Rightarrow> jvalue \<Rightarrow> bool" where
  "reads d s v \<longleftrightarrow> (\<forall>t. num_end t \<longrightarrow> (\<exists>n0. \<forall>n\<ge>n0. json_value n d (s @ t) = Some (v, t)))"

definition reads_members :: "nat \<Rightarrow> string \<Rightarrow> (string \<times> jvalue) list \<Rightarrow> bool" where
  "reads_members d s kvs \<longleftrightarrow> s \<noteq> [] \<and> hd s = dquote
     \<and> (\<forall>t. \<exists>n0. \<forall>n\<ge>n0. json_members n d (s @ CHR 0x7D # t) = Some (kvs, t))"

definition reads_body :: "string \<Rightarrow> bool" where
  "reads_body b \<longleftrightarrow> (\<forall>t. scan_str (b @ dquote # t) = Some (b, t))"

lemma skip_ws_stop [simp]: "c \<notin> {CHR '' '', CHR 0x09, CHR 0x0A, CHR 0x0D} \<Longrightarrow> skip_ws (c # s) = c # s"
  by (simp add: skip_ws_def)

lemma next_is_Cons [simp]: "next_is c (x # s) \<longleftrightarrow> x = c"
  by (simp add: next_is_def)

lemma enough_fuel: "\<forall>n\<ge>n0. P (Suc n) \<Longrightarrow> \<exists>n1. \<forall>n\<ge>n1. P n"
  by (intro exI[of _ "Suc n0"]) (metis Suc_le_D Suc_le_mono)

lemma json_next_reads: "reads 10000 s v \<Longrightarrow> num_end t \<Longrightarrow> json_next (s @ t) = Some (v, t)"
  unfolding reads_def json_next_def using json_fuel_enough(1)[of "s @ t" "2 * length (s @ t) + 1"]
  by (metis nat_le_linear order_refl)

lemma json_text_reads: "reads 10000 s v \<Longrightarrow> json_text s = Some v"
  using json_next_reads[of s v "[]"] by (simp add: json_text_def num_end_def skip_ws_def)

lemma reads_string:
  assumes "reads_body b"
  shows "reads d (dquote # b @ [dquote]) (JString b)"
proof -
  have "json_value (Suc n) d ((dquote # b @ [dquote]) @ t) = Some (JString b, t)" for n t
    using assms by (simp add: reads_body_def Let_def)
  then show ?thesis unfolding reads_def by (metis Suc_le_D)
qed

lemma dec_digits_head: "\<exists>c cs. dec_digits n = c # cs \<and> is_digit c \<and> (c = CHR ''0'' \<longrightarrow> cs = [])"
proof (induction n rule: dec_digits.induct)
  case (1 n)
  show ?case
  proof (cases "n < 10")
    case True
    then show ?thesis by (simp add: dec_digits.simps[of n])
  next
    case False
    then obtain c cs where c: "dec_digits (n div 10) = c # cs" "is_digit c" "c = CHR ''0'' \<longrightarrow> cs = []"
      using "1.IH" by blast
    have "c \<noteq> CHR ''0''"
    proof
      assume z: "c = CHR ''0''"
      have "digit_val (CHR ''0'') = 0" by code_simp
      then have "digits_val (dec_digits (n div 10)) = 0" using c(1,3) z by (simp add: digits_val_def)
      then show False using False by simp
    qed
    then show ?thesis using False c by (simp add: dec_digits.simps[of n])
  qed
qed

lemma digits_run:
  assumes "list_all is_digit ds" "num_end t"
  shows "takeWhile is_digit (ds @ t) = ds \<and> dropWhile is_digit (ds @ t) = t"
  using assms by (induction ds) (cases t; auto simp: num_end_def)+

lemma scan_int_dec:
  assumes "num_end t"
  shows "scan_int (dec_digits n @ t) = Some (dec_digits n, t)"
proof -
  obtain c cs where c: "dec_digits n = c # cs" "c = CHR ''0'' \<longrightarrow> cs = []" using dec_digits_head by blast
  show ?thesis
  proof (cases "c = CHR ''0''")
    case True
    then show ?thesis using c by (simp add: scan_int_def)
  next
    case False
    then have "scan_int (dec_digits n @ t) = scan_digits (dec_digits n @ t)" using c(1) by (simp add: scan_int_def)
    then show ?thesis using digits_run[OF dec_digits_digits assms, of n] by (simp add: scan_digits_def)
  qed
qed

lemma scan_number_int:
  assumes "num_end t"
  shows "scan_number (AppendInt k @ t) = Some (AppendInt k, t)"
proof -
  obtain c cs where c: "dec_digits (nat k) = c # cs" "is_digit c" using dec_digits_head by blast
  have m: "c \<noteq> CHR ''-''" using c(2) by (auto simp: is_digit_def)
  have f: "scan_frac t = Some ([], t)" "scan_exp t = Some ([], t)"
    using assms by (auto simp: scan_frac_def scan_exp_def num_end_def)
  show ?thesis
    using scan_int_dec[OF assms, of "nat k"] scan_int_dec[OF assms, of "nat (- k)"] c m f
    by (simp add: scan_number_def AppendInt_def Let_def)
qed

lemma AppendInt_head: "\<exists>c cs. AppendInt k = c # cs \<and> (is_digit c \<or> c = CHR ''-'')"
  using dec_digits_head[of "nat k"] by (auto simp: AppendInt_def)

lemma reads_int: "reads d (AppendInt k) (JNumber (AppendInt k))"
proof -
  obtain c cs where c: "AppendInt k = c # cs" "is_digit c \<or> c = CHR ''-''" using AppendInt_head by blast
  have ws: "c \<notin> {CHR '' '', CHR 0x09, CHR 0x0A, CHR 0x0D, CHR 0x7B, CHR ''['', dquote, CHR ''n'', CHR ''t'', CHR ''f''}"
    using c(2) by (auto simp: is_digit_def)
  have "json_value (Suc n) d (AppendInt k @ t) = Some (JNumber (AppendInt k), t)" if "num_end t" for n t
    using scan_number_int[OF that, of k] c(1) ws by (simp add: Let_def HasPrefix_def)
  then show ?thesis unfolding reads_def by (metis Suc_le_D)
qed

lemma num_end_sep [simp]: "num_end (CHR '','' # t)" "num_end (CHR 0x7D # t)" "num_end (CHR 0x0A # t)" "num_end []"
  by (simp_all add: num_end_def is_digit_def)

lemma reads_last:
  assumes "reads_body k" "reads d v x"
  shows "reads_members d (print_member k v) [(k, x)]"
proof -
  have "\<exists>n0. \<forall>n\<ge>n0. json_members n d (print_member k v @ CHR 0x7D # t) = Some ([(k, x)], t)" for t
  proof -
    obtain n0 where n0: "\<forall>n\<ge>n0. json_value n d (v @ CHR 0x7D # t) = Some (x, CHR 0x7D # t)"
      using assms(2) num_end_sep(2)[of t] unfolding reads_def by blast
    have "json_members (Suc n) d (print_member k v @ CHR 0x7D # t) = Some ([(k, x)], t)" if "n0 \<le> n" for n
      using n0 that assms(1) by (simp add: print_member_def reads_body_def Let_def)
    then show ?thesis by (intro enough_fuel[of n0]) simp
  qed
  then show ?thesis by (simp add: reads_members_def) (simp add: print_member_def)
qed

lemma reads_more:
  assumes "reads_body k" "reads d v x" "reads_members d s kvs"
  shows "reads_members d (print_member k v @ CHR '','' # s) ((k, x) # kvs)"
proof -
  have "\<exists>n0. \<forall>n\<ge>n0. json_members n d ((print_member k v @ CHR '','' # s) @ CHR 0x7D # t) = Some ((k, x) # kvs, t)" for t
  proof -
    let ?u = "CHR '','' # s @ CHR 0x7D # t"
    obtain n0 where n0: "\<forall>n\<ge>n0. json_value n d (v @ ?u) = Some (x, ?u)"
      using assms(2) num_end_sep(1) unfolding reads_def by blast
    obtain n1 where n1: "\<forall>n\<ge>n1. json_members n d (s @ CHR 0x7D # t) = Some (kvs, t)"
      using assms(3) unfolding reads_members_def by blast
    have "json_members (Suc n) d ((print_member k v @ CHR '','' # s) @ CHR 0x7D # t) = Some ((k, x) # kvs, t)"
      if "max n0 n1 \<le> n" for n
      using n0 n1 that assms(1) by (simp add: print_member_def reads_body_def Let_def)
    then show ?thesis by (intro enough_fuel[of "max n0 n1"]) simp
  qed
  then show ?thesis by (simp add: reads_members_def) (simp add: print_member_def)
qed

lemma reads_object:
  assumes "reads_members d s kvs"
  shows "reads (Suc d) (braces s) (JObject kvs)"
proof -
  have "\<exists>n0. \<forall>n\<ge>n0. json_value n (Suc d) (braces s @ t) = Some (JObject kvs, t)" for t
  proof -
    obtain n0 where n0: "\<forall>n\<ge>n0. json_members n d (s @ CHR 0x7D # t) = Some (kvs, t)" "s \<noteq> []" "hd s = dquote"
      using assms unfolding reads_members_def by blast
    have "json_value (Suc n) (Suc d) (braces s @ t) = Some (JObject kvs, t)" if "n0 \<le> n" for n
      using n0 that by (cases s) (simp_all add: braces_def Let_def)
    then show ?thesis by (intro enough_fuel[of n0]) simp
  qed
  then show ?thesis by (simp add: reads_def)
qed

text \<open>An object is read back when its members are.\<close>

lemma reads_member_list:
  assumes "ms \<noteq> []" "list_all2 (\<lambda>(k, v) (k', x). k' = k \<and> reads_body k \<and> reads d v x) ms kvs"
  shows "reads (Suc d) (member_list ms) (JObject kvs)"
proof -
  have "ms \<noteq> [] \<longrightarrow> reads_members d (commas (map (\<lambda>(k, v). print_member k v) ms)) kvs"
    using assms(2)
  proof (induction rule: list_all2_induct)
    case (Cons m ms x kvs)
    obtain k v where m: "m = (k, v)" by (rule prod.exhaust)
    with Cons(1) obtain y where x: "x = (k, y)" "reads_body k" "reads d v y" by (cases x) auto
    show ?case
    proof (cases ms)
      case Nil
      then have "kvs = []" using Cons(2) by simp
      then show ?thesis using Nil m x reads_last by simp
    next
      case (Cons m' ms')
      then have "commas (map (\<lambda>(k, v). print_member k v) (m # ms))
          = print_member k v @ CHR '','' # commas (map (\<lambda>(k, v). print_member k v) ms)" using m by simp
      then show ?thesis using reads_more[OF x(2,3)] Cons.IH Cons x(1) by simp
    qed
  qed simp
  then show ?thesis unfolding member_list_def using assms(1) by (intro reads_object) simp
qed

lemma reads_body_plain: "list_all plain_char b \<Longrightarrow> reads_body b"
  by (simp add: reads_body_def scan_plain)

lemma reads_body_quote: "reads_body (quote_body html s)"
  using quote_body_reads[of html s] by (simp add: reads_body_def)

text \<open>Literals without escapes, among them every key the program uses.\<close>

definition ascii_plain :: "char \<Rightarrow> bool" where
  "ascii_plain c \<longleftrightarrow> plain_char c \<and> (of_char c :: nat) < 128"

lemma unquote_ascii: "list_all ascii_plain b \<Longrightarrow> unquote b = b"
proof (induction b)
  case (Cons c b)
  then show ?case by (subst unquote.simps) (simp add: ascii_plain_def plain_char_def)
qed (simp add: unquote.simps)

lemma reads_ascii: "list_all ascii_plain b \<Longrightarrow> reads_body b"
  by (rule reads_body_plain) (simp add: list_all_iff ascii_plain_def)

lemma digit_ascii: "is_digit c \<Longrightarrow> ascii_plain c"
  by (auto simp: ascii_plain_def plain_char_def is_digit_def)

section \<open>Structures\<close>

text \<open>The field that a key selects: the one of that name, or else the first whose name is the same up to case.
  Folding takes each rune to the least one it is equal to; beside the letters, the Kelvin sign and the
  long s fold to ASCII.\<close>

definition fold_rune :: "string \<Rightarrow> string" where
  "fold_rune r =
     (case r of
        [c] \<Rightarrow> let b = (of_char c :: nat) in if 97 \<le> b \<and> b \<le> 122 then [char_of (b - 32)] else [c]
      | _ \<Rightarrow> if r = [CHR 0xE2, CHR 0x84, CHR 0xAA] then ''K'' else if r = [CHR 0xC5, CHR 0xBF] then ''S'' else r)"

definition fold_name :: "string \<Rightarrow> string" where
  "fold_name s = concat (map fold_rune (runes s))"

definition find_field :: "(string \<times> 'a) list \<Rightarrow> string \<Rightarrow> 'a option" where
  "find_field fs k =
     (case map_of fs k of
        Some f \<Rightarrow> Some f
      | None \<Rightarrow> map_of (map (\<lambda>(n, f). (fold_name n, f)) fs) (fold_name k))"

text \<open>Member by member, in the order of the text; an unknown key is skipped.\<close>

fun set_members :: "(string \<times> (jvalue \<Rightarrow> 'r \<Rightarrow> 'r option)) list \<Rightarrow> (string \<times> jvalue) list \<Rightarrow> 'r \<Rightarrow> 'r option" where
  "set_members fs [] r = Some r"
| "set_members fs ((k, v) # kvs) r =
     (case find_field fs (unquote k) of
        None \<Rightarrow> set_members fs kvs r
      | Some set_field \<Rightarrow> (case set_field v r of None \<Rightarrow> None | Some r' \<Rightarrow> set_members fs kvs r'))"

definition set_struct :: "(string \<times> (jvalue \<Rightarrow> 'r \<Rightarrow> 'r option)) list \<Rightarrow> jvalue \<Rightarrow> 'r \<Rightarrow> 'r option" where
  "set_struct fs v r = (case v of JNull \<Rightarrow> Some r | JObject kvs \<Rightarrow> set_members fs kvs r | _ \<Rightarrow> None)"

text \<open>\<^verbatim>\<open>json.Unmarshal\<close> into a structure: the whole text is checked first.\<close>

definition json_Unmarshal :: "(string \<times> (jvalue \<Rightarrow> 'r \<Rightarrow> 'r option)) list \<Rightarrow> string \<Rightarrow> 'r \<Rightarrow> 'r option" where
  "json_Unmarshal fs text r = (case json_text text of None \<Rightarrow> None | Some v \<Rightarrow> set_struct fs v r)"

text \<open>Scalar fields: \<^verbatim>\<open>null\<close> leaves a field as it is, any other value of the wrong type is an error.\<close>

definition as_string :: "jvalue \<Rightarrow> string \<Rightarrow> string option" where
  "as_string v old = (case v of JString b \<Rightarrow> Some (unquote b) | JNull \<Rightarrow> Some old | _ \<Rightarrow> None)"

definition as_int64 :: "jvalue \<Rightarrow> int \<Rightarrow> int option" where
  "as_int64 v old = (case v of JNumber l \<Rightarrow> ParseInt64 l | JNull \<Rightarrow> Some old | _ \<Rightarrow> None)"

definition ParseUint64 :: "string \<Rightarrow> 64 word option" where
  "ParseUint64 s =
     (if s = [] \<or> \<not> list_all is_digit s \<or> 2 ^ 64 \<le> digits_val s then None else Some (of_nat (digits_val s)))"

definition as_uint64 :: "jvalue \<Rightarrow> 64 word \<Rightarrow> 64 word option" where
  "as_uint64 v old = (case v of JNumber l \<Rightarrow> ParseUint64 l | JNull \<Rightarrow> Some old | _ \<Rightarrow> None)"

lemma ParseInt_AppendInt:
  assumes "- (2 ^ (b - 1)) \<le> k" "k < 2 ^ (b - 1)"
  shows "ParseInt b (AppendInt k) = Some k"
proof (cases "k < 0")
  case True
  then show ?thesis using assms dec_digits_digits[of "nat (- k)"] by (simp add: ParseInt_def AppendInt_def)
next
  case False
  then show ?thesis using assms ParseInt_dec_digits[of "nat k" b] by (simp add: AppendInt_def)
qed

lemma ParseUint64_dec: "ParseUint64 (AppendInt (uint w)) = Some w"
proof -
  have "unat w < 2 ^ 64" using unsigned_less[of w, where ?'a = nat] by simp
  then show ?thesis using dec_digits_digits[of "unat w"] by (simp add: ParseUint64_def AppendInt_def)
qed

definition int64 :: "int \<Rightarrow> bool" where
  "int64 k \<longleftrightarrow> - (2 ^ 63) \<le> k \<and> k < 2 ^ 63"

lemma as_int64_print: "int64 k \<Longrightarrow> as_int64 (JNumber (AppendInt k)) old = Some k"
  using ParseInt_AppendInt[of 64 k] by (simp add: as_int64_def int64_def)

lemma as_string_quote: "as_string (JString (quote_body html s)) old = Some (json_string s)"
  using quote_body_reads[of html s] by (simp add: as_string_def)

lemma reads_quote: "reads d (quote html s) (JString (quote_body html s))"
  unfolding quote_def by (rule reads_string[OF reads_body_quote])

text \<open>A member with a known key, and one that is left out when it is empty.\<close>

definition omitempty :: "bool \<Rightarrow> string \<Rightarrow> 'a \<Rightarrow> (string \<times> 'a) list" where
  "omitempty is_empty k v = (if is_empty then [] else [(k, v)])"

lemma set_member:
  assumes "unquote k = k" "find_field fs k = Some f" "f v r = Some r'"
  shows "set_members fs ((k, v) # rest) r = set_members fs rest r'"
  using assms by simp

lemma set_omitted:
  assumes "unquote k = k" "find_field fs k = Some f" "\<not> b \<Longrightarrow> f v r = Some r'" "b \<Longrightarrow> r' = r"
  shows "set_members fs (omitempty b k v @ rest) r = set_members fs rest r'"
  using assms by (cases b) (simp_all add: omitempty_def)

end
