(* ===== verification/Offset_Store.thy ===== *)
theory Offset_Store
  imports File_Run JSON_Texts Spool Security_Paths
begin

text \<open>
  \<^verbatim>\<open>src/internal/source/offset.go\<close>: the store of read positions, one JSON file per source, replaced by writing
  a temporary file, syncing and renaming it. The disk is the association list of \<open>Spool\<close>, keyed by full
  path, with the same record of failing calls. \<open>store_Save\<close> returns every state the disk goes through, so that a
  crash between two calls, or in the middle of a write, is one of them. Together with the file tailer this gives
  the delivery guarantee across crashes.
\<close>

section \<open>Operations\<close>

record OffsetStore =
  os_dir :: string

definition NewOffsetStore :: "string \<Rightarrow> OffsetStore" where
  "NewOffsetStore dir = \<lparr>os_dir = dir\<rparr>"

text \<open>\<^verbatim>\<open>filepath.Join\<close> of a directory and a non-empty name.\<close>

definition Join :: "string \<Rightarrow> string \<Rightarrow> string" where
  "Join dir n = (if dir = [] then Clean n else Clean (dir @ slash # n))"

definition offset_path :: "OffsetStore \<Rightarrow> string \<Rightarrow> string" where
  "offset_path s sourceName = Join (os_dir s) (sourceName @ ''.offset'')"

text \<open>The JSON form, with the default HTML escapes of \<^verbatim>\<open>json.Marshal\<close>.\<close>

definition offset_json :: "Offset \<Rightarrow> bytes" where
  "offset_json off =
     member_list [(''path'', quote True (off_Path off)), (''offset'', AppendInt (off_Offset off)),
       (''inode'', AppendInt (uint (off_Inode off)))]"

definition offset_fields :: "(string \<times> (jvalue \<Rightarrow> Offset \<Rightarrow> Offset option)) list" where
  "offset_fields =
     [(''path'', \<lambda>v off. map_option (\<lambda>x. off\<lparr>off_Path := x\<rparr>) (as_string v (off_Path off))),
      (''offset'', \<lambda>v off. map_option (\<lambda>x. off\<lparr>off_Offset := x\<rparr>) (as_int64 v (off_Offset off))),
      (''inode'', \<lambda>v off. map_option (\<lambda>x. off\<lparr>off_Inode := x\<rparr>) (as_uint64 v (off_Inode off)))]"

definition store_Load :: "faults \<Rightarrow> OffsetStore \<Rightarrow> string \<Rightarrow> dirfs \<Rightarrow> (string, Offset) result" where
  "store_Load flt s sourceName fs =
     (let p = offset_path s sourceName in
      if f_read flt p \<or> map_of fs p = Some Dir then Inl ''offset load''
      else case map_of fs p of
        Some (File b) \<Rightarrow>
          (case json_Unmarshal offset_fields b zero_offset of
             None \<Rightarrow> Inl ''offset parse''
           | Some off \<Rightarrow> Inr off)
      | _ \<Rightarrow> Inr zero_offset)"

text \<open>The states of the disk while a file \<open>tmp\<close> is created and written, byte by byte.\<close>

definition writing :: "string \<Rightarrow> bytes \<Rightarrow> dirfs \<Rightarrow> dirfs list" where
  "writing tmp written fs = fs # map (\<lambda>k. AList.update tmp (File (take k written)) fs) [0..<Suc (length written)]"

definition store_Save :: "faults \<Rightarrow> OffsetStore \<Rightarrow> string \<Rightarrow> Offset \<Rightarrow> dirfs \<Rightarrow> (string, unit) result \<times> dirfs list" where
  "store_Save flt s sourceName off fs =
     (let final = offset_path s sourceName;
          tmp = final @ ''.tmp'';
          body = offset_json off;
          removed = (\<lambda>tr. tr @ [snd (os_Remove flt tmp (last tr))])
      in if f_open flt \<or> map_of fs tmp = Some Dir then (Inl ''offset open tmp'', [fs])
      else case f_write flt of
        Some k \<Rightarrow> (Inl ''offset write'', removed (writing tmp (take k body) fs))
      | None \<Rightarrow>
          let tr = writing tmp body fs in
          if f_sync flt then (Inl ''offset fsync'', removed tr)
          else if f_close flt then (Inl ''offset close'', removed tr)
          else if f_rename flt \<or> map_of fs final = Some Dir then (Inl ''offset rename'', removed tr)
          else (Inr (), tr @ [AList.update final (File body) (AList.delete tmp (last tr))]))"

section \<open>Paths\<close>

lemma split_on_append_free:
  "c \<notin> set b \<Longrightarrow> split_on c (a @ b) = butlast (split_on c a) @ [last (split_on c a) @ b]"
  by (induction a) (auto simp: split_on_single split: list.splits)

lemma clean_ends:
  assumes "seg \<noteq> []" "seg \<noteq> ''.''" "seg \<noteq> ''..''"
  shows "foldl (clean_step r) acc (segs @ [seg]) = seg # foldl (clean_step r) acc segs"
  using assms by (simp add: clean_step_def)

lemma join_with_snoc: "join_with c (xs @ [x]) = join_with c xs @ c # x"
  by (simp add: join_with_def)

lemma Clean_ends:
  assumes "clean_segs p = segs @ [seg]"
  shows "\<exists>pre. Clean p = pre @ seg"
proof (cases "IsAbs p")
  case True
  then show ?thesis using assms by (intro exI[of _ "join_with slash segs @ [slash]"]) (simp add: Clean_def join_with_def)
next
  case False
  have "tl (join_with slash (segs @ [seg])) = tl (join_with slash segs @ [slash]) @ seg"
    by (simp add: join_with_def tl_append split: list.split)
  then show ?thesis using assms False by (auto simp: Clean_def)
qed

lemma offset_segs: "\<exists>segs w. clean_segs (p @ ''.offset'') = segs @ [w @ ''.offset'']"
proof -
  have f: "slash \<notin> set ''.offset''" by simp
  have "clean_segs (p @ ''.offset'')
    = rev (foldl (clean_step (IsAbs (p @ ''.offset''))) [] (butlast (split_on slash p) @ [last (split_on slash p) @ ''.offset'']))"
    unfolding clean_segs_def split_on_append_free[OF f] ..
  also have "\<dots> = rev (foldl (clean_step (IsAbs (p @ ''.offset''))) [] (butlast (split_on slash p))) @ [last (split_on slash p) @ ''.offset'']"
    by (subst clean_ends) auto
  finally show ?thesis by blast
qed

lemma offset_path_ends: "\<exists>pre. offset_path s n = pre @ ''.offset''"
proof -
  have "\<exists>p. offset_path s n = Clean (p @ ''.offset'')"
    unfolding offset_path_def Join_def by (cases "os_dir s = []") (auto intro: exI[of _ n] exI[of _ "os_dir s @ slash # n"])
  then obtain p where p: "offset_path s n = Clean (p @ ''.offset'')" by blast
  obtain segs w where "clean_segs (p @ ''.offset'') = segs @ [w @ ''.offset'']" using offset_segs by blast
  then obtain pre where "Clean (p @ ''.offset'') = pre @ w @ ''.offset''" using Clean_ends by blast
  then show ?thesis using p by (intro exI[of _ "pre @ w"]) simp
qed

text \<open>A temporary file is never the file of another source.\<close>

lemma tmp_not_final: "offset_path s n @ ''.tmp'' \<noteq> offset_path s m"
proof -
  obtain a b where ab: "offset_path s n = a @ ''.offset''" "offset_path s m = b @ ''.offset''" using offset_path_ends by metis
  have "last ((a @ ''.offset'') @ ''.tmp'') \<noteq> last (b @ ''.offset'')" by simp
  then show ?thesis unfolding ab by metis
qed

section \<open>The JSON form\<close>

lemma offset_keys: "\<forall>k\<in>{''path'', ''offset'', ''inode''}. unquote k = k \<and> reads_body k"
proof -
  have "list_all ascii_plain ''path''" "list_all ascii_plain ''offset''" "list_all ascii_plain ''inode''" by code_simp+
  then show ?thesis using unquote_ascii reads_ascii by blast
qed

lemma offset_text:
  "json_text (offset_json off) =
     Some (JObject [(''path'', JString (quote_body True (off_Path off))),
       (''offset'', JNumber (AppendInt (off_Offset off))), (''inode'', JNumber (AppendInt (uint (off_Inode off))))])"
proof -
  have "reads (Suc 9999) (offset_json off)
    (JObject [(''path'', JString (quote_body True (off_Path off))),
       (''offset'', JNumber (AppendInt (off_Offset off))), (''inode'', JNumber (AppendInt (uint (off_Inode off))))])"
    unfolding offset_json_def using offset_keys by (intro reads_member_list) (simp_all add: reads_quote reads_int)
  then show ?thesis by (intro json_text_reads) simp
qed

lemma offset_unmarshal:
  assumes "int64 (off_Offset off)"
  shows "json_Unmarshal offset_fields (offset_json off) z = Some (off\<lparr>off_Path := json_string (off_Path off)\<rparr>)"
proof -
  have f: "find_field offset_fields ''path'' = Some (\<lambda>v off. map_option (\<lambda>x. off\<lparr>off_Path := x\<rparr>) (as_string v (off_Path off)))"
    "find_field offset_fields ''offset'' = Some (\<lambda>v off. map_option (\<lambda>x. off\<lparr>off_Offset := x\<rparr>) (as_int64 v (off_Offset off)))"
    "find_field offset_fields ''inode'' = Some (\<lambda>v off. map_option (\<lambda>x. off\<lparr>off_Inode := x\<rparr>) (as_uint64 v (off_Inode off)))"
    by (simp_all add: find_field_def offset_fields_def)
  have k: "unquote ''path'' = ''path''" "unquote ''offset'' = ''offset''" "unquote ''inode'' = ''inode''"
    using offset_keys by simp_all
  show ?thesis
    by (simp add: json_Unmarshal_def offset_text set_struct_def f k as_string_quote as_int64_print[OF assms] as_uint64_def
        ParseUint64_dec)
qed

section \<open>Atomic replacement\<close>

text \<open>Two disks on which every source finds the same.\<close>

lemma load_cong:
  "map_of fs (offset_path s n) = map_of fs' (offset_path s n) \<Longrightarrow> store_Load flt s n fs = store_Load flt s n fs'"
  by (simp add: store_Load_def Let_def)

lemma map_of_remove: "x \<noteq> y \<Longrightarrow> map_of (snd (os_Remove flt x fs)) y = map_of fs y"
  by (simp add: os_Remove_def delete_conv')

lemma writing_keeps:
  "g \<in> set (writing tmp b fs) \<Longrightarrow> x \<noteq> tmp \<Longrightarrow> map_of g x = map_of fs x"
  by (auto simp: writing_def simp del: upt_Suc)

lemma writing_ne [simp]: "writing tmp b fs \<noteq> []"
  by (simp add: writing_def)

definition same_offsets :: "OffsetStore \<Rightarrow> dirfs \<Rightarrow> dirfs \<Rightarrow> bool" where
  "same_offsets s fs g \<longleftrightarrow> (\<forall>m. map_of g (offset_path s m) = map_of fs (offset_path s m))"

lemma same_refl [simp]: "same_offsets s fs fs"
  by (simp add: same_offsets_def)

lemma same_writing: "g \<in> set (writing (offset_path s n @ ''.tmp'') b fs) \<Longrightarrow> same_offsets s fs g"
  using writing_keeps tmp_not_final unfolding same_offsets_def by metis

lemma same_removed:
  "same_offsets s fs g \<Longrightarrow> same_offsets s fs (snd (os_Remove flt (offset_path s n @ ''.tmp'') g))"
  unfolding same_offsets_def using map_of_remove tmp_not_final by metis

lemma same_trace:
  assumes "g \<in> set (writing (offset_path s n @ ''.tmp'') b fs
    @ [snd (os_Remove flt (offset_path s n @ ''.tmp'') (last (writing (offset_path s n @ ''.tmp'') b fs)))])"
  shows "same_offsets s fs g"
  using assms same_writing[of _ s n b fs] same_removed[OF same_writing[OF last_in_set[OF writing_ne]]] by auto

text \<open>Every way a save can end.\<close>

lemma Save_cases:
  assumes "store_Save flt s n off fs = (r, tr)"
  obtains (open_failed) "tr = [fs]" "r \<noteq> Inr ()"
  | (failed) b where "r \<noteq> Inr ()" "tr = writing (offset_path s n @ ''.tmp'') b fs
      @ [snd (os_Remove flt (offset_path s n @ ''.tmp'') (last (writing (offset_path s n @ ''.tmp'') b fs)))]"
  | (saved) b where "r = Inr ()" "tr = writing (offset_path s n @ ''.tmp'') b fs
      @ [AList.update (offset_path s n) (File (offset_json off))
          (AList.delete (offset_path s n @ ''.tmp'') (last (writing (offset_path s n @ ''.tmp'') b fs)))]"
proof -
  let ?final = "offset_path s n"
  let ?tmp = "?final @ ''.tmp''"
  note S = assms[symmetric, unfolded store_Save_def Let_def]
  consider "f_open flt \<or> map_of fs ?tmp = Some Dir"
    | k where "\<not> (f_open flt \<or> map_of fs ?tmp = Some Dir)" "f_write flt = Some k"
    | "\<not> (f_open flt \<or> map_of fs ?tmp = Some Dir)" "f_write flt = None" "f_sync flt"
    | "\<not> (f_open flt \<or> map_of fs ?tmp = Some Dir)" "f_write flt = None" "\<not> f_sync flt" "f_close flt"
    | "\<not> (f_open flt \<or> map_of fs ?tmp = Some Dir)" "f_write flt = None" "\<not> f_sync flt" "\<not> f_close flt"
      "f_rename flt \<or> map_of fs ?final = Some Dir"
    | "\<not> (f_open flt \<or> map_of fs ?tmp = Some Dir)" "f_write flt = None" "\<not> f_sync flt" "\<not> f_close flt"
      "\<not> (f_rename flt \<or> map_of fs ?final = Some Dir)" by (cases "f_write flt") blast+
  then show ?thesis
  proof cases
    case 1
    show ?thesis by (rule open_failed) (use S 1 in simp_all)
  next
    case 2
    show ?thesis by (rule failed[of "take k (offset_json off)"]) (use S 2 in simp_all)
  next
    case 3
    show ?thesis by (rule failed[of "offset_json off"]) (use S 3 in simp_all)
  next
    case 4
    show ?thesis by (rule failed[of "offset_json off"]) (use S 4 in simp_all)
  next
    case 5
    show ?thesis by (rule failed[of "offset_json off"]) (use S 5 in simp_all)
  next
    case 6
    show ?thesis by (rule saved[of "offset_json off"]) (use S 6 in simp_all)
  qed
qed

lemma Save_ok:
  assumes "store_Save flt s n off fs = (Inr (), tr)"
  shows "map_of (last tr) (offset_path s n) = Some (File (offset_json off))"
  using assms by (cases rule: Save_cases) auto

lemma Save_states:
  assumes "store_Save flt s n off fs = (r, tr)" "g \<in> set tr" "\<not> (r = Inr () \<and> g = last tr)"
  shows "same_offsets s fs g"
  using assms(1)
proof (cases rule: Save_cases)
  case open_failed
  then show ?thesis using assms(2) by simp
next
  case (failed b)
  then show ?thesis using assms(2) same_trace by blast
next
  case (saved b)
  then show ?thesis using assms(2,3) same_writing by auto
qed

text \<open>The other sources keep their positions in every case.\<close>

lemma Save_others:
  assumes "store_Save flt s n off fs = (r, tr)" "g \<in> set tr" "offset_path s m \<noteq> offset_path s n"
  shows "map_of g (offset_path s m) = map_of fs (offset_path s m)"
proof (cases "r = Inr () \<and> g = last tr")
  case False
  then show ?thesis using Save_states[OF assms(1,2)] by (simp add: same_offsets_def)
next
  case True
  have "r = Inr ()" using True by simp
  from assms(1) show ?thesis
  proof (cases rule: Save_cases)
    case (saved b)
    let ?w = "writing (offset_path s n @ ''.tmp'') b fs"
    have "same_offsets s fs (last ?w)" using same_writing[OF last_in_set[OF writing_ne]] .
    then show ?thesis using saved(2) True assms(3) tmp_not_final[of s n m] by (simp add: same_offsets_def delete_conv')
  qed (use \<open>r = Inr ()\<close> in simp_all)
qed

lemma Load_saved:
  assumes "map_of g (offset_path s n) = Some (File (offset_json off))" "int64 (off_Offset off)" "\<not> f_read flt (offset_path s n)"
  shows "store_Load flt s n g = Inr (off\<lparr>off_Path := json_string (off_Path off)\<rparr>)"
  using assms offset_unmarshal[OF assms(2)] by (simp add: store_Load_def)

lemma Save_or_old:
  assumes "store_Save flt s n off fs = (r, tr)" "g \<in> set tr"
  shows "store_Load rd s m g = store_Load rd s m fs
    \<or> r = Inr () \<and> g = last tr \<and> offset_path s m = offset_path s n"
  using Save_states[OF assms] Save_others[OF assms, of m] load_cong[of g s m fs rd] unfolding same_offsets_def by blast

section \<open>The contract of a position store\<close>

text \<open>What the tailer relies on: every state of the disk during a save loads like before, except for the last one of a save
  that succeeds, and that one loads the position that was saved.\<close>

locale position_store =
  fixes load :: "'d \<Rightarrow> ('e, 'v) result"
    and save :: "'f \<Rightarrow> 'v \<Rightarrow> 'd \<Rightarrow> ('e, unit) result \<times> 'd list"
    and stored_as :: "'v \<Rightarrow> 'v"
    and savable :: "'v \<Rightarrow> bool"
  assumes save_states: "save flt v d = (r, tr) \<Longrightarrow> g \<in> set tr \<Longrightarrow> load g = load d \<or> r = Inr () \<and> g = last tr"
    and save_loads: "save flt v d = (Inr (), tr) \<Longrightarrow> savable v \<Longrightarrow> load (last tr) = Inr (stored_as v)"
begin

lemma save_old_or_new:
  assumes "save flt v d = (r, tr)" "g \<in> set tr" "savable v"
  shows "load g = load d \<or> load g = Inr (stored_as v)"
proof -
  have "load g = load d \<or> r = Inr () \<and> g = last tr" by (rule save_states[OF assms(1,2)])
  then show ?thesis using save_loads[of flt v d tr] assms(1,3) by auto
qed

end

text \<open>A run of saves, each of them interrupted anywhere.\<close>

inductive saves :: "('f \<Rightarrow> 'v \<Rightarrow> 'd \<Rightarrow> ('e, unit) result \<times> 'd list) \<Rightarrow> 'd \<Rightarrow> 'v list \<Rightarrow> 'd \<Rightarrow> bool" for save d where
  none: "saves save d [] d"
| one_more: "saves save d vs g \<Longrightarrow> save flt v g = (r, tr) \<Longrightarrow> g' \<in> set tr \<Longrightarrow> saves save d (vs @ [v]) g'"

context position_store
begin

lemma saves_survive:
  "saves save d vs g \<Longrightarrow> \<forall>v\<in>set vs. savable v \<Longrightarrow> load g = load d \<or> load g \<in> Inr ` stored_as ` set vs"
proof (induction rule: saves.induct)
  case (one_more vs g flt v r tr g')
  have "load g' = load g \<or> load g' = Inr (stored_as v)"
    using save_old_or_new[OF one_more.hyps(2,3)] one_more.prems by simp
  then show ?case using one_more.IH one_more.prems by auto
qed simp

end

interpretation offs: position_store "store_Load rd st n" "\<lambda>flt. store_Save flt st n"
    "\<lambda>off. off\<lparr>off_Path := json_string (off_Path off)\<rparr>" "\<lambda>off. int64 (off_Offset off) \<and> \<not> f_read rd (offset_path st n)" for rd st n
proof unfold_locales
  fix flt off fs r tr g
  assume "store_Save flt st n off fs = (r, tr)" "g \<in> set tr"
  from Save_or_old[OF this, of rd n]
  show "store_Load rd st n g = store_Load rd st n fs \<or> r = Inr () \<and> g = last tr" by blast
next
  fix flt off fs tr
  assume "store_Save flt st n off fs = (Inr (), tr)" "int64 (off_Offset off) \<and> \<not> f_read rd (offset_path st n)"
  then show "store_Load rd st n (last tr) = Inr (off\<lparr>off_Path := json_string (off_Path off)\<rparr>)"
    using Load_saved[OF Save_ok] by blast
qed

text \<open>After any number of saves, each of them failing or interrupted anywhere, the position that is loaded is the one before
  them or one of those that were saved: never a mixture, and never a parse error.\<close>

theorem positions_survive:
  assumes "saves (\<lambda>flt. store_Save flt st n) fs offs g" "\<forall>off\<in>set offs. int64 (off_Offset off)" "\<not> f_read rd (offset_path st n)"
  shows "store_Load rd st n g = store_Load rd st n fs
    \<or> (\<exists>off\<in>set offs. store_Load rd st n g = Inr (off\<lparr>off_Path := json_string (off_Path off)\<rparr>))"
  using offs.saves_survive[OF assms(1), of rd] assms(2,3) by auto

text \<open>C15. A position is replaced atomically: whichever call fails during a save, and wherever a crash interrupts it,
  every source that is loaded afterwards gets what it would have got before the save, except that the
  saved source gets the new position once the save has succeeded; and a save in which no call fails
  does succeed, whatever bytes the path of the file consists of.\<close>

theorem offset_atomic:
  assumes "store_Save flt s n off fs = (r, tr)" "int64 (off_Offset off)"
  shows "(\<forall>g\<in>set tr. \<forall>m. store_Load rd s m g = store_Load rd s m fs
        \<or> r = Inr () \<and> g = last tr \<and> offset_path s m = offset_path s n)
    \<and> (r = Inr () \<and> \<not> f_read rd (offset_path s n)
        \<longrightarrow> store_Load rd s n (last tr) = Inr (off\<lparr>off_Path := json_string (off_Path off)\<rparr>))
    \<and> (flt = no_faults \<and> Dir \<notin> snd ` set fs \<longrightarrow> r = Inr ())
    \<and> (ValidString (off_Path off) \<longrightarrow> off\<lparr>off_Path := json_string (off_Path off)\<rparr> = off)"
proof (intro conjI impI)
  show "\<forall>g\<in>set tr. \<forall>m. store_Load rd s m g = store_Load rd s m fs
      \<or> r = Inr () \<and> g = last tr \<and> offset_path s m = offset_path s n"
    using Save_or_old[OF assms(1)] by blast
  show "store_Load rd s n (last tr) = Inr (off\<lparr>off_Path := json_string (off_Path off)\<rparr>)"
    if "r = Inr () \<and> \<not> f_read rd (offset_path s n)"
    using that Save_ok[of flt s n off fs tr] Load_saved[OF _ assms(2)] assms(1) by blast
  show "r = Inr ()" if "flt = no_faults \<and> Dir \<notin> snd ` set fs"
  proof -
    have "map_of fs p \<noteq> Some Dir" for p using that map_of_SomeD[of fs p Dir] by force
    then show ?thesis using that assms(1) by (auto simp: store_Save_def no_faults_def Let_def)
  qed
  show "off\<lparr>off_Path := json_string (off_Path off)\<rparr> = off" if "ValidString (off_Path off)"
    using json_string_valid[OF that] by simp
qed

definition example_store :: OffsetStore where
  "example_store = \<lparr>os_dir = ''/var/lib/blackboxd''\<rparr>"

definition example_offset :: Offset where
  "example_offset = \<lparr>off_Path = ''/var/log/<a>'', off_Offset = 123456, off_Inode = 17\<rparr>"

theorem offset_atomic_witness:
  "\<exists>tr. store_Save no_faults example_store ''sys'' example_offset [] = (Inr (), tr)
    \<and> store_Load no_faults example_store ''sys'' (last tr) = Inr example_offset
    \<and> store_Load no_faults example_store ''sys'' (hd tr) = Inr zero_offset"
proof -
  obtain r tr where s: "store_Save no_faults example_store ''sys'' example_offset [] = (r, tr)" by (rule prod.exhaust)
  have i: "int64 (off_Offset example_offset)" "ValidString (off_Path example_offset)" by code_simp+
  have f: "\<not> f_read no_faults (offset_path example_store ''sys'')" by (simp add: no_faults_def)
  note a = offset_atomic[OF s i(1), of no_faults]
  have r: "r = Inr ()" using a by simp
  have l: "store_Load no_faults example_store ''sys'' (last tr) = Inr example_offset" using a i(2) f r by simp
  have h: "hd tr = []" using s
    by (cases rule: Save_cases) (simp_all add: writing_def)
  have "store_Load no_faults example_store ''sys'' [] = Inr zero_offset"
    by (simp add: store_Load_def no_faults_def Let_def)
  then show ?thesis using s r l h by (intro exI[of _ tr]) simp
qed

section \<open>Delivery across a crash\<close>











end
