(* ===== verification/Go_Calendar.thy ===== *)
theory Go_Calendar
  imports Go_Time
begin

text \<open>
  The calendar in the other direction: the date of an instant, its RFC 3339 text with nanoseconds, and the JSON
  form of a \<^verbatim>\<open>time.Time\<close>. An instant does not carry its display location; the offset of that location, in
  seconds, is an argument. A printed time is read back as the same instant.
\<close>

section \<open>Dates\<close>

text \<open>The year of a day and its number in that year, both counted from 1 January of year 1 (day 0).\<close>

definition year_day :: "int \<Rightarrow> int \<times> int" where
  "year_day d =
     (let n400 = d div 146097; d1 = d mod 146097;
          n100 = min 3 (d1 div 36524); d2 = d1 - n100 * 36524;
          n4 = d2 div 1461; d3 = d2 mod 1461;
          n1 = min 3 (d3 div 365)
      in (400 * n400 + 100 * n100 + 4 * n4 + n1 + 1, d3 - 365 * n1))"

definition month_day :: "bool \<Rightarrow> int \<Rightarrow> int \<times> int" where
  "month_day leap yd =
     (let f = (if leap then 1 else 0) in
      if yd < 31 then (1, yd + 1)
      else if yd < 59 + f then (2, yd - 30)
      else if yd < 90 + f then (3, yd - 58 - f)
      else if yd < 120 + f then (4, yd - 89 - f)
      else if yd < 151 + f then (5, yd - 119 - f)
      else if yd < 181 + f then (6, yd - 150 - f)
      else if yd < 212 + f then (7, yd - 180 - f)
      else if yd < 243 + f then (8, yd - 211 - f)
      else if yd < 273 + f then (9, yd - 242 - f)
      else if yd < 304 + f then (10, yd - 272 - f)
      else if yd < 334 + f then (11, yd - 303 - f)
      else (12, yd - 333 - f))"

text \<open>The last of four units may be one day longer.\<close>

lemma min3_div:
  fixes x k q :: int
  assumes "0 < k" "0 \<le> x" "x \<le> 4 * k" "q = min 3 (x div k)"
  shows "0 \<le> q \<and> q \<le> 3 \<and> 0 \<le> x - q * k \<and> (q < 3 \<longrightarrow> x - q * k < k) \<and> x - q * k \<le> k"
proof (cases "x div k < 3")
  case True
  then have q: "q = x div k" using assms(4) by simp
  have "x - q * k = x mod k" unfolding q by (simp add: minus_div_mult_eq_mod)
  then show ?thesis using assms(1,2) True q pos_mod_bound[of k x] less_imp_le[OF pos_mod_bound[of k x]] by (simp add: pos_imp_zdiv_nonneg_iff)
next
  case False
  then have q: "q = 3" using assms(4) by simp
  have "3 * k \<le> x div k * k" using False assms(1) by (intro mult_right_mono) simp_all
  also have "\<dots> \<le> x" using assms(1) by (metis div_mult_mod_eq le_add_same_cancel1 pos_mod_sign)
  finally show ?thesis using q assms(3) by simp
qed

lemma year_day_exact:
  assumes "year_day d = (y, yd)"
  shows "days_before_year y + yd = d \<and> 0 \<le> yd \<and> yd < 365 + (if isLeap y then 1 else 0)"
proof -
  define a where "a = d div 146097"
  define d1 where "d1 = d mod 146097"
  define b where "b = min 3 (d1 div 36524)"
  define d2 where "d2 = d1 - b * 36524"
  define c where "c = d2 div 1461"
  define d3 where "d3 = d2 mod 1461"
  define e where "e = min 3 (d3 div 365)"
  have y: "y = 400 * a + 100 * b + 4 * c + e + 1" "yd = d3 - 365 * e"
    using assms unfolding year_day_def Let_def a_def[symmetric] d1_def[symmetric] b_def[symmetric] d2_def[symmetric]
      c_def[symmetric] d3_def[symmetric] e_def[symmetric] by simp_all
  have 1: "d = 146097 * a + d1" "0 \<le> d1" "d1 < 146097" by (simp_all add: a_def d1_def)
  have "d1 \<le> 4 * 36524" using 1(3) by simp
  from min3_div[OF _ 1(2) this b_def] have 2: "0 \<le> b" "b \<le> 3" "0 \<le> d2" "b < 3 \<Longrightarrow> d2 < 36524" "d2 \<le> 36524"
    unfolding d2_def by simp_all
  have 3: "d2 = 1461 * c + d3" "0 \<le> d3" "d3 < 1461" "0 \<le> c" "c \<le> 24"
    unfolding c_def d3_def using 2(3) zdiv_mono1[OF 2(5), of 1461] by (simp_all add: pos_imp_zdiv_nonneg_iff)
  have "d3 \<le> 4 * 365" using 3(3) by simp
  from min3_div[OF _ 3(2) this e_def]
  have 4: "0 \<le> e" "e \<le> 3" "0 \<le> d3 - 365 * e" "e < 3 \<Longrightarrow> d3 - 365 * e < 365" "d3 - 365 * e \<le> 365"
    by (simp_all add: mult.commute)
  have 5: "d3 - 365 * e = 365 \<Longrightarrow> e = 3" using 4(4) 4(2) by linarith
  have div4: "(y - 1) div 4 = 100 * a + 25 * b + c"
    using y(1) 4(1,2) by (intro int_div_pos_eq[of _ _ _ e]) simp_all
  have div100: "(y - 1) div 100 = 4 * a + b"
    using y(1) 4(1,2) 3(4,5) by (intro int_div_pos_eq[of _ _ _ "4 * c + e"]) simp_all
  have div400: "(y - 1) div 400 = a"
    using y(1) 4(1,2) 3(4,5) 2(1,2) by (intro int_div_pos_eq[of _ _ _ "100 * b + 4 * c + e"]) simp_all
  have sum: "days_before_year y + yd = d"
    unfolding days_before_year_def div4 div100 div400 using y 1(1) 3(1) d2_def by (simp add: algebra_simps)
  have "yd < 365 + (if isLeap y then 1 else 0)"
  proof (cases "yd = 365")
    case True
    then have e: "e = 3" using 5 y(2) by simp
    then have d3: "d3 = 1460" using True y(2) by simp
    have c24: "c = 24 \<Longrightarrow> b = 3" using 2(2,4) 3(1) d3 by linarith
    have "y = 4 * (100 * a + 25 * b + c + 1)" using y(1) e by simp
    then have "y mod 4 = 0" by simp
    moreover have "y mod 100 \<noteq> 0 \<or> y mod 400 = 0"
    proof (cases "c = 24")
      case True
      then have "y = 400 * (a + 1)" using y(1) e c24 by simp
      then show ?thesis by simp
    next
      case False
      then have "0 < 4 * c + 4" "4 * c + 4 < 100" using 3(4,5) by linarith+
      moreover have "y = 100 * (4 * a + b) + (4 * c + 4)" using y(1) e by simp
      ultimately show ?thesis by (metis mod_mult_self4 mod_pos_pos_trivial less_imp_le less_irrefl)
    qed
    ultimately show ?thesis using True by (simp add: isLeap_def)
  next
    case False
    then show ?thesis using y(2) 4(5) by simp
  qed
  then show ?thesis using sum 4(3) y(2) by simp
qed

lemma month_day_exact:
  assumes "month_day (isLeap y) yd = (m, d)" "0 \<le> yd" "yd < 365 + (if isLeap y then 1 else 0)"
  shows "1 \<le> m \<and> m \<le> 12 \<and> 1 \<le> d \<and> d \<le> daysIn m y \<and> days_before_month m y + (d - 1) = yd"
  using assms
  by (auto simp: month_day_def Let_def daysIn_def days_before_month_def month_days_def split: if_splits)

section \<open>The RFC 3339 text\<close>

text \<open>\<^verbatim>\<open>.\<close> and the nanoseconds without trailing zeros, nothing for none.\<close>

definition frac_text :: "nat \<Rightarrow> string" where
  "frac_text ns = (if ns = 0 then [] else CHR ''.'' # rev (dropWhile (\<lambda>c. c = CHR ''0'') (rev (dec_pad 9 ns))))"

text \<open>The offset, whose seconds are dropped.\<close>

definition zone_text :: "int \<Rightarrow> string" where
  "zone_text z =
     (if z = 0 then ''Z''
      else let mi = go_div z 60; a = nat \<bar>mi\<bar>
        in (if mi < 0 then CHR ''-'' else CHR ''+'') # pad2 (a div 60) @ CHR '':'' # pad2 (a mod 60))"

definition Format_RFC3339Nano :: "int \<Rightarrow> instant \<Rightarrow> int \<times> string" where
  "Format_RFC3339Nano z t =
     (let sec = t div 1000000000 + z; ns = nat (t mod 1000000000); s = sec mod 86400;
          (y, yd) = year_day (sec div 86400); (m, d) = month_day (isLeap y) yd
      in (y, dec_pad 4 (nat y) @ CHR ''-'' # pad2 (nat m) @ CHR ''-'' # pad2 (nat d) @ CHR ''T'' # pad2 (nat (s div 3600))
             @ CHR '':'' # pad2 (nat (s div 60 mod 60)) @ CHR '':'' # pad2 (nat (s mod 60)) @ frac_text ns @ zone_text z))"

text \<open>\<^verbatim>\<open>Time.MarshalJSON\<close>: the year has four digits and the zone less than 24 hours.\<close>

definition time_MarshalJSON :: "int \<Rightarrow> instant \<Rightarrow> string option" where
  "time_MarshalJSON z t =
     (case Format_RFC3339Nano z t of
        (y, txt) \<Rightarrow> if y < 0 \<or> 9999 < y \<or> 24 \<le> \<bar>z\<bar> div 3600 then None else Some (CHR 0x22 # txt @ [CHR 0x22]))"

section \<open>Reading it back\<close>

lemma digits_val_zeros: "digits_val (ds @ replicate k (CHR ''0'')) = digits_val ds * 10 ^ k"
proof (induction k)
  case (Suc k)
  have z: "digit_val (CHR ''0'') = 0" by code_simp
  have "ds @ replicate (Suc k) (CHR ''0'') = (ds @ replicate k (CHR ''0'')) @ [CHR ''0'']"
    by (simp add: replicate_append_same)
  then show ?case using Suc by (simp only: digits_val_snoc z power_Suc)
qed simp

lemma digits_val_pad [simp]: "digits_val (dec_pad w n) = n"
proof -
  have z: "digit_val (CHR ''0'') = 0" by code_simp
  have "foldl (\<lambda>n c. n * 10 + digit_val c) 0 (replicate k (CHR ''0'') @ ds) = foldl (\<lambda>n c. n * 10 + digit_val c) 0 ds" for k ds
    by (induction k) (simp_all add: z)
  then show ?thesis using digits_val_dec_digits[of n] unfolding digits_val_def dec_pad_def by simp
qed

lemma dec_pad_digits: "list_all is_digit (dec_pad w n)"
proof -
  have "is_digit (CHR ''0'')" by code_simp
  then show ?thesis using dec_digits_digits[of n] by (auto simp: dec_pad_def list_all_iff)
qed

lemma frac_text_shape:
  assumes "0 < ns" "ns < 1000000000"
  obtains ds where "frac_text ns = CHR ''.'' # ds" "ds \<noteq> []" "list_all is_digit ds" "length ds \<le> 9"
    "digits_val ds * 10 ^ (9 - length ds) = ns"
proof -
  let ?p = "dec_pad 9 ns"
  define ds where "ds = rev (dropWhile (\<lambda>c. c = CHR ''0'') (rev ?p))"
  define k where "k = length (takeWhile (\<lambda>c. c = CHR ''0'') (rev ?p))"
  have l: "length ?p = 9" using dec_pad_length[of 9 ns] assms(2) by simp
  have "takeWhile (\<lambda>c. c = CHR ''0'') (rev ?p) = replicate k (CHR ''0'')"
    unfolding k_def by (intro replicate_eqI refl) (auto dest: set_takeWhileD)
  then have p: "?p = ds @ replicate k (CHR ''0'')"
    unfolding ds_def using takeWhile_dropWhile_id[of "\<lambda>c. c = CHR ''0''" "rev ?p"]
    by (metis rev_append rev_replicate rev_rev_ident)
  then have len: "length ds + k = 9" using l by (metis length_append length_replicate)
  have v: "digits_val ds * 10 ^ k = ns" using digits_val_zeros[of ds k] p digits_val_pad[of 9 ns] by metis
  have ne: "ds \<noteq> []" using v assms(1) by (auto simp: digits_val_def)
  have dg: "list_all is_digit ds" using dec_pad_digits[of 9 ns] p by (metis list_all_append)
  have f: "frac_text ns = CHR ''.'' # ds" using assms(1) by (simp add: frac_text_def ds_def)
  have "9 - length ds = k" "length ds \<le> 9" using len by simp_all
  then show ?thesis using that[OF f ne dg] v by simp
qed

lemma frac_run:
  assumes "list_all is_digit ds" "r \<noteq> []" "\<not> is_digit (hd r)"
  shows "frac_digits (CHR ''.'' # ds @ r) = length ds"
proof -
  have "takeWhile is_digit (ds @ r) = ds"
    using assms by (cases r) (auto simp: list_all_iff takeWhile_append takeWhile_eq_all_conv[THEN iffD2])
  then show ?thesis by (simp add: frac_digits_def)
qed

lemma zone_text_head: "zone_text z \<noteq> [] \<and> \<not> is_digit (hd (zone_text z)) \<and> hd (zone_text z) \<noteq> CHR ''.'' \<and> hd (zone_text z) \<noteq> CHR '',''"
  by (auto simp: zone_text_def Let_def is_digit_def)

lemma time_atoi_digits:
  assumes "list_all is_digit ds"
  shows "time_atoi ds = Some (int (digits_val ds))"
proof (cases ds)
  case (Cons c cs)
  then have "c \<noteq> CHR ''-''" "c \<noteq> CHR ''+''" using assms by (auto simp: is_digit_def)
  then show ?thesis using assms Cons by (simp add: time_atoi_def)
qed (simp add: time_atoi_def)

text \<open>The seconds with the fraction behind them.\<close>

lemma parse_seconds:
  assumes "s < 60" "ns < 1000000000" "\<not> is_frac nxt"
  shows "parse_chunk StdZeroSecond nxt (pad2 s @ frac_text ns @ zone_text z) t
    = Some (zone_text z, if ns = 0 then t\<lparr>t_sec := int s\<rparr> else t\<lparr>t_sec := int s, t_nsec := int ns\<rparr>)"
proof (cases "ns = 0")
  case True
  have "\<not> has_frac (zone_text z)" using zone_text_head[of z] by (simp add: has_frac_def commaOrPeriod_def)
  then show ?thesis using True assms(1) by (simp add: frac_text_def)
next
  case False
  then obtain ds where ds: "frac_text ns = CHR ''.'' # ds" "ds \<noteq> []" "list_all is_digit ds" "length ds \<le> 9"
    "digits_val ds * 10 ^ (9 - length ds) = ns" using frac_text_shape assms(2) by blast
  let ?v = "CHR ''.'' # ds @ zone_text z"
  have f: "frac_digits ?v = length ds" using frac_run[OF ds(3)] zone_text_head[of z] by blast
  have h: "has_frac ?v" using ds(2,3) by (cases ds) (simp_all add: has_frac_def commaOrPeriod_def)
  have "int ns = int (digits_val ds) * 10 ^ (9 - length ds)" by (subst ds(5)[symmetric]) simp
  moreover have "min (1 + length ds) 10 = 1 + length ds" using ds(4) by simp
  ultimately have n: "parseNanoseconds ?v (1 + length ds) = Some (int ns)"
    using time_atoi_digits[OF ds(3)] by (simp add: parseNanoseconds_def commaOrPeriod_def Let_def)
  show ?thesis using False assms(1,3) f h n ds(1) by simp
qed

lemma colon_zone_pad2:
  assumes "hh \<le> 24" "mm \<le> 60" "sg = CHR ''+'' \<or> sg = CHR ''-''"
  shows "colon_zone (sg # pad2 hh @ CHR '':'' # pad2 mm) t
    = Some ([], t\<lparr>t_zone := Some ((if sg = CHR ''-'' then -1 else 1) * ((int hh * 60 + int mm) * 60))\<rparr>)"
proof -
  have g: "getnum True (pad2 hh) = Some (int hh, [])" "getnum True (pad2 mm) = Some (int mm, [])"
    using getnum_pad2[of hh True "[]"] getnum_pad2[of mm True "[]"] assms(1,2) by simp_all
  have p: "length (pad2 n) = 2" for n by (simp add: pad2_def)
  have "take 2 (drop 1 (sg # pad2 hh @ CHR '':'' # pad2 mm)) = pad2 hh"
    "take 2 (drop 4 (sg # pad2 hh @ CHR '':'' # pad2 mm)) = pad2 mm"
    "drop 6 (sg # pad2 hh @ CHR '':'' # pad2 mm) = []"
    "(sg # pad2 hh @ CHR '':'' # pad2 mm) ! 3 = CHR '':''"
    by (simp_all add: pad2_def)
  then show ?thesis unfolding colon_zone_def parse_zone_def using g assms p by (auto simp: pad2_def)
qed

lemma parse_zone_text:
  assumes "z mod 60 = 0" "\<bar>z\<bar> < 86400"
  shows "parse_chunk StdISO8601ColonTZ nxt (zone_text z) t = Some ([], t\<lparr>t_zone := Some z\<rparr>)"
proof (cases "z = 0")
  case False
  define a where "a = nat \<bar>go_div z 60\<bar>"
  have z: "z = go_div z 60 * 60"
  proof -
    have "z = (z div 60) * 60" using assms(1) by (simp add: minus_mod_eq_div_mult[symmetric])
    moreover have "go_div (q * 60) 60 = q" for q :: int
      by (simp add: go_div_def abs_mult flip: mult_minus_left)
    ultimately show ?thesis by metis
  qed
  have a: "a < 1440" using assms(2) z unfolding a_def by linarith
  have h: "a div 60 \<le> 24" "a mod 60 \<le> 60" using a by simp_all
  have v: "int (a div 60) * 60 + int (a mod 60) = int a" by presburger
  show ?thesis
  proof (cases "go_div z 60 < 0")
    case True
    then have "zone_text z = CHR ''-'' # pad2 (a div 60) @ CHR '':'' # pad2 (a mod 60)"
      using False by (simp add: zone_text_def a_def Let_def)
    moreover have "- (int a * 60) = z" using z True unfolding a_def by linarith
    ultimately show ?thesis using colon_zone_pad2[OF h, of "CHR ''-''"] by (simp add: v)
  next
    case nonneg: False
    then have "zone_text z = CHR ''+'' # pad2 (a div 60) @ CHR '':'' # pad2 (a mod 60)"
      using False by (simp add: zone_text_def a_def Let_def)
    moreover have "int a * 60 = z" using z nonneg unfolding a_def by linarith
    ultimately show ?thesis using colon_zone_pad2[OF h, of "CHR ''+''"] by (simp add: v)
  qed
qed (simp add: zone_text_def)

lemma parse_year:
  assumes "y < 10000"
  shows "parse_chunk StdLongYear nxt (dec_pad 4 y @ r) t = Some (r, t\<lparr>t_year := int y\<rparr>)"
proof -
  have l: "length (dec_pad 4 y) = 4" using dec_pad_length[of 4 y] assms by simp
  then obtain c cs where c: "dec_pad 4 y = c # cs" by (cases "dec_pad 4 y") auto
  have d: "is_digit c" using dec_pad_digits[of 4 y] c by simp
  have "take 4 (dec_pad 4 y @ r) = dec_pad 4 y" "drop 4 (dec_pad 4 y @ r) = r" using l by simp_all
  moreover have "digits_val (c # cs) = y" using digits_val_pad[of 4 y] c by simp
  ultimately show ?thesis using time_atoi_digits[OF dec_pad_digits, of 4 y] d c l by simp
qed

lemma parse_printed:
  assumes "y < 10000" "1 \<le> m" "m \<le> 12" "1 \<le> d" "int d \<le> daysIn (int m) (int y)" "d < 100" "h < 24" "mi < 60" "s < 60"
    "ns < 1000000000" "z mod 60 = 0" "\<bar>z\<bar> < 86400"
  shows "time_Parse RFC3339 (dec_pad 4 y @ CHR ''-'' # pad2 m @ CHR ''-'' # pad2 d @ CHR ''T'' # pad2 h
      @ CHR '':'' # pad2 mi @ CHR '':'' # pad2 s @ frac_text ns @ zone_text z)
    = Some (Date (int y) (int m) (int d) (int h) (int mi) (int s) (int ns) UTC - z * 1000000000)"
proof -
  have sk: "skip (c # v) [c] = Some v" if "c \<noteq> CHR '' ''" for c v using that by simp
  have "parse_layout RFC3339 (dec_pad 4 y @ CHR ''-'' # pad2 m @ CHR ''-'' # pad2 d @ CHR ''T'' # pad2 h
      @ CHR '':'' # pad2 mi @ CHR '':'' # pad2 s @ frac_text ns @ zone_text z) tparts0
    = Some \<lparr>t_year = int y, t_month = int m, t_day = int d, t_hour = int h, t_min = int mi, t_sec = int s,
        t_nsec = int ns, t_zone = Some z\<rparr>"
    unfolding RFC3339_def RFC3339_date_def append_Cons append_Nil parse_layout.simps
    using assms by (simp add: parse_year parse_seconds parse_zone_text sk tparts0_def
      del: skip.simps(2) parse_chunk.simps(1,8,11))
  then show ?thesis using assms(2-5) by (simp add: time_Parse_def parse_fields_def)
qed

text \<open>The parts of a printed time.\<close>

lemma format_parts:
  assumes "Format_RFC3339Nano z t = (y, txt)"
  obtains m d h mi s where
    "txt = dec_pad 4 (nat y) @ CHR ''-'' # pad2 m @ CHR ''-'' # pad2 d @ CHR ''T'' # pad2 h
      @ CHR '':'' # pad2 mi @ CHR '':'' # pad2 s @ frac_text (nat (t mod 1000000000)) @ zone_text z"
    "1 \<le> m" "m \<le> 12" "1 \<le> d" "d \<le> 31" "int d \<le> daysIn (int m) y" "h < 24" "mi < 60" "s < 60"
    "(days_before_year y + days_before_month (int m) y + (int d - 1)) * 86400 + int h * 3600 + int mi * 60 + int s
      = t div 1000000000 + z"
proof -
  define sec where "sec = t div 1000000000 + z"
  define s where "s = sec mod 86400"
  obtain y' yd where yd: "year_day (sec div 86400) = (y', yd)" by (rule prod.exhaust)
  obtain m d where md: "month_day (isLeap y') yd = (m, d)" by (rule prod.exhaust)
  note f = assms(1)[unfolded Format_RFC3339Nano_def Let_def, folded sec_def, folded s_def, unfolded yd prod.case md]
  have y: "y' = y" using f by simp
  have yde: "days_before_year y + yd = sec div 86400" "0 \<le> yd" "yd < 365 + (if isLeap y then 1 else 0)"
    using year_day_exact[OF yd] y by simp_all
  have mde: "1 \<le> m" "m \<le> 12" "1 \<le> d" "d \<le> daysIn m y" "days_before_month m y + (d - 1) = yd"
    using month_day_exact[OF md[unfolded y] yde(2,3)] by blast+
  have s: "0 \<le> s" "s < 86400" by (simp_all add: s_def)
  have m: "1 \<le> nat m" "nat m \<le> 12" using mde(1,2) by linarith+
  then have d31: "d \<le> 31" using mde(1,4) daysIn_le_31[of "nat m" y] by simp
  have h: "0 \<le> s div 3600" "s div 3600 < 24" "0 \<le> s div 60 mod 60" "s div 60 mod 60 < 60" "0 \<le> s mod 60" "s mod 60 < 60"
    using s by (simp_all add: pos_imp_zdiv_nonneg_iff)
  have i: "int (nat m) = m" "int (nat d) = d" "int (nat (s div 3600)) = s div 3600"
    "int (nat (s div 60 mod 60)) = s div 60 mod 60" "int (nat (s mod 60)) = s mod 60"
    using mde(1,3) h by simp_all
  have c: "1 \<le> nat d" "nat d \<le> 31" "nat (s div 3600) < 24" "nat (s div 60 mod 60) < 60" "nat (s mod 60) < 60"
    using mde(3) d31 h by linarith+
  have tx: "txt = dec_pad 4 (nat y) @ CHR ''-'' # pad2 (nat m) @ CHR ''-'' # pad2 (nat d) @ CHR ''T'' # pad2 (nat (s div 3600))
      @ CHR '':'' # pad2 (nat (s div 60 mod 60)) @ CHR '':'' # pad2 (nat (s mod 60)) @ frac_text (nat (t mod 1000000000)) @ zone_text z"
    using f y by simp
  have "s div 3600 * 3600 + s div 60 mod 60 * 60 + s mod 60 = s"
  proof -
    have "s div 60 div 60 = s div 3600" by (simp add: zdiv_zmult2_eq[of 60 s 60, symmetric])
    then have "s div 3600 * 60 + s div 60 mod 60 = s div 60" by (metis div_mult_mod_eq)
    moreover have "s div 60 * 60 + s mod 60 = s" by simp
    ultimately show ?thesis by linarith
  qed
  moreover have "sec div 86400 * 86400 + s = sec" by (simp add: s_def)
  moreover have "days_before_year y + days_before_month m y + (d - 1) = sec div 86400" using yde(1) mde(5) by simp
  ultimately have total: "(days_before_year y + days_before_month m y + (d - 1)) * 86400 + s div 3600 * 3600
      + s div 60 mod 60 * 60 + s mod 60 = sec" by (simp only: add.assoc)
  show ?thesis
    by (rule that[OF tx m c(1,2) _ c(3-5)]) (unfold i, rule mde(4), use total in \<open>simp only: sec_def\<close>)
qed

lemma Parse_Format:
  assumes "Format_RFC3339Nano z t = (y, txt)" "0 \<le> y" "y \<le> 9999" "z mod 60 = 0" "\<bar>z\<bar> < 86400"
  shows "time_Parse RFC3339 txt = Some t"
proof -
  obtain m d h mi s where tx: "txt = dec_pad 4 (nat y) @ CHR ''-'' # pad2 m @ CHR ''-'' # pad2 d @ CHR ''T'' # pad2 h
      @ CHR '':'' # pad2 mi @ CHR '':'' # pad2 s @ frac_text (nat (t mod 1000000000)) @ zone_text z"
    and b: "1 \<le> m" "m \<le> 12" "1 \<le> d" "d \<le> 31" "int d \<le> daysIn (int m) y" "h < 24" "mi < 60" "s < 60"
    and total: "(days_before_year y + days_before_month (int m) y + (int d - 1)) * 86400 + int h * 3600 + int mi * 60 + int s
      = t div 1000000000 + z"
    using assms(1) by (rule format_parts)
  have i: "int (nat y) = y" "int (nat (t mod 1000000000)) = t mod 1000000000" using assms(2) by simp_all
  have c: "nat y < 10000" "d < 100" "nat (t mod 1000000000) < 1000000000" using assms(3) b(4) by (linarith, linarith, simp add: nat_less_iff)
  have "int d \<le> daysIn (int m) (int (nat y))" unfolding i by (rule b(5))
  from parse_printed[OF c(1) b(1-3) this c(2) b(6-8) c(3) assms(4,5)]
  have "time_Parse RFC3339 txt = Some (Date y (int m) (int d) (int h) (int mi) (int s) (t mod 1000000000) UTC - z * 1000000000)"
    unfolding tx i .
  moreover have "Date y (int m) (int d) (int h) (int mi) (int s) (t mod 1000000000) UTC
      = (t div 1000000000 + z) * 1000000000 + t mod 1000000000"
    by (simp only: Date_def UTC_def total)
  moreover have "(t div 1000000000 + z) * 1000000000 + t mod 1000000000 - z * 1000000000 = t" by (simp add: algebra_simps)
  ultimately show ?thesis by simp
qed

end
