(* ===== verification/Batch_Serializer.thy ===== *)
theory Batch_Serializer
  imports Go_Calendar JSON_Texts "HOL-Library.List_Lexorder" "HOL-Library.Char_ord" "HOL-Library.AList"
begin

text \<open>
  \<^verbatim>\<open>src/internal/pipeline/serialize.go\<close> and the JSON form of \<^verbatim>\<open>LogEntry\<close> (\<^verbatim>\<open>parser.go\<close>): one object per line, the
  whole stream compressed, and its inverse. Compression is a pair of functions given as arguments, as is the
  zone offset of the location in which an entry's time is displayed.
\<close>

section \<open>Encoding\<close>

text \<open>A map is printed in the order of its keys.\<close>

definition map_json :: "strmap \<Rightarrow> string" where
  "map_json m = member_list (map (\<lambda>(k, v). (quote_body False k, quote False v)) (sort_key fst m))"

definition entry_json :: "int \<Rightarrow> LogEntry \<Rightarrow> string option" where
  "entry_json z e =
     (case time_MarshalJSON z (Timestamp e) of
        None \<Rightarrow> None
      | Some ts \<Rightarrow> Some (member_list
          ([(''ts'', ts), (''level'', MarshalJSON (Level e))]
           @ omitempty (Facility e = 0) ''facility'' (AppendInt (Facility e))
           @ omitempty (Hostname e = []) ''host'' (quote False (Hostname e))
           @ omitempty (Process e = []) ''proc'' (quote False (Process e))
           @ omitempty (PID e = 0) ''pid'' (AppendInt (PID e))
           @ [(''msg'', quote False (Message e)), (''src'', quote False (Source e))]
           @ omitempty (Fields e = []) ''fields'' (map_json (Fields e)))))"

text \<open>\<^verbatim>\<open>Encoder.Encode\<close> of a pointer: a nil one is \<^verbatim>\<open>null\<close>.\<close>

definition Encode :: "(LogEntry \<Rightarrow> int) \<Rightarrow> LogEntry option \<Rightarrow> string option" where
  "Encode zone oe =
     map_option (\<lambda>s. s @ [CHR 0x0A]) (case oe of None \<Rightarrow> Some ''null'' | Some e \<Rightarrow> entry_json (zone e) e)"

fun encode_loop :: "(LogEntry \<Rightarrow> int) \<Rightarrow> LogEntry option list \<Rightarrow> bytes \<Rightarrow> bytes option" where
  "encode_loop zone [] buf = Some buf"
| "encode_loop zone (e # es) buf =
     (case Encode zone e of None \<Rightarrow> None | Some l \<Rightarrow> encode_loop zone es (buf @ l))"

definition SerializeBatchJSONLGzip ::
  "(bytes \<Rightarrow> bytes) \<Rightarrow> (LogEntry \<Rightarrow> int) \<Rightarrow> LogEntry option list \<Rightarrow> (string, bytes) result" where
  "SerializeBatchJSONLGzip gz zone batch =
     (case encode_loop zone batch [] of None \<Rightarrow> Inl ''pipeline serialize'' | Some b \<Rightarrow> Inr (gz b))"

section \<open>Decoding\<close>

definition as_time :: "jvalue \<Rightarrow> instant \<Rightarrow> instant option" where
  "as_time v old = (case v of JString b \<Rightarrow> time_Parse RFC3339 b | JNull \<Rightarrow> Some old | _ \<Rightarrow> None)"

text \<open>\<^verbatim>\<open>Level.UnmarshalJSON\<close> is handed the raw text; that of an array or an object is no level.\<close>

definition as_level :: "jvalue \<Rightarrow> Level option" where
  "as_level v =
     (case v of
        JString b \<Rightarrow> UnmarshalJSON (dquote # b @ [dquote])
      | JNumber l \<Rightarrow> UnmarshalJSON l
      | JNull \<Rightarrow> UnmarshalJSON ''null''
      | JTrue \<Rightarrow> UnmarshalJSON ''true''
      | JFalse \<Rightarrow> UnmarshalJSON ''false''
      | _ \<Rightarrow> None)"

fun set_map :: "(string \<times> jvalue) list \<Rightarrow> strmap \<Rightarrow> strmap option" where
  "set_map [] m = Some m"
| "set_map ((k, v) # kvs) m =
     (case as_string v [] of None \<Rightarrow> None | Some x \<Rightarrow> set_map kvs (AList.update (unquote k) x m))"

definition as_strmap :: "jvalue \<Rightarrow> strmap \<Rightarrow> strmap option" where
  "as_strmap v old = (case v of JObject kvs \<Rightarrow> set_map kvs old | JNull \<Rightarrow> Some [] | _ \<Rightarrow> None)"

definition entry_fields :: "(string \<times> (jvalue \<Rightarrow> LogEntry \<Rightarrow> LogEntry option)) list" where
  "entry_fields =
     [(''ts'', \<lambda>v e. map_option (\<lambda>x. e\<lparr>Timestamp := x\<rparr>) (as_time v (Timestamp e))),
      (''level'', \<lambda>v e. map_option (\<lambda>x. e\<lparr>Level := x\<rparr>) (as_level v)),
      (''facility'', \<lambda>v e. map_option (\<lambda>x. e\<lparr>Facility := x\<rparr>) (as_int64 v (Facility e))),
      (''host'', \<lambda>v e. map_option (\<lambda>x. e\<lparr>Hostname := x\<rparr>) (as_string v (Hostname e))),
      (''proc'', \<lambda>v e. map_option (\<lambda>x. e\<lparr>Process := x\<rparr>) (as_string v (Process e))),
      (''pid'', \<lambda>v e. map_option (\<lambda>x. e\<lparr>PID := x\<rparr>) (as_int64 v (PID e))),
      (''msg'', \<lambda>v e. map_option (\<lambda>x. e\<lparr>Message := x\<rparr>) (as_string v (Message e))),
      (''src'', \<lambda>v e. map_option (\<lambda>x. e\<lparr>Source := x\<rparr>) (as_string v (Source e))),
      (''fields'', \<lambda>v e. map_option (\<lambda>x. e\<lparr>Fields := x\<rparr>) (as_strmap v (Fields e)))]"

text \<open>The loop over \<^verbatim>\<open>More\<close> and \<^verbatim>\<open>Decode\<close>.\<close>

definition More :: "string \<Rightarrow> bool" where
  "More s \<longleftrightarrow> skip_ws s \<noteq> [] \<and> hd (skip_ws s) \<noteq> CHR '']'' \<and> hd (skip_ws s) \<noteq> CHR 0x7D"

function decode_loop :: "string \<Rightarrow> LogEntry list \<Rightarrow> LogEntry list option" where
  "decode_loop s out =
     (if \<not> More s then Some out
      else case json_next s of
        None \<Rightarrow> None
      | Some (v, r) \<Rightarrow>
          (case set_struct entry_fields v zero_entry of None \<Rightarrow> None | Some e \<Rightarrow> decode_loop r (out @ [e])))"
  by pat_completeness auto
termination
  by (relation "measure (\<lambda>(s, out). length s)") (auto dest: json_next_less)

declare decode_loop.simps [simp del]

definition DecodeBatchJSONLGzip :: "(bytes \<Rightarrow> bytes option) \<Rightarrow> bytes \<Rightarrow> (string, LogEntry list) result" where
  "DecodeBatchJSONLGzip gunzip payload =
     (case gunzip payload of
        None \<Rightarrow> Inl ''pipeline gunzip''
      | Some body \<Rightarrow> (case decode_loop body [] of None \<Rightarrow> Inl ''pipeline decode'' | Some es \<Rightarrow> Inr es))"

section \<open>What can be sent\<close>

text \<open>An entry that can be sent: a date with a four-digit year in its zone, whose offset is a whole number of
  minutes below a day, a known level, integers of 64 bits, and distinct field names, names and values in UTF-8.\<close>

definition wire_ok :: "int \<Rightarrow> LogEntry \<Rightarrow> bool" where
  "wire_ok z e \<longleftrightarrow> 0 \<le> fst (Format_RFC3339Nano z (Timestamp e)) \<and> fst (Format_RFC3339Nano z (Timestamp e)) \<le> 9999
     \<and> z mod 60 = 0 \<and> \<bar>z\<bar> < 86400 \<and> Level e \<le> 7 \<and> int64 (Facility e) \<and> int64 (PID e)
     \<and> list_all ValidString (map fst (Fields e) @ map snd (Fields e))
     \<and> distinct (map fst (Fields e))"

text \<open>What comes back: bytes that are not UTF-8 are replaced by U+FFFD, and the fields, a map, are read in the
  order of their names.\<close>

definition received :: "LogEntry \<Rightarrow> LogEntry" where
  "received e = e\<lparr>Hostname := json_string (Hostname e), Process := json_string (Process e),
     Message := json_string (Message e), Source := json_string (Source e), Fields := sort_key fst (Fields e)\<rparr>"

section \<open>One entry\<close>

lemma pad2_ascii: "n < 100 \<Longrightarrow> list_all ascii_plain (pad2 n)"
  by (simp add: pad2_def digit_ascii)

lemma dec_ascii: "list_all ascii_plain (dec_pad w n)"
  using dec_pad_digits[of w n] by (simp add: list_all_iff digit_ascii)

lemma frac_ascii: "list_all ascii_plain (frac_text n)"
proof -
  have d: "ascii_plain (CHR ''.'')" by code_simp
  have "set (rev (dropWhile (\<lambda>c. c = CHR ''0'') (rev (dec_pad 9 n)))) \<subseteq> set (dec_pad 9 n)"
    using set_dropWhileD by fastforce
  then have "list_all ascii_plain (rev (dropWhile (\<lambda>c. c = CHR ''0'') (rev (dec_pad 9 n))))"
    using dec_ascii[of 9 n] by (auto simp: list_all_iff)
  then show ?thesis using d unfolding frac_text_def by simp
qed

lemma zone_ascii: "\<bar>z\<bar> < 86400 \<Longrightarrow> list_all ascii_plain (zone_text z)"
proof -
  assume z: "\<bar>z\<bar> < 86400"
  have c: "ascii_plain (CHR ''Z'')" "ascii_plain (CHR ''+'')" "ascii_plain (CHR ''-'')" "ascii_plain (CHR '':'')" by code_simp+
  have "\<bar>go_div z 60\<bar> \<le> \<bar>z\<bar> div 60" by (auto simp: go_div_def abs_div_pos)
  also have "\<dots> \<le> 86400 div 60" using z by (intro zdiv_mono1) simp_all
  finally have a: "nat \<bar>go_div z 60\<bar> \<le> 1440" by simp
  then have "nat \<bar>go_div z 60\<bar> div 60 < 100" by simp
  then show ?thesis using c unfolding zone_text_def Let_def by (auto intro!: pad2_ascii)
qed

lemma time_ascii:
  assumes "Format_RFC3339Nano z t = (y, txt)" "\<bar>z\<bar> < 86400"
  shows "list_all ascii_plain txt"
proof -
  have c: "ascii_plain (CHR ''T'')" "ascii_plain (CHR ''-'')" "ascii_plain (CHR '':'')" by code_simp+
  obtain m d h mi s where tx: "txt = dec_pad 4 (nat y) @ CHR ''-'' # pad2 m @ CHR ''-'' # pad2 d @ CHR ''T'' # pad2 h
      @ CHR '':'' # pad2 mi @ CHR '':'' # pad2 s @ frac_text (nat (t mod 1000000000)) @ zone_text z"
    and b: "m \<le> 12" "d \<le> 31" "h < 24" "mi < 60" "s < 60"
    using assms(1) by (rule format_parts)
  show ?thesis
    unfolding tx list_all_append list.pred_inject using b c
    by (intro conjI dec_ascii frac_ascii zone_ascii[OF assms(2)] pad2_ascii) simp_all
qed

lemma level_ascii: "list_all ascii_plain (Level_String l)"
proof -
  have "list_all (\<lambda>s. list_all ascii_plain s)
    [''emerg'', ''alert'', ''crit'', ''error'', ''warn'', ''notice'', ''info'', ''debug'', ''unknown'']" by code_simp
  then show ?thesis unfolding Level_String_def by simp
qed

lemma entry_keys: "k \<in> set (map fst entry_fields) \<Longrightarrow> unquote k = k \<and> reads_body k"
proof -
  have "list_all (list_all ascii_plain) (map fst entry_fields)" by code_simp
  then show "k \<in> set (map fst entry_fields) \<Longrightarrow> ?thesis" using unquote_ascii reads_ascii by (auto simp: list_all_iff)
qed

definition map_value :: "strmap \<Rightarrow> (string \<times> jvalue) list" where
  "map_value m = map (\<lambda>(k, v). (quote_body False k, JString (quote_body False v))) (sort_key fst m)"

definition entry_value :: "string \<Rightarrow> LogEntry \<Rightarrow> (string \<times> jvalue) list" where
  "entry_value tx e =
     [(''ts'', JString tx), (''level'', JString (Level_String (Level e)))]
     @ omitempty (Facility e = 0) ''facility'' (JNumber (AppendInt (Facility e)))
     @ omitempty (Hostname e = []) ''host'' (JString (quote_body False (Hostname e)))
     @ omitempty (Process e = []) ''proc'' (JString (quote_body False (Process e)))
     @ omitempty (PID e = 0) ''pid'' (JNumber (AppendInt (PID e)))
     @ [(''msg'', JString (quote_body False (Message e))), (''src'', JString (quote_body False (Source e)))]
     @ omitempty (Fields e = []) ''fields'' (JObject (map_value (Fields e)))"

lemma reads_map:
  assumes "m \<noteq> []"
  shows "reads (Suc d) (map_json m) (JObject (map_value m))"
proof -
  have "sort_key fst m \<noteq> []" using assms by (metis length_0_conv length_sort)
  then show ?thesis
    unfolding map_json_def map_value_def
    by (intro reads_member_list) (auto simp: list_all2_map1 list_all2_map2 reads_body_quote reads_quote intro: list.rel_refl)
qed

abbreviation reads_member :: "nat \<Rightarrow> string \<times> string \<Rightarrow> string \<times> jvalue \<Rightarrow> bool" where
  "reads_member d \<equiv> (\<lambda>(k, v) (k', x). k' = k \<and> reads_body k \<and> reads d v x)"

lemma reads_omitted:
  assumes "\<not> b \<Longrightarrow> reads_body k \<and> reads d v x"
  shows "list_all2 (reads_member d) (omitempty b k v) (omitempty b k x)"
  using assms by (simp add: omitempty_def)

lemma reads_entry:
  assumes "entry_json z e = Some j" "\<bar>z\<bar> < 86400"
  shows "\<exists>tx. fst (Format_RFC3339Nano z (Timestamp e)) \<in> {0..9999} \<and> snd (Format_RFC3339Nano z (Timestamp e)) = tx
    \<and> reads 10000 j (JObject (entry_value tx e))"
proof -
  obtain y tx where f: "Format_RFC3339Nano z (Timestamp e) = (y, tx)" by (rule prod.exhaust)
  then have ts: "time_MarshalJSON z (Timestamp e) = Some (dquote # tx @ [dquote])" "0 \<le> y" "y \<le> 9999"
    using assms(1) by (auto simp: entry_json_def time_MarshalJSON_def split: option.splits if_splits)
  have tx: "reads_body tx" using reads_ascii[OF time_ascii[OF f assms(2)]] .
  have k: "reads_body k" if "k \<in> set (map fst entry_fields)" for k using entry_keys[OF that] by blast
  have kb: "reads_body ''ts''" "reads_body ''level''" "reads_body ''facility''" "reads_body ''host''" "reads_body ''proc''"
    "reads_body ''pid''" "reads_body ''msg''" "reads_body ''src''" "reads_body ''fields''"
    by (rule k; simp add: entry_fields_def)+
  have lv: "reads d (MarshalJSON l) (JString (Level_String l))" for d l
    unfolding MarshalJSON_def using reads_string[OF reads_ascii[OF level_ascii]] by simp
  have m: "reads 9999 (map_json (Fields e)) (JObject (map_value (Fields e)))" if "Fields e \<noteq> []"
    using reads_map[OF that, of 9998] by simp
  have j: "j = member_list ([(''ts'', dquote # tx @ [dquote]), (''level'', MarshalJSON (Level e))]
           @ omitempty (Facility e = 0) ''facility'' (AppendInt (Facility e))
           @ omitempty (Hostname e = []) ''host'' (quote False (Hostname e))
           @ omitempty (Process e = []) ''proc'' (quote False (Process e))
           @ omitempty (PID e = 0) ''pid'' (AppendInt (PID e))
           @ [(''msg'', quote False (Message e)), (''src'', quote False (Source e))]
           @ omitempty (Fields e = []) ''fields'' (map_json (Fields e)))"
    using assms(1) ts(1) by (simp add: entry_json_def)
  have "reads (Suc 9999) j (JObject (entry_value tx e))"
    unfolding j entry_value_def
    by (rule reads_member_list, simp, intro list_all2_appendI reads_omitted conjI)
      (simp_all add: kb tx lv m reads_string reads_quote reads_int)
  then show ?thesis using f ts(2,3) by simp
qed

lemma update_append_new: "k \<notin> fst ` set m \<Longrightarrow> AList.update k v m = m @ [(k, v)]"
  by (induction m) auto

lemma keys_sort: "distinct (map fst m) \<Longrightarrow> distinct (map fst (sort_key fst m))" for m :: strmap
proof -
  have "mset (map fst (sort_key fst m)) = mset (map fst m)" by simp
  then show "distinct (map fst m) \<Longrightarrow> ?thesis" using mset_eq_imp_distinct_iff by blast
qed

lemma set_map_value:
  assumes "distinct (map fst (m @ kvs))" "\<forall>(k, v)\<in>set kvs. ValidString k \<and> ValidString v"
  shows "set_map (map (\<lambda>(k, v). (quote_body False k, JString (quote_body False v))) kvs) m = Some (m @ kvs)"
  using assms
proof (induction kvs arbitrary: m)
  case (Cons kv kvs)
  obtain k v where kv: "kv = (k, v)" by (rule prod.exhaust)
  have u: "AList.update k v m = m @ [(k, v)]"
    using Cons.prems(1) kv by (intro update_append_new) auto
  have "unquote (quote_body False k) = k" using Cons.prems(2) kv quote_body_reads[of False k] json_string_valid[of k] by simp
  moreover have "as_string (JString (quote_body False v)) [] = Some v"
    using Cons.prems(2) kv json_string_valid[of v] by (simp add: as_string_quote)
  ultimately show ?case using Cons.IH[of "m @ [(k, v)]"] Cons.prems kv u by simp
qed simp

lemma entry_finds:
  "find_field entry_fields ''ts'' = Some (\<lambda>v e. map_option (\<lambda>x. e\<lparr>Timestamp := x\<rparr>) (as_time v (Timestamp e)))"
  "find_field entry_fields ''level'' = Some (\<lambda>v e. map_option (\<lambda>x. e\<lparr>Level := x\<rparr>) (as_level v))"
  "find_field entry_fields ''facility'' = Some (\<lambda>v e. map_option (\<lambda>x. e\<lparr>Facility := x\<rparr>) (as_int64 v (Facility e)))"
  "find_field entry_fields ''host'' = Some (\<lambda>v e. map_option (\<lambda>x. e\<lparr>Hostname := x\<rparr>) (as_string v (Hostname e)))"
  "find_field entry_fields ''proc'' = Some (\<lambda>v e. map_option (\<lambda>x. e\<lparr>Process := x\<rparr>) (as_string v (Process e)))"
  "find_field entry_fields ''pid'' = Some (\<lambda>v e. map_option (\<lambda>x. e\<lparr>PID := x\<rparr>) (as_int64 v (PID e)))"
  "find_field entry_fields ''msg'' = Some (\<lambda>v e. map_option (\<lambda>x. e\<lparr>Message := x\<rparr>) (as_string v (Message e)))"
  "find_field entry_fields ''src'' = Some (\<lambda>v e. map_option (\<lambda>x. e\<lparr>Source := x\<rparr>) (as_string v (Source e)))"
  "find_field entry_fields ''fields'' = Some (\<lambda>v e. map_option (\<lambda>x. e\<lparr>Fields := x\<rparr>) (as_strmap v (Fields e)))"
  by (simp_all add: find_field_def entry_fields_def)

text \<open>What a run of members makes of a structure.\<close>

definition sets :: "(string \<times> (jvalue \<Rightarrow> 'r \<Rightarrow> 'r option)) list \<Rightarrow> (string \<times> jvalue) list \<Rightarrow> 'r \<Rightarrow> 'r \<Rightarrow> bool" where
  "sets fs kvs r r' \<longleftrightarrow> (\<forall>rest. set_members fs (kvs @ rest) r = set_members fs rest r')"

lemma sets_append: "sets fs a r r1 \<Longrightarrow> sets fs b r1 r2 \<Longrightarrow> sets fs (a @ b) r r2"
  by (simp add: sets_def)

lemma sets_two: "sets fs [a] r r1 \<Longrightarrow> sets fs [b] r1 r2 \<Longrightarrow> sets fs [a, b] r r2"
  using sets_append[of fs "[a]" r r1 "[b]"] by simp

lemma sets_one: "unquote k = k \<Longrightarrow> find_field fs k = Some f \<Longrightarrow> f v r = Some r' \<Longrightarrow> sets fs [(k, v)] r r'"
  by (simp add: sets_def)

lemma sets_omitted:
  "unquote k = k \<Longrightarrow> find_field fs k = Some f \<Longrightarrow> (\<not> b \<Longrightarrow> f v r = Some r') \<Longrightarrow> (b \<Longrightarrow> r' = r)
   \<Longrightarrow> sets fs (omitempty b k v) r r'"
  by (simp add: sets_def set_omitted)

lemma sets_struct: "sets fs kvs r r' \<Longrightarrow> set_struct fs (JObject kvs) r = Some r'"
  using append_Nil2[of kvs] by (simp add: sets_def set_struct_def) (metis append_Nil2 set_members.simps(1))

lemma decode_entry:
  assumes "wire_ok z e" "snd (Format_RFC3339Nano z (Timestamp e)) = tx"
  shows "set_struct entry_fields (JObject (entry_value tx e)) zero_entry = Some (received e)"
proof -
  have w: "int64 (Facility e)" "int64 (PID e)" "Level e \<le> 7" using assms(1) by (simp_all add: wire_ok_def)
  have k: "unquote k = k" if "k \<in> set (map fst entry_fields)" for k using entry_keys[OF that] by blast
  have ku: "unquote ''ts'' = ''ts''" "unquote ''level'' = ''level''" "unquote ''facility'' = ''facility''"
    "unquote ''host'' = ''host''" "unquote ''proc'' = ''proc''" "unquote ''pid'' = ''pid''" "unquote ''msg'' = ''msg''"
    "unquote ''src'' = ''src''" "unquote ''fields'' = ''fields''"
    by (rule k; simp add: entry_fields_def)+
  have t: "as_time (JString tx) old = Some (Timestamp e)" for old
    using assms Parse_Format[of z "Timestamp e" "fst (Format_RFC3339Nano z (Timestamp e))" tx]
    by (auto simp: wire_ok_def as_time_def)
  have l: "as_level (JString (Level_String (Level e))) = Some (Level e)"
    using Level_roundtrip[OF w(3)] by (simp add: as_level_def MarshalJSON_def)
  note q = as_string_quote
  have f: "as_strmap (JObject (map_value (Fields e))) [] = Some (sort_key fst (Fields e))"
  proof -
    have "\<forall>p\<in>set (Fields e). ValidString (fst p) \<and> ValidString (snd p)"
      using assms(1) by (simp add: wire_ok_def list_all_iff)
    then have "\<forall>(k, v)\<in>set (sort_key fst (Fields e)). ValidString k \<and> ValidString v" by (simp add: case_prod_beta)
    moreover have "distinct (map fst ([] @ sort_key fst (Fields e)))"
      using keys_sort[of "Fields e"] assms(1) by (simp add: wire_ok_def)
    ultimately show ?thesis using set_map_value[of "[]" "sort_key fst (Fields e)"] by (simp add: as_strmap_def map_value_def)
  qed
  let ?r1 = "zero_entry\<lparr>Timestamp := Timestamp e\<rparr>"
  let ?r2 = "?r1\<lparr>Level := Level e\<rparr>"
  let ?r3 = "?r2\<lparr>Facility := Facility e\<rparr>"
  let ?r4 = "?r3\<lparr>Hostname := json_string (Hostname e)\<rparr>"
  let ?r5 = "?r4\<lparr>Process := json_string (Process e)\<rparr>"
  let ?r6 = "?r5\<lparr>PID := PID e\<rparr>"
  let ?r7 = "?r6\<lparr>Message := json_string (Message e)\<rparr>"
  let ?r8 = "?r7\<lparr>Source := json_string (Source e)\<rparr>"
  let ?r9 = "?r8\<lparr>Fields := sort_key fst (Fields e)\<rparr>"
  have empty: "json_string [] = []" by (simp add: json_string_def runes.simps)
  have z: "Facility zero_entry = 0" "Hostname zero_entry = []" "Process zero_entry = []" "PID zero_entry = 0" "Fields zero_entry = []"
    by (simp_all add: zero_entry_def)
  have same: "x\<lparr>Facility := Facility x\<rparr> = x" "x\<lparr>Hostname := Hostname x\<rparr> = x" "x\<lparr>Process := Process x\<rparr> = x"
    "x\<lparr>PID := PID x\<rparr> = x" "x\<lparr>Fields := Fields x\<rparr> = x" for x :: LogEntry by simp_all
  have s12: "sets entry_fields [(''ts'', JString tx), (''level'', JString (Level_String (Level e)))] zero_entry ?r2"
    by (rule sets_two; rule sets_one[OF ku(1) entry_finds(1)] sets_one[OF ku(2) entry_finds(2)]) (simp_all add: t l)
  have s3: "sets entry_fields (omitempty (Facility e = 0) ''facility'' (JNumber (AppendInt (Facility e)))) ?r2 ?r3"
    using same(1)[of ?r2] z w by (intro sets_omitted[OF ku(3) entry_finds(3)]) (simp_all add: as_int64_print)
  have s4: "sets entry_fields (omitempty (Hostname e = []) ''host'' (JString (quote_body False (Hostname e)))) ?r3 ?r4"
    using same(2)[of ?r3] z w by (intro sets_omitted[OF ku(4) entry_finds(4)]) (simp_all add: q empty)
  have s5: "sets entry_fields (omitempty (Process e = []) ''proc'' (JString (quote_body False (Process e)))) ?r4 ?r5"
    using same(3)[of ?r4] z w by (intro sets_omitted[OF ku(5) entry_finds(5)]) (simp_all add: q empty)
  have s6: "sets entry_fields (omitempty (PID e = 0) ''pid'' (JNumber (AppendInt (PID e)))) ?r5 ?r6"
    using same(4)[of ?r5] z w by (intro sets_omitted[OF ku(6) entry_finds(6)]) (simp_all add: as_int64_print)
  have s78: "sets entry_fields [(''msg'', JString (quote_body False (Message e))), (''src'', JString (quote_body False (Source e)))]
      ?r6 ?r8"
    by (rule sets_two; rule sets_one[OF ku(7) entry_finds(7)] sets_one[OF ku(8) entry_finds(8)]) (simp_all add: q)
  have s9: "sets entry_fields (omitempty (Fields e = []) ''fields'' (JObject (map_value (Fields e)))) ?r8 ?r9"
    using same(5)[of ?r8] z by (intro sets_omitted[OF ku(9) entry_finds(9)]) (simp_all add: f)
  have "sets entry_fields (entry_value tx e) zero_entry ?r9"
    unfolding entry_value_def
    by (rule sets_append[OF s12 sets_append[OF s3 sets_append[OF s4 sets_append[OF s5 sets_append[OF s6 sets_append[OF s78 s9]]]]]])
  moreover have "?r9 = received e" by (cases e) (simp add: received_def zero_entry_def)
  ultimately show ?thesis using sets_struct by metis
qed

section \<open>The stream\<close>

text \<open>No newline inside a line: a literal holds no control character.\<close>

definition one_line :: "string \<Rightarrow> bool" where
  "one_line s \<longleftrightarrow> CHR 0x0A \<notin> set s"

definition scans_line :: "(string \<times> string) option \<Rightarrow> bool" where
  "scans_line x \<longleftrightarrow> (\<forall>b r. x = Some (b, r) \<longrightarrow> one_line b)"

lemma scans_lineI [intro]:
  "scans_line None" "one_line b \<Longrightarrow> scans_line (Some (b, r))" "one_line p \<Longrightarrow> scans_line x \<Longrightarrow> scans_line (cons_body p x)"
  "(c \<Longrightarrow> scans_line x) \<Longrightarrow> (\<not> c \<Longrightarrow> scans_line y) \<Longrightarrow> scans_line (if c then x else y)"
  by (auto simp: scans_line_def one_line_def cons_body_def)

lemma scan_str_line: "scans_line (scan_str s)"
proof (induction s rule: length_induct)
  case (1 s)
  show ?case
  proof (cases s)
    case (Cons c cs)
    have IH: "scans_line (scan_str t)" if "length t \<le> length cs" for t using 1 that Cons by simp
    have lf: "json_hex (CHR 0x0A) = None" "(of_char (CHR 0x0A) :: nat) < 32" by code_simp+
    have hex: "json_hex h \<noteq> None \<Longrightarrow> h \<noteq> CHR 0x0A" for h using lf(1) by auto
    have esc: "scans_line (case cs of [] \<Rightarrow> None | d # ds \<Rightarrow> f d ds)"
      if "\<And>d ds. cs = d # ds \<Longrightarrow> scans_line (f d ds)" for f :: "char \<Rightarrow> string \<Rightarrow> (string \<times> string) option"
      using that by (cases cs) (auto simp: scans_line_def)
    have quad: "scans_line (case ds of h1 # h2 # h3 # h4 # rest \<Rightarrow> g h1 h2 h3 h4 rest | _ \<Rightarrow> None)"
      if "\<And>h1 h2 h3 h4 rest. ds = h1 # h2 # h3 # h4 # rest \<Longrightarrow> scans_line (g h1 h2 h3 h4 rest)"
      for ds :: string and g :: "char \<Rightarrow> char \<Rightarrow> char \<Rightarrow> char \<Rightarrow> string \<Rightarrow> (string \<times> string) option"
      using that by (auto simp: scans_line_def split: list.split)
    show ?thesis
      unfolding Cons scan_str.simps
      by (intro scans_lineI esc quad IH) (auto simp: one_line_def lf dest!: hex)
  qed (simp add: scans_line_def)
qed

lemma reads_body_line: "reads_body b \<Longrightarrow> one_line b"
  using scan_str_line[of "b @ [dquote]"] by (simp add: reads_body_def scans_line_def)

lemma one_line_simps [simp]: "one_line []" "one_line (c # s) \<longleftrightarrow> c \<noteq> CHR 0x0A \<and> one_line s"
  "one_line (s @ t) \<longleftrightarrow> one_line s \<and> one_line t"
  by (auto simp: one_line_def)

lemma AppendInt_line: "one_line (AppendInt k)"
proof -
  have "one_line (dec_digits n)" for n
    using dec_digits_digits[of n] by (auto simp: one_line_def list_all_iff is_digit_def)
  then show ?thesis by (simp add: AppendInt_def)
qed

lemma commas_line: "list_all one_line xs \<Longrightarrow> one_line (commas xs)"
  by (induction xs rule: commas.induct) simp_all

lemma member_list_line:
  assumes "list_all (\<lambda>(k, v). reads_body k \<and> one_line v) ms"
  shows "one_line (member_list ms)"
proof -
  have "list_all one_line (map (\<lambda>(k, v). print_member k v) ms)"
    using assms by (fastforce simp: list_all_iff print_member_def dest: reads_body_line)
  then show ?thesis by (simp add: member_list_def braces_def commas_line)
qed

lemma quote_line: "one_line (quote html s)"
  using reads_body_line[OF reads_body_quote[of html s]] by (simp add: quote_def)

lemma omitempty_all: "list_all P (omitempty b k v) \<longleftrightarrow> b \<or> P (k, v)"
  by (simp add: omitempty_def)

lemma entry_line:
  assumes "entry_json z e = Some j" "\<bar>z\<bar> < 86400"
  shows "one_line j"
proof -
  obtain y tx where f: "Format_RFC3339Nano z (Timestamp e) = (y, tx)" by (rule prod.exhaust)
  obtain ts where j: "time_MarshalJSON z (Timestamp e) = Some ts" "j = member_list
         ([(''ts'', ts), (''level'', MarshalJSON (Level e))]
           @ omitempty (Facility e = 0) ''facility'' (AppendInt (Facility e))
           @ omitempty (Hostname e = []) ''host'' (quote False (Hostname e))
           @ omitempty (Process e = []) ''proc'' (quote False (Process e))
           @ omitempty (PID e = 0) ''pid'' (AppendInt (PID e))
           @ [(''msg'', quote False (Message e)), (''src'', quote False (Source e))]
           @ omitempty (Fields e = []) ''fields'' (map_json (Fields e)))"
    using assms(1) by (auto simp: entry_json_def split: option.splits)
  have ts: "one_line ts"
    using j(1) f reads_body_line[OF reads_ascii[OF time_ascii[OF f assms(2)]]]
    by (auto simp: time_MarshalJSON_def split: if_splits)
  have lv: "one_line (MarshalJSON (Level e))"
    using reads_body_line[OF reads_ascii[OF level_ascii]] by (simp add: MarshalJSON_def)
  have mp: "one_line (map_json (Fields e))"
    unfolding map_json_def by (rule member_list_line) (auto simp: list_all_iff reads_body_quote quote_line)
  have k: "reads_body k" if "k \<in> set (map fst entry_fields)" for k using entry_keys[OF that] by blast
  have kb: "reads_body ''ts''" "reads_body ''level''" "reads_body ''facility''" "reads_body ''host''" "reads_body ''proc''"
    "reads_body ''pid''" "reads_body ''msg''" "reads_body ''src''" "reads_body ''fields''"
    by (rule k; simp add: entry_fields_def)+
  show ?thesis
    unfolding j(2) by (rule member_list_line) (simp add: omitempty_all kb ts lv mp quote_line AppendInt_line)
qed

text \<open>Each line is one value and decodes to what was sent.\<close>

definition decoded :: "LogEntry option \<Rightarrow> LogEntry" where
  "decoded oe = (case oe of None \<Rightarrow> zero_entry | Some e \<Rightarrow> received e)"

lemma Encode_line:
  assumes "case oe of None \<Rightarrow> True | Some e \<Rightarrow> wire_ok (zone e) e"
  shows "\<exists>s v. Encode zone oe = Some (s @ [CHR 0x0A]) \<and> one_line s \<and> More s \<and> reads 10000 s v
    \<and> set_struct entry_fields v zero_entry = Some (decoded oe)"
proof (cases oe)
  case None
  have "reads 10000 ''null'' JNull"
  proof -
    have "json_value (Suc n) 10000 (''null'' @ t) = Some (JNull, t)" for n t
      by (simp add: Let_def HasPrefix_def)
    then show ?thesis unfolding reads_def by (metis Suc_le_D)
  qed
  moreover have "More ''null''" by (simp add: More_def)
  moreover have "set_struct entry_fields JNull zero_entry = Some zero_entry" by (simp add: set_struct_def)
  ultimately show ?thesis
    using None by (intro exI[of _ "''null''"] exI[of _ JNull]) (simp add: Encode_def decoded_def)
next
  case (Some e)
  then have w: "wire_ok (zone e) e" using assms by simp
  then have z: "\<bar>zone e\<bar> < 86400" by (simp add: wire_ok_def)
  have "\<exists>j. entry_json (zone e) e = Some j"
    using w by (auto simp: wire_ok_def entry_json_def time_MarshalJSON_def split: prod.splits)
  then obtain j where j: "entry_json (zone e) e = Some j" by blast
  obtain tx where tx: "snd (Format_RFC3339Nano (zone e) (Timestamp e)) = tx" "reads 10000 j (JObject (entry_value tx e))"
    using reads_entry[OF j z] by blast
  have "More j"
    using j by (auto simp: entry_json_def More_def member_list_def braces_def split: option.splits)
  then show ?thesis
    using Some j tx(2) decode_entry[OF w tx(1)] entry_line[OF j z] by (auto simp: Encode_def decoded_def)
qed

lemma json_next_ws: "json_next (CHR 0x0A # s) = json_next s"
proof -
  have "skip_ws (CHR 0x0A # s) = skip_ws s" by (simp add: skip_ws_def)
  then have "json_value (Suc n) d (CHR 0x0A # s) = json_value (Suc n) d s" for n d by simp
  then show ?thesis
    using json_fuel_enough(1)[of s "2 * length (CHR 0x0A # s) + 1" "2 * length s + 1"] by (simp add: json_next_def)
qed

lemma decode_loop_ws: "decode_loop (CHR 0x0A # s) out = decode_loop s out"
proof -
  have "More (CHR 0x0A # s) = More s" by (simp add: More_def skip_ws_def)
  then show ?thesis
    by (subst decode_loop.simps, subst (2) decode_loop.simps) (simp add: json_next_ws)
qed

lemma More_append: "More s \<Longrightarrow> More (s @ t)"
proof -
  assume m: "More s"
  then have "skip_ws (s @ t) = skip_ws s @ t" by (auto simp: More_def skip_ws_def dropWhile_append)
  then show ?thesis using m by (simp add: More_def)
qed

lemma decode_line:
  assumes "More s" "reads 10000 s v" "set_struct entry_fields v zero_entry = Some e"
  shows "decode_loop (s @ CHR 0x0A # t) out = decode_loop t (out @ [e])"
  using json_next_reads[OF assms(2), of "CHR 0x0A # t"] assms(3) More_append[OF assms(1)]
  by (subst decode_loop.simps) (simp add: decode_loop_ws)

lemma encode_decode:
  assumes "\<forall>e. Some e \<in> set batch \<longrightarrow> wire_ok (zone e) e"
  shows "\<exists>ls. encode_loop zone batch buf = Some (buf @ concat (map (\<lambda>l. l @ [CHR 0x0A]) ls)) \<and> length ls = length batch
    \<and> list_all one_line ls \<and> (\<forall>out. decode_loop (concat (map (\<lambda>l. l @ [CHR 0x0A]) ls)) out = Some (out @ map decoded batch))"
  using assms
proof (induction batch arbitrary: buf)
  case Nil
  have "decode_loop [] out = Some out" for out by (simp add: decode_loop.simps More_def skip_ws_def)
  then show ?case by (intro exI[of _ "[]"]) simp
next
  case (Cons oe batch)
  have "case oe of None \<Rightarrow> True | Some e \<Rightarrow> wire_ok (zone e) e" using Cons.prems by (auto split: option.split)
  from Encode_line[OF this] obtain s v where s: "Encode zone oe = Some (s @ [CHR 0x0A])" "one_line s" "More s" "reads 10000 s v"
    "set_struct entry_fields v zero_entry = Some (decoded oe)"
    by blast
  obtain ls where "encode_loop zone batch (buf @ s @ [CHR 0x0A]) = Some ((buf @ s @ [CHR 0x0A]) @ concat (map (\<lambda>l. l @ [CHR 0x0A]) ls))"
    "length ls = length batch" "list_all one_line ls"
    "\<forall>out. decode_loop (concat (map (\<lambda>l. l @ [CHR 0x0A]) ls)) out = Some (out @ map decoded batch)"
    using Cons.IH[of "buf @ s @ [CHR 0x0A]"] Cons.prems by auto
  then show ?case using s decode_line[OF s(3-5)] by (intro exI[of _ "s # ls"]) simp
qed

text \<open>C3. A batch is written as one line per entry, none of them with a newline inside, and decoding the payload
  gives the entries back in order (an absent one as the zero entry). The compression is a parameter.\<close>

theorem batch_roundtrip:
  assumes "\<forall>b. gunzip (gz b) = Some b" "\<forall>e. Some e \<in> set batch \<longrightarrow> wire_ok (zone e) e"
  shows "\<exists>ls. SerializeBatchJSONLGzip gz zone batch = Inr (gz (concat (map (\<lambda>l. l @ [CHR 0x0A]) ls)))
    \<and> length ls = length batch \<and> (\<forall>l\<in>set ls. CHR 0x0A \<notin> set l)
    \<and> DecodeBatchJSONLGzip gunzip (gz (concat (map (\<lambda>l. l @ [CHR 0x0A]) ls)))
      = Inr (map (\<lambda>oe. case oe of None \<Rightarrow> zero_entry | Some e \<Rightarrow> received e) batch)"
proof -
  obtain ls where "encode_loop zone batch [] = Some (concat (map (\<lambda>l. l @ [CHR 0x0A]) ls))" "length ls = length batch"
    "list_all one_line ls" "decode_loop (concat (map (\<lambda>l. l @ [CHR 0x0A]) ls)) [] = Some (map decoded batch)"
    using encode_decode[OF assms(2), of "[]"] by auto
  then show ?thesis
    using assms(1) by (intro exI[of _ ls])
      (simp add: SerializeBatchJSONLGzip_def DecodeBatchJSONLGzip_def list_all_iff one_line_def decoded_def[abs_def])
qed

abbreviation ping_entry :: LogEntry where
  "ping_entry \<equiv> zero_entry\<lparr>Message := ''ping'', Fields := [(''b'', ''2''), (''a'', ''1'')]\<rparr>"

lemma batch_roundtrip_witness:
  "\<exists>ls. SerializeBatchJSONLGzip (\<lambda>b. CHR ''z'' # b) (\<lambda>_. 0) [Some ping_entry, None]
      = Inr (CHR ''z'' # concat (map (\<lambda>l. l @ [CHR 0x0A]) ls))
    \<and> length ls = Suc (Suc 0) \<and> DecodeBatchJSONLGzip (\<lambda>b. if b = [] then None else Some (tl b))
        (CHR ''z'' # concat (map (\<lambda>l. l @ [CHR 0x0A]) ls))
      = Inr [received ping_entry, zero_entry]"
proof -
  have "wire_ok 0 ping_entry" by code_simp
  then show ?thesis
    using batch_roundtrip[of "\<lambda>b. if b = [] then None else Some (tl b)" "\<lambda>b. CHR ''z'' # b" "[Some ping_entry, None]" "\<lambda>_. 0"]
    by (simp del: select_convs update_convs) blast
qed

text \<open>What makes a batch fail: the first entry whose year does not fit in four digits, or whose zone is a day away.\<close>

lemma serialize_fails:
  "SerializeBatchJSONLGzip gz zone batch = Inl ''pipeline serialize''
   \<longleftrightarrow> (\<exists>e. Some e \<in> set batch \<and> time_MarshalJSON (zone e) (Timestamp e) = None)"
proof -
  have e: "Encode zone (Some e) = None \<longleftrightarrow> time_MarshalJSON (zone e) (Timestamp e) = None" "Encode zone None \<noteq> None" for e
    by (auto simp: Encode_def entry_json_def split: option.splits)
  have "encode_loop zone batch buf = None \<longleftrightarrow> (\<exists>e. Some e \<in> set batch \<and> time_MarshalJSON (zone e) (Timestamp e) = None)" for buf
  proof (induction batch arbitrary: buf)
    case (Cons oe batch)
    then show ?case
      using e(2) unfolding e(1)[symmetric] by (cases oe; cases "Encode zone oe") auto
  qed simp
  from this[of "[]"] show ?thesis by (cases "encode_loop zone batch []") (simp_all add: SerializeBatchJSONLGzip_def)
qed

end
