(* ===== verification/Pipeline_Delivery.thy ===== *)
theory Pipeline_Delivery
  imports Batcher Spooled_Publisher Batch_Serializer
begin

text \<open>
  The pipeline put together as in \<^verbatim>\<open>src/internal/integration/chaos_test.go\<close>: the flush callback of the batcher
  serialises the batch and publishes it through the spooled publisher, while the replay of the spool runs beside
  it. The steps of both goroutines interleave in any order; each publish has its own clock reading and its own
  faults of the disk.
\<close>

section \<open>Composition\<close>

text \<open>The world of the callback, and as history the batches for which it returned an error, which the batcher
  only logs.\<close>

record pworld =
  pw_pub :: world
  pw_refused :: "LogEntry option list list"

definition pipeline_flush ::
  "(nat \<Rightarrow> bool) \<Rightarrow> (bytes \<Rightarrow> bytes) \<Rightarrow> (LogEntry \<Rightarrow> int) \<Rightarrow> string \<Rightarrow> int \<Rightarrow> faults \<Rightarrow>
   bool \<Rightarrow> pworld \<Rightarrow> LogEntry option list \<Rightarrow> pworld \<times> flush_result" where
  "pipeline_flush accepts gz zone topic now flt cancelled w bt =
     (case SerializeBatchJSONLGzip gz zone bt of
        Inl err \<Rightarrow> (w\<lparr>pw_refused := pw_refused w @ [bt]\<rparr>, FlushErr)
      | Inr payload \<Rightarrow>
          let m = (topic, payload, 1, False); pub = live accepts flt now m (pw_pub w) in
          if fst (Spooled_Publish accepts flt now m (pw_pub w)) = Inr () then (w\<lparr>pw_pub := pub\<rparr>, FlushOk)
          else (w\<lparr>pw_pub := pub, pw_refused := pw_refused w @ [bt]\<rparr>, FlushErr))"

definition pipeline_cfg ::
  "int \<Rightarrow> int \<Rightarrow> (bool \<Rightarrow> pworld \<Rightarrow> LogEntry option list \<Rightarrow> pworld \<times> flush_result) \<Rightarrow> pworld BatcherConfig" where
  "pipeline_cfg batch_size interval cb = NewBatcher \<lparr>BatchSize = batch_size, BatchInterval = interval, Flush = Some cb\<rparr>"

definition with_pub :: "(world \<Rightarrow> world) \<Rightarrow> pworld bstate \<Rightarrow> pworld bstate" where
  "with_pub f s = s\<lparr>b_world := (b_world s)\<lparr>pw_pub := f (pw_pub (b_world s))\<rparr>\<rparr>"

inductive pipe_step ::
  "SpooledPublisher \<Rightarrow> (nat \<Rightarrow> bool) \<Rightarrow> (bytes \<Rightarrow> bytes) \<Rightarrow> (LogEntry \<Rightarrow> int) \<Rightarrow> int \<Rightarrow> int \<Rightarrow>
   pworld bstate \<Rightarrow> pworld bstate \<Rightarrow> bool" for p accepts gz zone bsize interval where
  pipe_batcher: "fresh_name now (pw_pub (b_world s)) \<Longrightarrow>
     batcher_step (pipeline_cfg bsize interval (pipeline_flush accepts gz zone (logsTopic p) now flt)) s s' \<Longrightarrow>
     pipe_step p accepts gz zone bsize interval s s'"
| pipe_replay_start: "w_pending (pw_pub (b_world s)) = [] \<Longrightarrow>
     pipe_step p accepts gz zone bsize interval s (with_pub (replay_start flt) s)"
| pipe_replay_file: "w_pending (pw_pub (b_world s)) \<noteq> [] \<Longrightarrow>
     pipe_step p accepts gz zone bsize interval s (with_pub (replay_file p accepts flt cancelled) s)"

definition pipe_init :: "int \<Rightarrow> int \<Rightarrow> Spool \<Rightarrow> dirfs \<Rightarrow> pworld bstate" where
  "pipe_init n mb sp fs = batcher_init n mb \<lparr>pw_pub = started_world (Some sp) fs, pw_refused = []\<rparr>"

inductive pipe_reach ::
  "SpooledPublisher \<Rightarrow> (nat \<Rightarrow> bool) \<Rightarrow> (bytes \<Rightarrow> bytes) \<Rightarrow> (LogEntry \<Rightarrow> int) \<Rightarrow> int \<Rightarrow> int \<Rightarrow> pworld bstate \<Rightarrow>
   pworld bstate \<Rightarrow> bool" for p accepts gz zone bsize interval s0 where
  pipe_here: "pipe_reach p accepts gz zone bsize interval s0 s0"
| pipe_next: "pipe_reach p accepts gz zone bsize interval s0 s \<Longrightarrow> pipe_step p accepts gz zone bsize interval s s' \<Longrightarrow>
     pipe_reach p accepts gz zone bsize interval s0 s'"

section \<open>One flush per step\<close>

text \<open>A step of the batcher either leaves the world alone or hands exactly one batch to the callback.\<close>

definition one_flush :: "'w BatcherConfig \<Rightarrow> 'w bstate \<Rightarrow> 'w bstate \<Rightarrow> bool" where
  "one_flush cfg s s' \<longleftrightarrow>
     b_world s' = b_world s \<and> b_flushed s' = b_flushed s
     \<or> (\<exists>c bt f. Flush cfg = Some f \<and> b_world s' = fst (f c (b_world s) bt)
          \<and> b_flushed s' = b_flushed s @ [(c, bt)])"

lemma one_flush_flush: "Flush cfg = Some f \<Longrightarrow> one_flush cfg s (flush cfg s)"
  by (auto simp: one_flush_def flush_def recovered_def Let_def)

lemma one_flush_frame:
  assumes "one_flush cfg s s'" "b_world t = b_world s" "b_flushed t = b_flushed s" "b_world t' = b_world s'"
    "b_flushed t' = b_flushed s'"
  shows "one_flush cfg t t'"
  using assms by (simp add: one_flush_def)

lemma drain_world: "drain cfg s = Some s' \<Longrightarrow> b_world s' = b_world s \<and> b_flushed s' = b_flushed s"
  by (auto simp: drain_def split: option.splits)

lemma one_flush_endings:
  assumes "Flush cfg = Some f"
  shows "one_flush cfg s (unless_panicked resetTimer (flush cfg s))" "one_flush cfg s (flush_if_full cfg s)"
    "one_flush cfg s (flush_and_return cfg s)"
  using one_flush_flush[OF assms, of s]
  by (auto simp: flush_if_full_def flush_and_return_def unless_panicked_def resetTimer_def one_flush_def)

lemma one_flush_unwind:
  assumes "\<And>s1. one_flush cfg s1 (f s1)" "b_world t = b_world s" "b_flushed t = b_flushed s"
  shows "one_flush cfg s (unwind f t (drain cfg t))"
proof (cases "drain cfg t")
  case None
  then show ?thesis using assms(2,3) by (simp add: unwind_def recovered_def one_flush_def)
next
  case (Some s1)
  then show ?thesis
    using one_flush_frame[OF assms(1), of s s1] drain_world[OF Some] assms(2,3) by (simp add: unwind_def)
qed

lemma batcher_step_one_flush:
  assumes "batcher_step cfg s s'" "Flush cfg = Some f"
  shows "one_flush cfg s s'"
  using assms(1)
proof cases
  case start
  then show ?thesis
    using one_flush_unwind[OF one_flush_endings(2)[OF assms(2)]] by (auto simp: Run_start_def Let_def recovered_def one_flush_def)
next
  case notify
  then show ?thesis using one_flush_unwind[OF one_flush_endings(2)[OF assms(2)]] by (simp add: on_notify_def Let_def)
next
  case ctx_done
  then show ?thesis using one_flush_unwind[OF one_flush_endings(3)[OF assms(2)]] by (simp add: on_ctx_done_def)
next
  case ring_closed
  then show ?thesis using one_flush_unwind[OF one_flush_endings(3)[OF assms(2)]] by (simp add: on_closed_def)
next
  case timer
  then show ?thesis
    using one_flush_frame[OF one_flush_endings(1)[OF assms(2), of "s\<lparr>b_tick := False\<rparr>"], of s] by (simp add: on_timer_def)
qed (simp_all add: one_flush_def)

section \<open>Invariant\<close>

text \<open>Every batch handed on was refused with an error, or its payload was accepted by the publisher.\<close>

definition handed_on :: "(bytes \<Rightarrow> bytes) \<Rightarrow> (LogEntry \<Rightarrow> int) \<Rightarrow> pworld \<Rightarrow> LogEntry option list \<Rightarrow> bool" where
  "handed_on gz zone w bt \<longleftrightarrow>
     bt \<in> set (pw_refused w)
     \<or> (\<exists>payload. SerializeBatchJSONLGzip gz zone bt = Inr payload \<and> payload \<in> set (w_accepted (pw_pub w)))"

definition pipe_inv :: "(bytes \<Rightarrow> bytes) \<Rightarrow> (LogEntry \<Rightarrow> int) \<Rightarrow> pworld BatcherConfig \<Rightarrow> pworld bstate \<Rightarrow> bool" where
  "pipe_inv gz zone cfg s \<longleftrightarrow>
     batcher_inv cfg s \<and> pub_inv (pw_pub (b_world s)) \<and> (\<forall>(c, bt)\<in>set (b_flushed s). handed_on gz zone (b_world s) bt)"

lemma handed_on_mono:
  assumes "handed_on gz zone w bt" "set (pw_refused w) \<subseteq> set (pw_refused w')"
    "set (w_accepted (pw_pub w)) \<subseteq> set (w_accepted (pw_pub w'))"
  shows "handed_on gz zone w' bt"
  using assms unfolding handed_on_def by blast

lemma flush_hands_on:
  assumes "fresh_name now (pw_pub w)" "pub_inv (pw_pub w)"
    and w': "w' = fst (pipeline_flush accepts gz zone topic now flt c w bt)"
  shows "pub_inv (pw_pub w')" "handed_on gz zone w' bt" "set (pw_refused w) \<subseteq> set (pw_refused w')"
    "set (w_accepted (pw_pub w)) \<subseteq> set (w_accepted (pw_pub w'))"
proof -
  have l: "pub_inv (live accepts flt now m (pw_pub w))" for m using live_inv[OF assms(2,1)] .
  have a: "w_accepted (live accepts flt now m (pw_pub w)) = w_accepted (pw_pub w)
      @ (if fst (Spooled_Publish accepts flt now m (pw_pub w)) = Inr () then [fst (snd m)] else [])" for m
    by (simp add: live_def split: prod.split)
  have "pub_inv (pw_pub w') \<and> handed_on gz zone w' bt \<and> set (pw_refused w) \<subseteq> set (pw_refused w')
      \<and> set (w_accepted (pw_pub w)) \<subseteq> set (w_accepted (pw_pub w'))"
    unfolding w' by (cases "SerializeBatchJSONLGzip gz zone bt")
      (auto simp: pipeline_flush_def handed_on_def Let_def l a assms(2))
  then show "pub_inv (pw_pub w')" "handed_on gz zone w' bt" "set (pw_refused w) \<subseteq> set (pw_refused w')"
    "set (w_accepted (pw_pub w)) \<subseteq> set (w_accepted (pw_pub w'))" by blast+
qed

lemma cfg_simps [simp]: "Flush (pipeline_cfg n i cb) = Some cb" "0 < BatchSize (pipeline_cfg n i cb)"
  by (simp_all add: pipeline_cfg_def NewBatcher_pos)

lemma cfg_inv: "batcher_inv (pipeline_cfg n i cb) s = batcher_inv (pipeline_cfg n i cb') s"
  by (simp add: batcher_inv_def batches_ok_def pipeline_cfg_def NewBatcher_def Let_def)

lemma world_frame: "batcher_inv cfg (s\<lparr>b_world := w\<rparr>) = batcher_inv cfg s"
  by (simp add: batcher_inv_def conserved_def taken_def batches_ok_def timer_ok_def)

lemma pub_frame:
  assumes "pipe_inv gz zone cfg s" "pub_inv (f (pw_pub (b_world s)))"
    "w_accepted (f (pw_pub (b_world s))) = w_accepted (pw_pub (b_world s))"
  shows "pipe_inv gz zone cfg (with_pub f s)"
  using assms by (auto simp: pipe_inv_def with_pub_def world_frame handed_on_def)

lemma replay_accepted:
  "w_accepted (replay_start flt w) = w_accepted w" "w_accepted (replay_file p accepts flt c w) = w_accepted w"
  by (simp_all add: replay_start_def replay_file_def upstream_Publish_def Let_def split: option.split sum.split list.split)

lemma pipe_step_inv:
  assumes "pipe_step p accepts gz zone n i s s'" "pipe_inv gz zone (pipeline_cfg n i cb) s"
  shows "pipe_inv gz zone (pipeline_cfg n i cb) s'"
  using assms(1)
proof cases
  case (pipe_batcher now flt)
  let ?cb = "pipeline_flush accepts gz zone (logsTopic p) now flt"
  have inv: "batcher_inv (pipeline_cfg n i ?cb) s" "pub_inv (pw_pub (b_world s))"
    "\<forall>(c, bt)\<in>set (b_flushed s). handed_on gz zone (b_world s) bt"
    using assms(2) cfg_inv[of n i cb s ?cb] by (simp_all add: pipe_inv_def)
  have b: "batcher_inv (pipeline_cfg n i cb) s'"
    using batcher_step_inv[OF pipe_batcher(2) inv(1)] cfg_inv[of n i cb s' ?cb] by simp
  have "one_flush (pipeline_cfg n i ?cb) s s'" using batcher_step_one_flush[OF pipe_batcher(2)] by simp
  then consider "b_world s' = b_world s" "b_flushed s' = b_flushed s"
    | c bt where "b_world s' = fst (?cb c (b_world s) bt)" "b_flushed s' = b_flushed s @ [(c, bt)]"
    by (auto simp: one_flush_def)
  then show ?thesis
  proof cases
    case 1
    then show ?thesis using b inv by (simp add: pipe_inv_def)
  next
    case 2
    note f = flush_hands_on[OF pipe_batcher(1) inv(2) 2(1)]
    have "\<forall>(c, bt)\<in>set (b_flushed s). handed_on gz zone (b_world s') bt"
      using inv(3) handed_on_mono[OF _ f(3,4)] by blast
    then show ?thesis using b f(1,2) 2(2) by (simp add: pipe_inv_def)
  qed
next
  case (pipe_replay_start flt)
  then show ?thesis
    using pub_frame[OF assms(2), of "replay_start flt"] assms(2) by (simp add: replay_start_inv replay_accepted pipe_inv_def)
next
  case (pipe_replay_file flt cancelled)
  then show ?thesis
    using pub_frame[OF assms(2), of "replay_file p accepts flt cancelled"] assms(2)
    by (simp add: replay_file_inv replay_accepted pipe_inv_def)
qed

lemma pipe_reach_inv:
  "pipe_reach p accepts gz zone n i s0 s \<Longrightarrow> pipe_inv gz zone (pipeline_cfg n i cb) s0 \<Longrightarrow> pipe_inv gz zone (pipeline_cfg n i cb) s"
  by (induction rule: pipe_reach.induct) (simp_all add: pipe_step_inv)

lemma pipe_init_inv:
  "distinct (map fst fs) \<Longrightarrow> sp_drops sp = 0 \<Longrightarrow> pipe_inv gz zone (pipeline_cfg n i cb) (pipe_init rn mb sp fs)"
  using batcher_init_inv[of "pipeline_cfg n i cb" rn mb]
  by (simp add: pipe_inv_def pipe_init_def pub_inv_def started_world_def batcher_init_def)

section \<open>Delivery\<close>

lemma batch_payload_decodes:
  assumes "\<forall>b. gunzip (gz b) = Some b" "\<forall>e. Some e \<in> set bt \<longrightarrow> wire_ok (zone e) e"
    "SerializeBatchJSONLGzip gz zone bt = Inr payload"
  shows "DecodeBatchJSONLGzip gunzip payload = Inr (map decoded bt)"
  using encode_decode[OF assms(2), of "[]"] assms(1,3) by (auto simp: SerializeBatchJSONLGzip_def DecodeBatchJSONLGzip_def)

text \<open>C2. End to end: in every reachable state of the pipeline the batches handed on, the pending batch and the ring hold,
  in order, the entries that were accepted, except for as many as the drop counter of the ring says; and each batch
  handed on has either been refused with an error, or its payload decodes to exactly its entries and has been
  acknowledged by the broker, is in the spool, or is among the evicted files, which the drop counter of the spool
  counts.\<close>

theorem pipeline_delivers:
  assumes "pipe_reach p accepts gz zone n i (pipe_init rn mb sp fs) s" "distinct (map fst fs)" "sp_drops sp = 0"
    and "\<forall>b. gunzip (gz b) = Some b" "\<forall>e\<in>set (b_accepted s). wire_ok (zone e) e"
  shows "\<exists>es. concat (map snd (b_flushed s)) @ b_pending s = map Some es
    \<and> subseq (es @ contents (b_ring s)) (b_accepted s)
    \<and> of_nat (length es + length (contents (b_ring s))) + Drops (b_ring s) = of_nat (length (b_accepted s))
    \<and> (\<forall>(c, bt)\<in>set (b_flushed s). bt \<in> set (pw_refused (b_world s))
        \<or> (\<exists>payload. DecodeBatchJSONLGzip gunzip payload = Inr (map (\<lambda>oe. received (the oe)) bt)
             \<and> accounted (pw_pub (b_world s)) payload))
    \<and> (case w_spool (pw_pub (b_world s)) of None \<Rightarrow> w_evicted (pw_pub (b_world s)) = []
        | Some sp' \<Rightarrow> Spool_Drops sp' = of_nat (length (w_evicted (pw_pub (b_world s)))))"
proof -
  have inv: "pipe_inv gz zone (pipeline_cfg n i (\<lambda>c w b. (w, FlushOk))) s"
    using pipe_reach_inv[OF assms(1) pipe_init_inv[OF assms(2,3)]] .
  then obtain es where es: "taken s = map Some es" "subseq (es @ contents (b_ring s)) (b_accepted s)"
    "of_nat (length es + length (contents (b_ring s))) + rb_drops (b_ring s) = of_nat (length (b_accepted s))"
    by (auto simp: pipe_inv_def batcher_inv_def conserved_def)
  have "bt \<in> set (pw_refused (b_world s)) \<or> (\<exists>payload. DecodeBatchJSONLGzip gunzip payload = Inr (map (\<lambda>oe. received (the oe)) bt)
      \<and> accounted (pw_pub (b_world s)) payload)" if b: "(c, bt) \<in> set (b_flushed s)" for c bt
  proof -
    have "set bt \<subseteq> set (taken s)" using b by (force simp: taken_def)
    then have filled: "oe \<in> set bt \<Longrightarrow> \<exists>e. oe = Some e \<and> e \<in> set es" for oe unfolding es(1) by auto
    have "set es \<subseteq> set (b_accepted s)" using subseq_order.trans es(2) by (auto dest: list_emb_set)
    then have "\<forall>e. Some e \<in> set bt \<longrightarrow> wire_ok (zone e) e" using filled assms(5) by blast
    moreover have "map decoded bt = map (\<lambda>oe. received (the oe)) bt"
      by (rule map_cong) (auto simp: decoded_def dest: filled)
    moreover have "handed_on gz zone (b_world s) bt" "pub_inv (pw_pub (b_world s))"
      using inv b by (auto simp: pipe_inv_def)
    ultimately show ?thesis
      using batch_payload_decodes[where gunzip = gunzip and gz = gz and bt = bt and zone = zone] assms(4)
      by (auto simp: handed_on_def pub_inv_def)
  qed
  moreover have "case w_spool (pw_pub (b_world s)) of None \<Rightarrow> w_evicted (pw_pub (b_world s)) = []
      | Some sp' \<Rightarrow> Spool_Drops sp' = of_nat (length (w_evicted (pw_pub (b_world s))))"
    using inv by (auto simp: pipe_inv_def pub_inv_def Spool_Drops_def split: option.splits)
  ultimately show ?thesis using es by (intro exI[of _ es]) (auto simp: taken_def Drops_def)
qed

text \<open>One entry through the pipeline: pushed, drained into a batch of one, refused by the broker and spooled.\<close>

definition ping_cb :: "bool \<Rightarrow> pworld \<Rightarrow> LogEntry option list \<Rightarrow> pworld \<times> flush_result" where
  "ping_cb = pipeline_flush broker_back (\<lambda>b. CHR ''z'' # b) (\<lambda>_. 0) (logsTopic example_pub) 10 no_faults"

definition ping_pushed :: "pworld bstate" where
  "ping_pushed =
     (let s = pipe_init 4 0 \<lparr>sp_maxBytes = 1000, sp_seq = 0, sp_drops = 0\<rparr> [] in
      s\<lparr>b_ring := snd (the (Push (b_ring s) (Some ping_entry))), b_accepted := b_accepted s @ [ping_entry]\<rparr>)"

definition ping_spooled :: "pworld bstate" where
  "ping_spooled = Run_start (pipeline_cfg 1 7 ping_cb) ping_pushed"

lemma ping_reach:
  "pipe_reach example_pub broker_back (\<lambda>b. CHR ''z'' # b) (\<lambda>_. 0) 1 7
     (pipe_init 4 0 \<lparr>sp_maxBytes = 1000, sp_seq = 0, sp_drops = 0\<rparr> []) ping_spooled"
proof -
  let ?s0 = "pipe_init 4 0 \<lparr>sp_maxBytes = 1000, sp_seq = 0, sp_drops = 0\<rparr> []"
  have "map_option fst (Push (b_ring ?s0) (Some ping_entry)) = Some True" by code_simp
  then have push: "Push (b_ring ?s0) (Some ping_entry) = Some (True, snd (the (Push (b_ring ?s0) (Some ping_entry))))"
    by (cases "Push (b_ring ?s0) (Some ping_entry)") (auto simp: prod_eq_iff)
  have f: "fresh_name 10 (pw_pub (b_world ?s0))" "fresh_name 10 (pw_pub (b_world ping_pushed))" by code_simp+
  have "b_run ping_pushed = NotStarted" by code_simp
  then have start: "batcher_step (pipeline_cfg 1 7 ping_cb) ping_pushed ping_spooled"
    unfolding ping_spooled_def by (rule batcher_step.start)
  have "batcher_step (pipeline_cfg 1 7 ping_cb) ?s0 ping_pushed"
    unfolding ping_pushed_def Let_def by (rule batcher_step.produce[OF push, unfolded if_True])
  then show ?thesis
    using start f unfolding ping_cb_def by (blast intro: pipe_next pipe_here pipe_batcher)
qed

theorem pipeline_delivers_witness:
  "\<exists>payload. DecodeBatchJSONLGzip (\<lambda>b. if b = [] then None else Some (tl b)) payload = Inr [received ping_entry]
     \<and> accounted (pw_pub (b_world ping_spooled)) payload"
proof -
  have a: "b_accepted ping_spooled = [ping_entry]" by code_simp
  have w: "\<forall>e\<in>set (b_accepted ping_spooled). wire_ok 0 e" unfolding a list.set ball_simps by code_simp
  have "map snd (b_flushed ping_spooled) = [[Some ping_entry]]" "pw_refused (b_world ping_spooled) = []" by code_simp+
  moreover from this(1) obtain c where "b_flushed ping_spooled = [(c, [Some ping_entry])]" by (auto simp: map_eq_Cons_conv)
  ultimately show ?thesis
    using pipeline_delivers[OF ping_reach, of "\<lambda>b. if b = [] then None else Some (tl b)"] w by (auto simp del: update_convs)
qed

end
