(* ===== verification/Spec2Isabelle.thy ===== *)
theory Spec2Isabelle
  imports Batcher Rate_Limiter Parser_Registry Spooled_Publisher Oneshot_Merge File_Source File_Run
    Line_Sources Oneshot_Sources Security_Paths Security_Modes Security_TLS Config Transport_MQTT Go_Duration Dump_Command Offset_Store Pipeline_Delivery
begin

text \<open>
  Verification of blackboxd, a daemon that tails log sources on a device, parses their lines into entries, buffers and
  batches these, and ships the batches over MQTT, with a spool on disk for the time the broker cannot be reached; and
  of its one-shot commands \<^verbatim>\<open>dump\<close> and \<^verbatim>\<open>validate\<close>.

  \<^bold>\<open>How the parts interact.\<close> A source (\<^verbatim>\<open>internal/source\<close>, one goroutine each) hands raw lines to a parser
  (\<^verbatim>\<open>internal/parser\<close>) and the entries to the emit function, which pushes them into the ring buffer. The batcher
  (\<^verbatim>\<open>internal/pipeline\<close>) drains the ring, and its flush callback serialises a batch and publishes it through the
  spooled publisher (\<^verbatim>\<open>internal/transport\<close>), which falls back to the spool; a second goroutine replays the spool. The
  configuration (\<^verbatim>\<open>internal/config\<close>) is checked with \<^verbatim>\<open>internal/security\<close>. The dump command (\<^verbatim>\<open>cmd/blackboxd\<close>,
  \<^verbatim>\<open>internal/oneshot\<close>) uses the parsers without the pipeline. At this commit the service mode of \<^verbatim>\<open>main.go\<close> is not
  wired yet: the composition proved here is that of \<^verbatim>\<open>internal/integration/chaos_test.go\<close>.

  \<^bold>\<open>Modelling conventions.\<close> A string or byte slice is a list of bytes; \<^verbatim>\<open>(T, error)\<close> is a sum with the error on the left;
  a panic is \<^const>\<open>None\<close> or an explicit state; a 64-bit counter is a word, other integers are \<^typ>\<open>int\<close> with the wrap-around or
  the range check written where the code depends on it; a Go map is an association list whose order stands for the
  unspecified iteration order; an \<^verbatim>\<open>instant\<close> is a number of nanoseconds. An operation under a mutex is one atomic step;
  goroutines are step relations whose steps interleave freely. Failing system calls, clock readings, the
  answers of the broker and of subprocesses are arguments, so that the theorems hold for all of them.

  \<^bold>\<open>Theories and code.\<close>
  \<^item> Go's library, as far as the program uses it: \<open>Go_Strings\<close> (\<^verbatim>\<open>strings\<close>, \<^verbatim>\<open>strconv\<close>, UTF-8), \<open>Go_Time\<close> and \<open>Go_Calendar\<close>
    (\<^verbatim>\<open>time\<close>, layouts, RFC 3339), \<open>Go_Duration\<close>, \<open>Go_Float\<close> (correctly rounded \<^verbatim>\<open>float64\<close>), \<open>Go_Heap\<close> (\<^verbatim>\<open>container/heap\<close>),
    \<open>Go_JSON\<close> and \<open>JSON_Texts\<close> (\<^verbatim>\<open>encoding/json\<close>). \<open>BB_Prelude\<close> has the shared types, fact collections and lemmas.
  \<^item> \<open>Parser_Types\<close> (\<^verbatim>\<open>parser.go\<close>: \<open>Level\<close>, \<open>LogEntry\<close>, errors, and the locale \<open>log_parser\<close> for the interface \<^verbatim>\<open>Parser\<close>),
    \<open>Syslog_Common\<close>, \<open>Parser_Env\<close>, \<open>Parser_BSD\<close>, \<open>Parser_RFC5424\<close>, \<open>Parser_Kmsg\<close>, \<open>Parser_Dmesg\<close>, \<open>Parser_Journald\<close> (the files of
    the same names), \<open>Parser_Registry\<close> (\<^verbatim>\<open>registry.go\<close> and the \<^verbatim>\<open>init\<close> functions).
  \<^item> \<open>Ring_Buffer\<close> (\<^verbatim>\<open>ring.go\<close>, with the locale \<open>fifo_queue\<close>), \<open>Batcher\<close> (\<^verbatim>\<open>batcher.go\<close>: the \<^verbatim>\<open>select\<close> loop is the relation
    \<open>batcher_step\<close>), \<open>Rate_Limiter\<close> (\<^verbatim>\<open>rate.go\<close>, locale \<open>rounding\<close>), \<open>Batch_Serializer\<close> (\<^verbatim>\<open>serialize.go\<close>).
  \<^item> \<open>Spool\<close> and \<open>Spooled_Publisher\<close> (\<^verbatim>\<open>spool.go\<close>: the relation \<open>pub_step\<close> interleaves live publishes with the replay,
    locale \<open>batch_store\<close>), \<open>Transport_MQTT\<close> (\<^verbatim>\<open>mqtt.go\<close>, \<^verbatim>\<open>transport.go\<close>), \<open>Pipeline_Delivery\<close> (the composition).
  \<^item> \<open>File_Source\<close> and \<open>File_Run\<close> (\<^verbatim>\<open>file.go\<close>), \<open>Offset_Store\<close> (\<^verbatim>\<open>offset.go\<close>, locale \<open>position_store\<close>), \<open>Line_Sources\<close> (\<^verbatim>\<open>source.go\<close>,
    \<^verbatim>\<open>journal.go\<close>, \<^verbatim>\<open>kmsg_linux.go\<close>, \<^verbatim>\<open>kmsg_other.go\<close>, \<^verbatim>\<open>dmesg.go\<close>).
  \<^item> \<open>Security_Paths\<close>, \<open>Security_Modes\<close>, \<open>Security_TLS\<close> (\<^verbatim>\<open>paths.go\<close>, \<^verbatim>\<open>modes.go\<close>, \<^verbatim>\<open>pin.go\<close>, \<^verbatim>\<open>tls.go\<close>), \<open>Config\<close> (\<^verbatim>\<open>config.go\<close>,
    \<^verbatim>\<open>load.go\<close>).
  \<^item> \<open>Oneshot_Merge\<close> (\<^verbatim>\<open>oneshot.go\<close>, over the locale \<open>root_heap\<close>), \<open>Oneshot_Sources\<close> (\<^verbatim>\<open>sources.go\<close>, \<^verbatim>\<open>exec.go\<close>), \<open>Dump_Command\<close>
    (\<^verbatim>\<open>main.go\<close>, \<^verbatim>\<open>dump.go\<close>, \<^verbatim>\<open>flags.go\<close>).
  Every definition has the name of the Go function it models where HOL allows it; a part of a function has a name of its own.
  Every locale is interpreted on the model's own operations in the theory that provides them.

  \<^bold>\<open>What is shown.\<close>
  \<^item> Delivery: the ring is a lossy FIFO within its caps whose losses are counted (C4 to C6); the batcher neither loses,
    duplicates nor reorders entries in any interleaving, keeps its timer, and does not panic for a batch size that can be
    allocated (C7 to C9); an accepted payload is acknowledged, in the spool or a counted eviction, whatever fails (C1), replay
    is in order and empties the spool (C10, C11), appending evicts the oldest files and survives failing calls (C12, C13); batches
    are read back exactly (C3); and all of it composes (C2).
  \<^item> Tailing: lines are delivered whole or cut at the cap with exact offsets (C14), a drain ends (C18), rotation restarts (C19),
    a restart reads every byte once (C17), positions are replaced atomically (C15), and a crash during a save loses nothing
    (C16). The journal stream is cut into its records (C36).
  \<^item> Security and configuration: the allowlist, the mode checks and the pin accept exactly what is documented (C20 to C23);
    loading accepts exactly the well-formed configurations (C24), which then run (C25), with topics of their own (C26) and the
    documented connection parameters (C27).
  \<^item> Parsing: round trips of the two syslog formats (C28, C29), exact meaning and bounds of the others (C30 to C32), the registry
    (C33).
  \<^item> Rate limiting (C34, C35) and the dump: both journal readers agree (C37), the merge is chronological and stable for each
    source (C38, C39), and an encoding error stops it at a prefix (C40).
  Further theorems that are not numbered show deviations from the comments or the intention, for example
  \<open>shutdown_flushes_one_batch\<close>, \<open>notify_drains_one_batch\<close>, \<open>huge_batch_size_panics\<close>, \<open>oversized_batch_lost\<close>,
  \<open>root_prefix_only_root\<close>, \<open>dump_ignores_close\<close>, \<open>qos_zero_replaced\<close>, \<open>bsd_strict_no_effect\<close>, \<open>journald_missing_priority\<close>.

  \<^bold>\<open>Bounds and fuel.\<close> Loops are structural or have a termination proof, so that no theorem depends on fuel, with one exception: the
  JSON reader takes \<open>2 n + 1\<close> units for a text of \<open>n\<close> bytes, which \<open>json_fuel_enough\<close> proves to be enough; its nesting depth of
  10000 is that of \<^verbatim>\<open>encoding/json\<close>. \<open>max_make\<close> is \<open>2\<^sup>4\<^sup>5\<close>, the number of pointers that \<^verbatim>\<open>make\<close> can be asked for on a 64-bit
  machine before it panics (\<open>2\<^sup>3\<^sup>0\<close> on a 32-bit one; no proof depends on the value). The tailer discards at most 16 MiB of an over-long line, as the code does. The width of
  \<^verbatim>\<open>int\<close> in the flag parser is an argument, and so is whether the machine fuses the rate limiter's multiplication and addition.

  \<^bold>\<open>Parameters.\<close> SHA-256, PEM and X.509 parsing; the TOML decoder; the MQTT library; gzip (a pair of inverse functions); the part
  of a URL behind its scheme; running a subprocess; the time zone database; conversions of a \<^verbatim>\<open>float64\<close> that Go leaves
  to the machine.

  \<^bold>\<open>Not modelled.\<close> \<^verbatim>\<open>internal/version\<close> (three strings set by the linker), the usage and version texts, logging, running out
  of memory (except for the panic of \<^verbatim>\<open>make\<close> in the batcher and in \<^verbatim>\<open>PopBatch\<close>; a ring of more than \<open>max_make\<close> entries is not
  looked at), the pacing of the poll loops, and data races outside the mutexes. The rotation check sees one state of the
  path; a change between its system calls is seen by the next check.
\<close>

section \<open>From configuration to topics\<close>

lemma id_no_special: "IDPattern s \<Longrightarrow> slash \<notin> set s \<and> CHR ''+'' \<notin> set s \<and> CHR ''#'' \<notin> set s \<and> s \<noteq> []"
  by (auto simp: IDPattern_def list_all_iff id_char_def)

lemma topic_levels:
  assumes "slash \<notin> set tenant" "slash \<notin> set device" "slash \<notin> set kind"
  shows "split_on slash (''blackbox/v1/'' @ tenant @ ''/'' @ device @ slash # kind) = [''blackbox'', ''v1'', tenant, device, kind]"
proof -
  have "split_on slash (''blackbox'' @ slash # ''v1'' @ slash # tenant @ slash # device @ slash # kind)
      = [''blackbox'', ''v1'', tenant, device, kind]"
    using assms split_on_append_sep[of slash "''blackbox''"] split_on_append_sep[of slash "''v1''"] split_on_append_sep[OF assms(1)]
      split_on_append_sep[OF assms(2)] split_on_single[OF assms(3)] by simp
  then show ?thesis by simp
qed

text \<open>C26. Devices do not share topics: for identifiers that the configuration accepts, each of the four topics has
  exactly five levels ending in tenant, device and kind, none of them a wildcard, so that two devices
  whose topics coincide have the same tenant and the same identifier.\<close>

theorem topics_isolated:
  assumes "IDPattern tenant" "IDPattern device"
  shows "\<exists>t. NewTopics tenant device = Inr t
    \<and> split_on slash (Logs t) = [''blackbox'', ''v1'', tenant, device, ''logs'']
    \<and> split_on slash (Status t) = [''blackbox'', ''v1'', tenant, device, ''status'']
    \<and> split_on slash (Heartbeat t) = [''blackbox'', ''v1'', tenant, device, ''heartbeat'']
    \<and> split_on slash (Metrics t) = [''blackbox'', ''v1'', tenant, device, ''metrics'']
    \<and> (\<forall>topic\<in>{Logs t, Status t, Heartbeat t, Metrics t}. CHR ''+'' \<notin> set topic \<and> CHR ''#'' \<notin> set topic)"
proof -
  have i: "slash \<notin> set tenant" "slash \<notin> set device" "tenant \<noteq> []" "device \<noteq> []"
    "CHR ''+'' \<notin> set tenant" "CHR ''#'' \<notin> set tenant" "CHR ''+'' \<notin> set device" "CHR ''#'' \<notin> set device"
    using assms id_no_special by blast+
  have k: "slash \<notin> set ''logs''" "slash \<notin> set ''status''" "slash \<notin> set ''heartbeat''" "slash \<notin> set ''metrics''" by simp_all
  let ?base = "''blackbox/v1/'' @ tenant @ ''/'' @ device"
  let ?t = "\<lparr>Logs = ?base @ ''/logs'', Status = ?base @ ''/status'', Heartbeat = ?base @ ''/heartbeat'', Metrics = ?base @ ''/metrics''\<rparr>"
  have "NewTopics tenant device = Inr ?t" using i by (simp add: NewTopics_def Let_def)
  then show ?thesis
    using topic_levels[OF i(1,2) k(1)] topic_levels[OF i(1,2) k(2)] topic_levels[OF i(1,2) k(3)] topic_levels[OF i(1,2) k(4)] i
    by (intro exI[of _ ?t]) simp
qed

theorem topics_isolated_witness:
  "\<exists>t. NewTopics ''acme'' ''dev-1'' = Inr t \<and> split_on slash (Logs t) = [''blackbox'', ''v1'', ''acme'', ''dev-1'', ''logs'']"
proof -
  have "IDPattern ''acme''" "IDPattern ''dev-1''" by code_simp+
  from topics_isolated[OF this] show ?thesis by (elim exE conjE) (intro exI conjI)
qed

text \<open>C25. A configuration that loads can be run: its topics exist, its broker address is accepted by the transport as a
  TLS address (when the rest of the address is one that \<^verbatim>\<open>net/url\<close> reads), its pin is accepted when the TLS
  configuration is built, each of its parsers is known to the registry, and each of its sources finds
  its parser.\<close>

theorem loaded_config_runs:
  assumes "Load toml env reg skipFS path = Inr c" "mset reg = mset (init_registrations penv)"
    and "url (MQTTBroker (Transport c)) = Some x"
  shows "(\<exists>t. NewTopics (Tenant (Daemon c)) (DeviceID (Daemon c)) = Inr t)
    \<and> normalizeBrokerURL url (MQTTBroker (Transport c)) = Inr \<lparr>Scheme = ''tls'', url_rest = x\<rparr>
    \<and> (t_BrokerCertPin (Transport c) = [] \<or> (\<exists>pin. ParsePin (t_BrokerCertPin (Transport c)) = Inr pin \<and> length pin = pinSize))
    \<and> (\<forall>(name, p)\<in>set (Parsers c). \<forall>n ns. Build reg (pc_Type p) (pc_Options p) \<noteq> Inl (UnknownType n ns))
    \<and> (\<forall>(name, s)\<in>set (Sources c). \<exists>p. map_of (Parsers c) (s_Parser s) = Some p \<and> pc_Type p \<in> set format_names)"
proof -
  have ok: "config_ok env reg skipFS c" using assms(1) by (rule Load_config_ok)
  have reg: "fst ` set reg = set format_names"
  proof -
    have "set reg = set (init_registrations penv)" using assms(2) by (metis set_mset_mset)
    then have "fst ` set reg = set (sort (map fst (init_registrations penv)))" by simp
    then show ?thesis unfolding init_names .
  qed
  have parsers: "pc_Type p \<in> fst ` set reg" if "(name, p) \<in> set (Parsers c)" for name p
    using ok that by (auto simp: config_ok_def)
  have build: "Build reg n raw \<noteq> Inl (UnknownType a b)" if "n \<in> fst ` set reg" for n raw a b
    using that map_of_eq_None_iff[of reg n] by (auto simp: Build_def map_err_def split: option.splits sum.splits)
  have "tls_broker (MQTTBroker (Transport c))" using ok by (simp add: config_ok_def transport_ok_def)
  then obtain scheme r where "scheme \<in> {''tls'', ''ssl'', ''mqtts''}" "MQTTBroker (Transport c) = scheme @ ''://'' @ r"
    unfolding tls_broker_def by blast
  then have url: "normalizeBrokerURL url (MQTTBroker (Transport c)) = Inr \<lparr>Scheme = ''tls'', url_rest = x\<rparr>"
    using normalize_accepts[of scheme url r x] assms(3) by simp
  have ids: "Tenant (Daemon c) \<noteq> []" "DeviceID (Daemon c) \<noteq> []" using ok by (auto simp: config_ok_def IDPattern_def)
  then have topics: "\<exists>t. NewTopics (Tenant (Daemon c)) (DeviceID (Daemon c)) = Inr t" by (simp add: NewTopics_def Let_def)
  have pin: "t_BrokerCertPin (Transport c) = [] \<or> (\<exists>pin. ParsePin (t_BrokerCertPin (Transport c)) = Inr pin \<and> length pin = pinSize)"
    using ok by (auto simp: config_ok_def transport_ok_def ParsePin_iff)
  have src: "\<exists>p. map_of (Parsers c) (s_Parser s) = Some p \<and> pc_Type p \<in> set format_names" if "(name, s) \<in> set (Sources c)" for name s
  proof -
    have "source_ok c s" using ok that by (auto simp: config_ok_def)
    then have "s_Parser s \<in> fst ` set (Parsers c)" by (simp add: source_ok_def)
    then obtain p where p: "map_of (Parsers c) (s_Parser s) = Some p" by (metis map_of_eq_None_iff not_None_eq)
    then show ?thesis using parsers[OF map_of_SomeD[OF p]] reg by simp
  qed
  show ?thesis using topics url pin parsers build src by (intro conjI) blast+
qed

theorem loaded_config_runs_witness:
  "\<exists>c. Load example_toml example_fs (init_registrations example_env) True ''/etc/blackboxd.toml'' = Inr c
    \<and> (\<exists>t. NewTopics (Tenant (Daemon c)) (DeviceID (Daemon c)) = Inr t)"
proof -
  obtain c where c: "Load example_toml example_fs (init_registrations example_env) True ''/etc/blackboxd.toml'' = Inr c"
    using example_loads by blast
  from loaded_config_runs[OF c refl, of "\<lambda>_. Some ()"] show ?thesis using c by blast
qed

end
